(* ===== verification/Prelude.thy ===== *)
theory Prelude
  imports Main "HOL-Library.Word" "HOL-Library.Monad_Syntax"
begin

text \<open>
  Shared vocabulary of the development: the machine integer types of the C code, checked
  reads of the mapped file, and the small calculus in which the C functions are written.

  Memory. The library works on one read-only memory mapping of the database file. A pointer
  into it is its distance from the first mapped byte, and a read outside the mapping, which C
  leaves undefined, is the value \<^term>\<open>None\<close>. A definition of type \<open>'a option\<close> therefore
  returns \<^term>\<open>None\<close> exactly when the C code would perform an invalid memory access, and
  every memory safety theorem states that the result is not \<^term>\<open>None\<close>.
\<close>

unbundle bit_operations_syntax

section \<open>Machine integers and bytes\<close>

type_synonym u8 = "8 word"
type_synonym u16 = "16 word"
type_synonym u32 = "32 word"
type_synonym u64 = "64 word"
type_synonym u128 = "128 word"
type_synonym bytes = "u8 list"
type_synonym ptr = nat

named_theorems wp_simps \<open>equations of the weakest precondition of the C calculus\<close>
named_theorems unat_simps \<open>reading machine words as natural numbers\<close>

abbreviation (input) UINT32_MAX :: int where "UINT32_MAX \<equiv> 4294967295"
abbreviation (input) SIZE_MAX :: nat where "SIZE_MAX \<equiv> 18446744073709551615"
abbreviation (input) SSIZE_MAX :: int where "SSIZE_MAX \<equiv> 9223372036854775807"

section \<open>Checked reads\<close>

definition rd :: "bytes \<Rightarrow> ptr \<Rightarrow> u8 option" where
  "rd m p = (if p < length m then Some (m ! p) else None)"

lemma rd_Some [simp]: "p < length m \<Longrightarrow> rd m p = Some (m ! p)"
  by (simp add: rd_def)

lemma rd_eq_Some_iff: "rd m p = Some b \<longleftrightarrow> p < length m \<and> m ! p = b"
  by (auto simp: rd_def)

lemma rd_None_iff: "rd m p = None \<longleftrightarrow> length m \<le> p"
  by (auto simp: rd_def)

text \<open>A block read of \<open>n\<close> bytes, as \<open>memcpy\<close> and \<open>memcmp\<close> perform it.\<close>

definition rd_block :: "bytes \<Rightarrow> ptr \<Rightarrow> nat \<Rightarrow> bytes option" where
  "rd_block m p n = (if p + n \<le> length m then Some (take n (drop p m)) else None)"

lemma rd_block_Some [simp]: "p + n \<le> length m \<Longrightarrow> rd_block m p n = Some (take n (drop p m))"
  by (simp add: rd_block_def)

lemma rd_block_eq_Some_iff:
  "rd_block m p n = Some bs \<longleftrightarrow> p + n \<le> length m \<and> bs = take n (drop p m)"
  by (auto simp: rd_block_def)

text \<open>\<open>bytes_at m p bs\<close>: the bytes \<open>bs\<close> lie in \<open>m\<close> from address \<open>p\<close> on.\<close>

definition bytes_at :: "bytes \<Rightarrow> ptr \<Rightarrow> bytes \<Rightarrow> bool" where
  "bytes_at m p bs \<longleftrightarrow> p + length bs \<le> length m \<and> take (length bs) (drop p m) = bs"

lemma bytes_at_Nil [simp]: "bytes_at m p [] \<longleftrightarrow> p \<le> length m"
  by (simp add: bytes_at_def)

lemma bytes_at_Cons:
  "bytes_at m p (b # bs) \<longleftrightarrow> p < length m \<and> m ! p = b \<and> bytes_at m (Suc p) bs"
proof (cases "p < length m")
  case True
  then have "drop p m = m ! p # drop (Suc p) m" by (simp add: Cons_nth_drop_Suc)
  with True show ?thesis by (auto simp: bytes_at_def)
next
  case False
  then show ?thesis by (simp add: bytes_at_def)
qed

lemma bytes_at_append:
  "bytes_at m p (xs @ ys) \<longleftrightarrow> bytes_at m p xs \<and> bytes_at m (p + length xs) ys"
proof (induction xs arbitrary: p)
  case Nil
  then show ?case by (auto simp: bytes_at_def)
next
  case (Cons x xs)
  then show ?case by (simp add: bytes_at_Cons)
qed

lemma bytes_at_rd: "bytes_at m p bs \<Longrightarrow> i < length bs \<Longrightarrow> rd m (p + i) = Some (bs ! i)"
proof (induction bs arbitrary: p i)
  case (Cons b bs)
  then show ?case
    by (cases i) (fastforce simp: bytes_at_Cons)+
qed simp

lemma bytes_at_length: "bytes_at m p bs \<Longrightarrow> p + length bs \<le> length m"
  by (simp add: bytes_at_def)

lemma rd_block_bytes_at: "bytes_at m p bs \<Longrightarrow> n = length bs \<Longrightarrow> rd_block m p n = Some bs"
  by (simp add: bytes_at_def rd_block_def)

section \<open>Counted loops\<close>

text \<open>\<open>for (i in xs) body\<close> over a state, left when the body performs an invalid access.\<close>

fun for_each :: "'i list \<Rightarrow> ('i \<Rightarrow> 's \<Rightarrow> 's option) \<Rightarrow> 's \<Rightarrow> 's option" where
  "for_each [] body s = Some s"
| "for_each (i # is) body s = (case body i s of None \<Rightarrow> None | Some s' \<Rightarrow> for_each is body s')"

lemma for_each_append:
  "for_each (xs @ ys) body s =
    (case for_each xs body s of None \<Rightarrow> None | Some s' \<Rightarrow> for_each ys body s')"
  by (induction xs arbitrary: s) (auto split: option.split)

text \<open>A loop over \<open>0..<n\<close> whose body keeps an indexed invariant.\<close>

lemma for_each_upt:
  assumes "\<And>i s. i < n \<Longrightarrow> I i s \<Longrightarrow> \<exists>s'. body i s = Some s' \<and> I (Suc i) s'"
    and "I 0 s"
  shows "\<exists>s'. for_each [0..<n] body s = Some s' \<and> I n s'"
  using assms
proof (induction n)
  case (Suc n)
  then obtain s' where "for_each [0..<n] body s = Some s'" and "I n s'" by force
  with Suc.prems(1) [of n s'] show ?case by (auto simp: for_each_append)
qed simp

text \<open>What no step changes, the loop does not change.\<close>

lemma for_each_keeps:
  assumes "\<And>i s s'. body i s = Some s' \<Longrightarrow> q s' = q s"
  shows "for_each xs body s = Some s' \<Longrightarrow> q s' = q s"
proof (induction xs arbitrary: s)
  case (Cons i xs)
  then show ?case using assms [of i s] by (auto split: option.splits)
qed simp

section \<open>Unsigned comparisons in the style of the source\<close>

text \<open>
  The source tests that \<open>n\<close> bytes from \<open>off\<close> on fit a section of \<open>sz\<close> bytes by
  \<open>off > sz - n || sz < n\<close>, so that the sum cannot wrap. The next lemma reads the test.
\<close>

lemma fits_iff:
  fixes off sz n :: "'a::len word"
  shows "\<not> (off > sz - n \<or> sz < n) \<longleftrightarrow> unat off + unat n \<le> unat sz"
proof (cases "n \<le> sz")
  case True
  then have "unat (sz - n) = unat sz - unat n" by (rule unat_sub)
  with True show ?thesis
    by (auto simp: word_less_nat_alt word_le_nat_alt not_less)
next
  case False
  then show ?thesis
    by (auto simp: word_less_nat_alt word_le_nat_alt not_less not_le)
qed

lemma fits_const_iff:
  fixes off sz n :: "'a::len word"
  assumes "n \<le> sz"
  shows "off > sz - n \<longleftrightarrow> \<not> unat off + unat n \<le> unat sz"
  using fits_iff [where off = off and sz = sz and n = n] leD [OF assms] by blast

lemma unat_plus_le:
  fixes a b c :: "'a::len word"
  assumes "unat a + unat b \<le> unat c"
  shows "unat (a + b) = unat a + unat b"
proof -
  have "unat a + unat b < 2 ^ LENGTH('a)"
    using assms unsigned_less [of c] by (rule le_less_trans)
  then show ?thesis by (simp add: unat_word_ariths)
qed

lemma unat_ucast_up [unat_simps]:
  "LENGTH('a) \<le> LENGTH('b) \<Longrightarrow> unat (ucast (x :: 'a::len word) :: 'b::len word) = unat x"
  by (simp add: unsigned_ucast_eq take_bit_nat_eq_self_iff less_le_trans [OF unsigned_less])

lemma unat_u8_less [simp, intro]: "unat (b :: u8) < 256"
  using unsigned_less [of b] by simp

lemma ucast_word_of_nat:
  "LENGTH('b) \<le> LENGTH('a) \<Longrightarrow>
     (ucast (word_of_nat n :: 'a::len word) :: 'b::len word) = word_of_nat n"
  by (simp add: word_unat_eq_iff unat_of_nat unsigned_ucast_eq take_bit_eq_mod mod_mod_cancel
      le_imp_power_dvd)

lemma ucast_unat_up: "LENGTH('a) \<le> LENGTH('b) \<Longrightarrow>
    (ucast (x :: 'a::len word) :: 'b::len word) = word_of_nat (unat x)"
  by (simp add: word_unat_eq_iff unat_ucast_up unat_of_nat take_bit_nat_eq_self
      less_le_trans [OF unsigned_less])

lemma unat_u32_less: "unat (x :: u32) < 2 ^ 32"
  using unsigned_less [of x] by simp

lemma unat_u16_less: "unat (x :: u16) < 2 ^ 16"
  using unsigned_less [of x] by simp

end
