(* ===== verification/Status.thy ===== *)
theory Status
  imports Prelude
begin

text \<open>
  The error codes of \<open>include/maxminddb.h\<close>, \<open>MMDB_strerror\<close>, and the calculus of calls that
  may fail. A C function that returns an \<open>int\<close> status and writes an object \<open>'a\<close> through an
  out parameter is modelled with the result type \<open>'a run\<close>: \<^term>\<open>None\<close> is an invalid
  memory access, \<open>Some (st, x)\<close> is the returned status and the object as the code leaves it,
  also on the error paths.
\<close>

section \<open>Error codes\<close>

datatype mmdb_status =
    MMDB_SUCCESS
  | MMDB_FILE_OPEN_ERROR
  | MMDB_CORRUPT_SEARCH_TREE_ERROR
  | MMDB_INVALID_METADATA_ERROR
  | MMDB_IO_ERROR
  | MMDB_OUT_OF_MEMORY_ERROR
  | MMDB_UNKNOWN_DATABASE_FORMAT_ERROR
  | MMDB_INVALID_DATA_ERROR
  | MMDB_INVALID_LOOKUP_PATH_ERROR
  | MMDB_LOOKUP_PATH_DOES_NOT_MATCH_DATA_ERROR
  | MMDB_INVALID_NODE_NUMBER_ERROR
  | MMDB_IPV6_LOOKUP_IN_IPV4_DATABASE_ERROR
  | MMDB_INVALID_NETWORK_ADDRESS_ERROR

fun status_code :: "mmdb_status \<Rightarrow> int" where
  "status_code MMDB_SUCCESS = 0"
| "status_code MMDB_FILE_OPEN_ERROR = 1"
| "status_code MMDB_CORRUPT_SEARCH_TREE_ERROR = 2"
| "status_code MMDB_INVALID_METADATA_ERROR = 3"
| "status_code MMDB_IO_ERROR = 4"
| "status_code MMDB_OUT_OF_MEMORY_ERROR = 5"
| "status_code MMDB_UNKNOWN_DATABASE_FORMAT_ERROR = 6"
| "status_code MMDB_INVALID_DATA_ERROR = 7"
| "status_code MMDB_INVALID_LOOKUP_PATH_ERROR = 8"
| "status_code MMDB_LOOKUP_PATH_DOES_NOT_MATCH_DATA_ERROR = 9"
| "status_code MMDB_INVALID_NODE_NUMBER_ERROR = 10"
| "status_code MMDB_IPV6_LOOKUP_IN_IPV4_DATABASE_ERROR = 11"
| "status_code MMDB_INVALID_NETWORK_ADDRESS_ERROR = 12"

lemma status_code_inj: "status_code a = status_code b \<Longrightarrow> a = b"
  by (cases a; cases b) simp_all

text \<open>The codes are ordered as the header numbers them.\<close>

instantiation mmdb_status :: linorder
begin

definition less_eq_mmdb_status :: "mmdb_status \<Rightarrow> mmdb_status \<Rightarrow> bool" where
  "less_eq_mmdb_status a b = (status_code a \<le> status_code b)"

definition less_mmdb_status :: "mmdb_status \<Rightarrow> mmdb_status \<Rightarrow> bool" where
  "less_mmdb_status a b = (status_code a < status_code b)"

instance
  by standard
    (auto simp: less_eq_mmdb_status_def less_mmdb_status_def intro: status_code_inj)

end

definition MMDB_strerror :: "int \<Rightarrow> string" where
  "MMDB_strerror error_code =
    (if error_code = 0 then ''Success (not an error)''
     else if error_code = 1 then ''Error opening the specified MaxMind DB file''
     else if error_code = 2 then ''The MaxMind DB file's search tree is corrupt''
     else if error_code = 3 then ''The MaxMind DB file contains invalid metadata''
     else if error_code = 4 then ''An attempt to read data from the MaxMind DB file failed''
     else if error_code = 5 then ''A memory allocation call failed''
     else if error_code = 6 then ''The MaxMind DB file is in a format this library can't '' @
       ''handle (unknown record size or binary format version)''
     else if error_code = 7 then ''The MaxMind DB file's data section contains bad data '' @
       ''(unknown data type or corrupt data)''
     else if error_code = 8 then ''The lookup path contained an invalid value (like a '' @
       ''negative integer for an array index)''
     else if error_code = 9 then ''The lookup path does not match the data (key that doesn't '' @
       ''exist, array index bigger than the array, expected array '' @
       ''or map where none exists)''
     else if error_code = 10 then ''The MMDB_read_node function was called with a node number '' @
       ''that does not exist in the search tree''
     else if error_code = 11 then ''You attempted to look up an IPv6 address in an IPv4-only '' @
       ''database''
     else if error_code = 12 then ''The sockaddr family is unsupported; only AF_INET and '' @
       ''AF_INET6 are accepted''
     else ''Unknown error code'')"

section \<open>Calls that may fail\<close>

type_synonym 'a run = "(mmdb_status \<times> 'a) option"

text \<open>
  \<open>chk_with g m f\<close> is \<open>status = m; if (MMDB_SUCCESS != status) return status; f\<close>: when the
  call \<open>m\<close> fails the caller returns its status at once, with the caller's own out parameter
  as \<open>g\<close> says. \<open>chk\<close> is the case in which the caller passed its own out parameter on, as
  \<open>CHECKED_DECODE_ONE(mmdb, offset, entry_data)\<close> does.
\<close>

definition chk_with :: "('b \<Rightarrow> 'a) \<Rightarrow> 'b run \<Rightarrow> ('b \<Rightarrow> 'a run) \<Rightarrow> 'a run" where
  "chk_with g m f =
    (case m of
       None \<Rightarrow> None
     | Some (st, x) \<Rightarrow> if st \<noteq> MMDB_SUCCESS then Some (st, g x) else f x)"

abbreviation chk :: "'a run \<Rightarrow> ('a \<Rightarrow> 'a run) \<Rightarrow> 'a run" where
  "chk \<equiv> chk_with (\<lambda>x. x)"

lemma chk_with_None [simp]: "chk_with g None f = None"
  by (simp add: chk_with_def)

lemma chk_with_Some [simp]:
  "chk_with g (Some (st, x)) f = (if st = MMDB_SUCCESS then f x else Some (st, g x))"
  by (simp add: chk_with_def)

text \<open>\<open>while (n-- > 0) body\<close>, left early with the status of a body that fails.\<close>

fun c_repeat :: "nat \<Rightarrow> ('a \<Rightarrow> 'a run) \<Rightarrow> 'a \<Rightarrow> 'a run" where
  "c_repeat 0 body x = Some (MMDB_SUCCESS, x)"
| "c_repeat (Suc n) body x = chk (body x) (c_repeat n body)"

section \<open>Weakest preconditions\<close>

text \<open>\<open>wp m Q\<close>: the call performs no invalid access, and its status and result satisfy \<open>Q\<close>.\<close>

definition wp :: "'a run \<Rightarrow> (mmdb_status \<Rightarrow> 'a \<Rightarrow> bool) \<Rightarrow> bool" where
  "wp m Q = (case m of None \<Rightarrow> False | Some (st, x) \<Rightarrow> Q st x)"

lemma wp_None [wp_simps, simp]: "wp None Q = False"
  by (simp add: wp_def)

lemma wp_Some [wp_simps, simp]: "wp (Some (st, x)) Q = Q st x"
  by (simp add: wp_def)

lemma wp_chk_with [wp_simps]:
  "wp (chk_with g m f) Q =
     wp m (\<lambda>st x. if st = MMDB_SUCCESS then wp (f x) Q else Q st (g x))"
  by (cases m) (auto simp: wp_def)

lemma wp_if [wp_simps]: "wp (if b then m else m') Q = (if b then wp m Q else wp m' Q)"
  by simp

lemma wp_Let [wp_simps]: "wp (let x = v in f x) Q = wp (f v) Q"
  by simp

lemma wp_mono: "wp m P \<Longrightarrow> (\<And>st x. P st x \<Longrightarrow> Q st x) \<Longrightarrow> wp m Q"
  by (cases m) auto

lemma wp_conj: "wp m (\<lambda>st x. P st x \<and> Q st x) \<longleftrightarrow> wp m P \<and> wp m Q"
  by (cases m) auto

lemma wp_iff_ex: "wp m Q \<longleftrightarrow> (\<exists>st x. m = Some (st, x) \<and> Q st x)"
  by (cases m) auto

lemma wp_not_None: "wp m Q \<Longrightarrow> m \<noteq> None"
  by (cases m) auto

lemma wp_SomeD: "wp m Q \<Longrightarrow> m = Some (st, x) \<Longrightarrow> Q st x"
  by simp

lemma wp_c_repeat:
  assumes body: "\<And>x. I x \<Longrightarrow> wp (body x) (\<lambda>st y. if st = MMDB_SUCCESS then I y else Q st y)"
    and start: "I x"
    and stop: "\<And>x. I x \<Longrightarrow> Q MMDB_SUCCESS x"
  shows "wp (c_repeat n body x) Q"
  using start
proof (induction n arbitrary: x)
  case 0
  then show ?case by (simp add: stop)
next
  case (Suc n)
  show ?case
    unfolding c_repeat.simps wp_chk_with
    by (rule wp_mono [OF body [OF Suc.prems]]) (auto intro: Suc.IH split: if_splits)
qed

text \<open>A counted variant: the invariant may depend on the number of rounds left.\<close>

lemma wp_c_repeat_count:
  assumes body: "\<And>k x. k < n \<Longrightarrow> I (Suc k) x \<Longrightarrow>
      wp (body x) (\<lambda>st y. if st = MMDB_SUCCESS then I k y else Q st y)"
    and start: "I n x"
    and stop: "\<And>x. I 0 x \<Longrightarrow> Q MMDB_SUCCESS x"
  shows "wp (c_repeat n body x) Q"
  using start body
proof (induction n arbitrary: x)
  case 0
  then show ?case by (simp add: stop)
next
  case (Suc n)
  have first: "wp (body x) (\<lambda>st y. if st = MMDB_SUCCESS then I n y else Q st y)"
    using Suc.prems by simp
  have rest: "wp (c_repeat n body y) Q" if "I n y" for y
    using that by (rule Suc.IH) (rule Suc.prems(2), simp_all)
  from first show ?case
    unfolding c_repeat.simps wp_chk_with
    by (rule wp_mono) (auto intro: rest split: if_splits)
qed

text \<open>An optional value and a step on it, for the reads of single bytes.\<close>

lemma wp_bind_Some [wp_simps]: "wp (Option.bind (Some x) f) Q = wp (f x) Q"
  by simp

end
