(* ===== verification/Database.thy ===== *)
theory Database
  imports Status
begin

text \<open>
  The public data types of \<open>include/maxminddb.h\<close>. Structures are records; a field whose C name
  is a common word carries a prefix (\<open>db_depth\<close> is \<open>mmdb->depth\<close>, \<open>ed_type\<close> is
  \<open>entry_data->type\<close>). The union of \<open>MMDB_entry_data_s\<close> is a datatype that remembers which
  member was written last, so reading another member is an invalid access. Memory obtained
  from \<open>malloc\<close> is an address together with its content.
\<close>

section \<open>Data types of the format\<close>

abbreviation (input) MMDB_DATA_TYPE_EXTENDED :: u32 where "MMDB_DATA_TYPE_EXTENDED \<equiv> 0"
abbreviation (input) MMDB_DATA_TYPE_POINTER :: u32 where "MMDB_DATA_TYPE_POINTER \<equiv> 1"
abbreviation (input) MMDB_DATA_TYPE_UTF8_STRING :: u32 where "MMDB_DATA_TYPE_UTF8_STRING \<equiv> 2"
abbreviation (input) MMDB_DATA_TYPE_DOUBLE :: u32 where "MMDB_DATA_TYPE_DOUBLE \<equiv> 3"
abbreviation (input) MMDB_DATA_TYPE_BYTES :: u32 where "MMDB_DATA_TYPE_BYTES \<equiv> 4"
abbreviation (input) MMDB_DATA_TYPE_UINT16 :: u32 where "MMDB_DATA_TYPE_UINT16 \<equiv> 5"
abbreviation (input) MMDB_DATA_TYPE_UINT32 :: u32 where "MMDB_DATA_TYPE_UINT32 \<equiv> 6"
abbreviation (input) MMDB_DATA_TYPE_MAP :: u32 where "MMDB_DATA_TYPE_MAP \<equiv> 7"
abbreviation (input) MMDB_DATA_TYPE_INT32 :: u32 where "MMDB_DATA_TYPE_INT32 \<equiv> 8"
abbreviation (input) MMDB_DATA_TYPE_UINT64 :: u32 where "MMDB_DATA_TYPE_UINT64 \<equiv> 9"
abbreviation (input) MMDB_DATA_TYPE_UINT128 :: u32 where "MMDB_DATA_TYPE_UINT128 \<equiv> 10"
abbreviation (input) MMDB_DATA_TYPE_ARRAY :: u32 where "MMDB_DATA_TYPE_ARRAY \<equiv> 11"
abbreviation (input) MMDB_DATA_TYPE_CONTAINER :: u32 where "MMDB_DATA_TYPE_CONTAINER \<equiv> 12"
abbreviation (input) MMDB_DATA_TYPE_END_MARKER :: u32 where "MMDB_DATA_TYPE_END_MARKER \<equiv> 13"
abbreviation (input) MMDB_DATA_TYPE_BOOLEAN :: u32 where "MMDB_DATA_TYPE_BOOLEAN \<equiv> 14"
abbreviation (input) MMDB_DATA_TYPE_FLOAT :: u32 where "MMDB_DATA_TYPE_FLOAT \<equiv> 15"

abbreviation (input) MMDB_RECORD_TYPE_SEARCH_NODE :: u8 where "MMDB_RECORD_TYPE_SEARCH_NODE \<equiv> 0"
abbreviation (input) MMDB_RECORD_TYPE_EMPTY :: u8 where "MMDB_RECORD_TYPE_EMPTY \<equiv> 1"
abbreviation (input) MMDB_RECORD_TYPE_DATA :: u8 where "MMDB_RECORD_TYPE_DATA \<equiv> 2"
abbreviation (input) MMDB_RECORD_TYPE_INVALID :: u8 where "MMDB_RECORD_TYPE_INVALID \<equiv> 3"

abbreviation (input) MMDB_MODE_MMAP :: u32 where "MMDB_MODE_MMAP \<equiv> 1"
abbreviation (input) MMDB_MODE_MASK :: u32 where "MMDB_MODE_MASK \<equiv> 7"

abbreviation (input) MMDB_DATA_SECTION_SEPARATOR :: u32 where "MMDB_DATA_SECTION_SEPARATOR \<equiv> 16"
abbreviation (input) MAXIMUM_DATA_STRUCTURE_DEPTH :: nat where "MAXIMUM_DATA_STRUCTURE_DEPTH \<equiv> 512"

section \<open>Decoded entries\<close>

text \<open>A \<open>const char *\<close> into the mapping, or the literal \<open>""\<close> that empty strings get.\<close>

datatype c_str = Empty_literal | Mapped ptr

datatype entry_value =
    Zeroed
  | Pointer_val u32
  | Utf8_string_val c_str
  | Double_val u64
  | Bytes_val ptr
  | Uint16_val u16
  | Uint32_val u32
  | Int32_val u32
  | Uint64_val u64
  | Uint128_val u128
  | Boolean_val bool
  | Float_val u32

record MMDB_entry_data_s =
  has_data :: bool
  ed_value :: entry_value
  ed_offset :: u32
  offset_to_next :: u32
  data_size :: u32
  ed_type :: u32

text \<open>\<open>memset(entry_data, 0, sizeof(MMDB_entry_data_s))\<close>\<close>

definition zero_entry :: MMDB_entry_data_s where
  "zero_entry = \<lparr>has_data = False, ed_value = Zeroed, ed_offset = 0, offset_to_next = 0,
     data_size = 0, ed_type = 0\<rparr>"

text \<open>Reading a member of the union.\<close>

fun union_pointer :: "entry_value \<Rightarrow> u32 option" where
  "union_pointer (Pointer_val p) = Some p" | "union_pointer _ = None"

fun union_utf8_string :: "entry_value \<Rightarrow> c_str option" where
  "union_utf8_string (Utf8_string_val s) = Some s" | "union_utf8_string _ = None"

fun union_bytes :: "entry_value \<Rightarrow> ptr option" where
  "union_bytes (Bytes_val p) = Some p" | "union_bytes _ = None"

fun union_uint16 :: "entry_value \<Rightarrow> u16 option" where
  "union_uint16 (Uint16_val w) = Some w" | "union_uint16 _ = None"

fun union_uint32 :: "entry_value \<Rightarrow> u32 option" where
  "union_uint32 (Uint32_val w) = Some w" | "union_uint32 _ = None"

fun union_uint64 :: "entry_value \<Rightarrow> u64 option" where
  "union_uint64 (Uint64_val w) = Some w" | "union_uint64 _ = None"

fun union_double :: "entry_value \<Rightarrow> u64 option" where
  "union_double (Double_val w) = Some w" | "union_double _ = None"

fun union_float :: "entry_value \<Rightarrow> u32 option" where
  "union_float (Float_val w) = Some w" | "union_float _ = None"

fun union_int32 :: "entry_value \<Rightarrow> u32 option" where
  "union_int32 (Int32_val w) = Some w" | "union_int32 _ = None"

fun union_uint128 :: "entry_value \<Rightarrow> u128 option" where
  "union_uint128 (Uint128_val w) = Some w" | "union_uint128 _ = None"

fun union_boolean :: "entry_value \<Rightarrow> bool option" where
  "union_boolean (Boolean_val b) = Some b" | "union_boolean _ = None"

section \<open>The database handle\<close>

type_synonym addr = nat
type_synonym 'a owned = "addr \<times> 'a"

record MMDB_description_s =
  language :: "bytes owned option"
  description :: "bytes owned option"

record MMDB_metadata_s =
  node_count :: u32
  record_size :: u16
  ip_version :: u16
  database_type :: "bytes owned option"
  languages_count :: nat
  languages_names :: "bytes owned option list owned option"
  binary_format_major_version :: u16
  binary_format_minor_version :: u16
  build_epoch :: u64
  description_count :: nat
  descriptions :: "MMDB_description_s owned option list owned option"

record MMDB_ipv4_start_node_s =
  start_netmask :: u16
  node_value :: u32

text \<open>
  \<open>mapping\<close> is the content of the memory mapping that \<open>file_content\<close>, \<open>data_section\<close> and
  \<open>metadata_section\<close> point into; it is memory, not a field of the C structure.
\<close>

record MMDB_s =
  mapping :: bytes
  db_flags :: u32
  db_filename :: "bytes owned option"
  file_size :: int
  file_content :: "ptr option"
  data_section :: "ptr option"
  data_section_size :: u32
  metadata_section :: "ptr option"
  metadata_section_size :: u32
  full_record_byte_size :: u16
  db_depth :: u16
  ipv4_start_node :: MMDB_ipv4_start_node_s
  db_metadata :: MMDB_metadata_s

record MMDB_entry_s =
  entry_mmdb :: MMDB_s
  entry_offset :: u32

record MMDB_lookup_result_s =
  found_entry :: bool
  result_entry :: MMDB_entry_s
  netmask :: u16

record MMDB_search_node_s =
  left_record :: u64
  right_record :: u64
  left_record_type :: u8
  right_record_type :: u8
  left_record_entry :: MMDB_entry_s
  right_record_entry :: MMDB_entry_s

text \<open>A zero-initialised handle, for designated initialisers that leave fields out.\<close>

definition zero_metadata :: MMDB_metadata_s where
  "zero_metadata = \<lparr>node_count = 0, record_size = 0, ip_version = 0, database_type = None,
     languages_count = 0, languages_names = None, binary_format_major_version = 0,
     binary_format_minor_version = 0, build_epoch = 0, description_count = 0,
     descriptions = None\<rparr>"

definition zero_mmdb :: "bytes \<Rightarrow> MMDB_s" where
  "zero_mmdb mem = \<lparr>mapping = mem, db_flags = 0, db_filename = None, file_size = 0,
     file_content = None, data_section = None, data_section_size = 0,
     metadata_section = None, metadata_section_size = 0, full_record_byte_size = 0,
     db_depth = 0, ipv4_start_node = \<lparr>start_netmask = 0, node_value = 0\<rparr>,
     db_metadata = zero_metadata\<rparr>"

text \<open>\<open>make_fake_metadata_db\<close>: a handle whose data section is the metadata section.\<close>

definition make_fake_metadata_db :: "MMDB_s \<Rightarrow> MMDB_s" where
  "make_fake_metadata_db db =
     (zero_mmdb (mapping db))\<lparr>data_section := metadata_section db,
       data_section_size := metadata_section_size db\<rparr>"

section \<open>Reads relative to a section\<close>

text \<open>\<open>mmdb->data_section[offset]\<close>\<close>

definition section_rd :: "MMDB_s \<Rightarrow> u32 \<Rightarrow> u8 option" where
  "section_rd db offset =
    (case data_section db of None \<Rightarrow> None | Some p \<Rightarrow> rd (mapping db) (p + unat offset))"

text \<open>
  The section lies inside the mapping and holds at least three bytes, which is what the
  decoder's bounds checks assume (the comment in \<open>MMDB_open\<close>).
\<close>

definition wf_section :: "MMDB_s \<Rightarrow> bool" where
  "wf_section db \<longleftrightarrow>
    (case data_section db of
       None \<Rightarrow> False
     | Some p \<Rightarrow> p + unat (data_section_size db) \<le> length (mapping db)) \<and>
    3 \<le> data_section_size db"

lemma wf_sectionE:
  assumes "wf_section db"
  obtains p where "data_section db = Some p"
    and "p + unat (data_section_size db) \<le> length (mapping db)"
    and "3 \<le> unat (data_section_size db)"
  using assms
  by (auto simp: wf_section_def word_le_nat_alt split: option.splits)

lemma section_rd_ok:
  "wf_section db \<Longrightarrow> unat offset < unat (data_section_size db) \<Longrightarrow>
     \<exists>b. section_rd db offset = Some b"
  by (erule wf_sectionE) (simp add: section_rd_def)

end
