(* ===== verification/Byte_Readers.thy ===== *)
theory Byte_Readers
  imports Database
begin

text \<open>
  The byte readers of \<open>src/maxminddb.c\<close>: the fixed-width and variable-width big-endian
  integers, the IEEE 754 loads with their byte swaps, the pointer decoding of control bytes
  and the record getters of the search tree. Each is translated with its C arithmetic and then
  related to \<open>be\<close>, the big-endian value of a byte string.
\<close>

section \<open>Big-endian values\<close>

definition be :: "bytes \<Rightarrow> nat" where
  "be bs = foldl (\<lambda>a b. a * 256 + unat b) 0 bs"

lemma foldl_be: "foldl (\<lambda>a b. a * 256 + unat b) k bs = k * 256 ^ length bs + be bs"
proof (induction bs arbitrary: k)
  case Nil
  then show ?case by (simp add: be_def)
next
  case (Cons b bs)
  have "be (b # bs) = unat b * 256 ^ length bs + be bs"
    using Cons [of "unat b"] by (simp add: be_def)
  then show ?case using Cons [of "k * 256 + unat b"] by (simp add: algebra_simps)
qed

lemma be_Nil [simp]: "be [] = 0"
  by (simp add: be_def)

lemma be_Cons: "be (b # bs) = unat b * 256 ^ length bs + be bs"
  using foldl_be [of "unat b" bs] by (simp add: be_def)

lemma be_snoc: "be (bs @ [b]) = be bs * 256 + unat b"
  by (simp add: be_def)

lemma be_bound: "be bs < 256 ^ length bs"
proof (induction bs)
  case (Cons b bs)
  have "be (b # bs) < unat b * 256 ^ length bs + 256 ^ length bs"
    using Cons by (simp add: be_Cons)
  also have "\<dots> = (unat b + 1) * 256 ^ length bs" by simp
  also have "\<dots> \<le> 256 * 256 ^ length bs"
    using unat_u8_less [of b] by (intro mult_right_mono) linarith+
  finally show ?case by simp
qed simp

text \<open>The inverse: \<open>be_bytes n v\<close> writes \<open>v\<close> in \<open>n\<close> big-endian bytes.\<close>

fun be_bytes :: "nat \<Rightarrow> nat \<Rightarrow> bytes" where
  "be_bytes 0 v = []"
| "be_bytes (Suc n) v = be_bytes n (v div 256) @ [word_of_nat (v mod 256)]"

lemma length_be_bytes [simp]: "length (be_bytes n v) = n"
  by (induction n arbitrary: v) simp_all

lemma unat_of_nat_u8 [simp]: "unat (word_of_nat k :: u8) = k mod 256"
  by (simp add: unat_of_nat)

lemma be_be_bytes: "v < 256 ^ n \<Longrightarrow> be (be_bytes n v) = v"
proof (induction n arbitrary: v)
  case (Suc n)
  then have "v div 256 < 256 ^ n"
    by (simp add: less_mult_imp_div_less mult.commute)
  then show ?case using Suc.IH by (simp add: be_snoc)
qed simp

section \<open>Fixed-width readers\<close>

definition get_uint32 :: "bytes \<Rightarrow> ptr \<Rightarrow> u32 option" where
  "get_uint32 m p = do {
     b0 \<leftarrow> rd m p; b1 \<leftarrow> rd m (p + 1); b2 \<leftarrow> rd m (p + 2); b3 \<leftarrow> rd m (p + 3);
     Some (ucast b0 * 16777216 + ucast b1 * 65536 + ucast b2 * 256 + ucast b3) }"

definition get_uint24 :: "bytes \<Rightarrow> ptr \<Rightarrow> u32 option" where
  "get_uint24 m p = do {
     b0 \<leftarrow> rd m p; b1 \<leftarrow> rd m (p + 1); b2 \<leftarrow> rd m (p + 2);
     Some (ucast b0 * 65536 + ucast b1 * 256 + ucast b2) }"

definition get_uint16 :: "bytes \<Rightarrow> ptr \<Rightarrow> u32 option" where
  "get_uint16 m p = do {
     b0 \<leftarrow> rd m p; b1 \<leftarrow> rd m (p + 1);
     Some (ucast b0 * 256 + ucast b1) }"

text \<open>The loops \<open>while (length-- > 0) { value <<= 8; value += *p++; }\<close>.\<close>

fun shift_in_bytes :: "bytes \<Rightarrow> ptr \<Rightarrow> nat \<Rightarrow> 'a::len word \<Rightarrow> 'a word option" where
  "shift_in_bytes m p 0 v = Some v"
| "shift_in_bytes m p (Suc len) v =
     do { b \<leftarrow> rd m p; shift_in_bytes m (p + 1) len (push_bit 8 v + ucast b) }"

definition get_uintX :: "bytes \<Rightarrow> ptr \<Rightarrow> nat \<Rightarrow> u64 option" where
  "get_uintX m p len = shift_in_bytes m p len 0"

definition get_uint128 :: "bytes \<Rightarrow> ptr \<Rightarrow> nat \<Rightarrow> u128 option" where
  "get_uint128 m p len = shift_in_bytes m p len 0"

text \<open>\<open>(int32_t)get_uintX(p, length)\<close>: the low 32 bits, read as two's complement.\<close>

definition get_sintX :: "bytes \<Rightarrow> ptr \<Rightarrow> nat \<Rightarrow> u32 option" where
  "get_sintX m p len = map_option ucast (get_uintX m p len)"

lemma shift_in_bytes_be:
  fixes v :: "'a::len word"
  assumes "bytes_at m p bs"
  shows "shift_in_bytes m p (length bs) v =
    Some (v * 256 ^ length bs + word_of_nat (be bs))"
  using assms
proof (induction bs arbitrary: p v)
  case (Cons b bs)
  have "rd m p = Some b" and rest: "bytes_at m (Suc p) bs"
    using Cons.prems by (auto simp: bytes_at_Cons)
  then show ?case
    using Cons.IH [OF rest]
    by (simp add: be_Cons push_bit_eq_mult algebra_simps)
qed simp

lemma get_uintX_be: "bytes_at m p bs \<Longrightarrow> get_uintX m p (length bs) = Some (word_of_nat (be bs))"
  by (simp add: get_uintX_def shift_in_bytes_be)

lemma get_uint128_be:
  "bytes_at m p bs \<Longrightarrow> get_uint128 m p (length bs) = Some (word_of_nat (be bs))"
  by (simp add: get_uint128_def shift_in_bytes_be)

lemma length_2_conv: "length xs = 2 \<longleftrightarrow> (\<exists>a b. xs = [a, b])"
  by (auto simp: numeral_2_eq_2 length_Suc_conv)

lemma length_3_conv: "length xs = 3 \<longleftrightarrow> (\<exists>a b c. xs = [a, b, c])"
  by (auto simp: numeral_3_eq_3 length_Suc_conv)

lemma length_4_conv: "length xs = 4 \<longleftrightarrow> (\<exists>a b c d. xs = [a, b, c, d])"
  by (auto simp: eval_nat_numeral length_Suc_conv)

lemma get_uint16_be:
  "bytes_at m p bs \<Longrightarrow> length bs = 2 \<Longrightarrow> get_uint16 m p = Some (word_of_nat (be bs))"
  by (auto simp: get_uint16_def bytes_at_Cons length_2_conv be_Cons algebra_simps)

lemma get_uint24_be:
  "bytes_at m p bs \<Longrightarrow> length bs = 3 \<Longrightarrow> get_uint24 m p = Some (word_of_nat (be bs))"
  by (auto simp: get_uint24_def bytes_at_Cons length_3_conv be_Cons algebra_simps)

lemma get_uint32_be:
  "bytes_at m p bs \<Longrightarrow> length bs = 4 \<Longrightarrow> get_uint32 m p = Some (word_of_nat (be bs))"
  by (auto simp: get_uint32_def bytes_at_Cons length_4_conv be_Cons algebra_simps
      numeral_3_eq_3)

section \<open>Pointer decoding and extended types\<close>

definition get_ext_type :: "int \<Rightarrow> int" where
  "get_ext_type raw_ext_type = 7 + raw_ext_type"

definition get_ptr_from :: "u8 \<Rightarrow> bytes \<Rightarrow> ptr \<Rightarrow> nat \<Rightarrow> u32 option" where
  "get_ptr_from ctrl m p ptr_size =
    (if ptr_size = 1 then
       do { b0 \<leftarrow> rd m p; Some (push_bit 8 (ucast ctrl AND 7) + ucast b0) }
     else if ptr_size = 2 then
       do { b0 \<leftarrow> rd m p; b1 \<leftarrow> rd m (p + 1);
            Some (2048 + push_bit 16 (ucast ctrl AND 7) + push_bit 8 (ucast b0) + ucast b1) }
     else if ptr_size = 3 then
       do { v \<leftarrow> get_uint24 m p;
            Some (2048 + 524288 + push_bit 24 (ucast ctrl AND 7) + v) }
     else get_uint32 m p)"

section \<open>Search tree records of 28 bits\<close>

definition get_left_28_bit_record :: "bytes \<Rightarrow> ptr \<Rightarrow> u32 option" where
  "get_left_28_bit_record m record = do {
     b0 \<leftarrow> rd m record; b1 \<leftarrow> rd m (record + 1);
     b2 \<leftarrow> rd m (record + 2); b3 \<leftarrow> rd m (record + 3);
     Some (ucast b0 * 65536 + ucast b1 * 256 + ucast b2 + push_bit 20 (ucast b3 AND 0xf0)) }"

definition get_right_28_bit_record :: "bytes \<Rightarrow> ptr \<Rightarrow> u32 option" where
  "get_right_28_bit_record m record = do {
     v \<leftarrow> get_uint32 m record; Some (v AND 0xfffffff) }"

lemma and_240_nat: "n < 256 \<Longrightarrow> n AND 240 = 16 * (n div 16)" for n :: nat
proof -
  assume "n < 256"
  then have top: "take_bit 8 n = n" by (simp add: take_bit_nat_eq_self_iff)
  have "(240 :: nat) = push_bit 4 (mask 4)" by (simp add: mask_eq_exp_minus_1 push_bit_eq_mult)
  then have "n AND 240 = take_bit 8 n AND push_bit 4 (mask 4)" by (simp add: top)
  also have "\<dots> = push_bit 4 (drop_bit 4 (take_bit 8 n))"
    by (rule bit_eqI) (auto simp: bit_simps)
  finally show ?thesis by (simp add: top push_bit_eq_mult drop_bit_eq_div)
qed

lemma unat_and_f0: "unat ((ucast (b :: u8) :: u32) AND 0xf0) = 16 * (unat b div 16)"
  by (simp add: unsigned_and_eq unat_ucast_up and_240_nat)

lemma unat_and_7: "unat ((ucast (b :: u8) :: u32) AND 7) = unat b mod 8"
proof -
  have "unat b AND 7 = take_bit 3 (unat b)"
    by (simp add: take_bit_eq_mask mask_eq_exp_minus_1)
  then show ?thesis by (simp add: unsigned_and_eq unat_ucast_up take_bit_eq_mod)
qed

text \<open>
  The seven bytes of a node with 28-bit records: the middle byte carries the top four bits of
  the left record in its upper half and those of the right record in its lower half.
\<close>

lemma get_left_28_bit_record_eq:
  assumes "bytes_at m p [b0, b1, b2, b3]"
  shows "get_left_28_bit_record m p =
    Some (word_of_nat ((unat b3 div 16) * 2 ^ 24 + be [b0, b1, b2]))"
proof -
  have "(push_bit 20 (ucast b3 AND 0xf0) :: u32) = word_of_nat (2 ^ 20 * (16 * (unat b3 div 16)))"
    by (simp add: push_bit_eq_mult flip: unat_and_f0)
  with assms show ?thesis
    by (simp add: get_left_28_bit_record_def bytes_at_Cons be_Cons numeral_3_eq_3 algebra_simps)
qed

lemma get_right_28_bit_record_eq:
  assumes "bytes_at m p [b3, b4, b5, b6]"
  shows "get_right_28_bit_record m p =
    Some (word_of_nat ((unat b3 mod 16) * 2 ^ 24 + be [b4, b5, b6]))"
proof -
  let ?v = "be [b3, b4, b5, b6]"
  have "(word_of_nat ?v AND 0xfffffff :: u32) = take_bit 28 (word_of_nat ?v)"
    by (simp add: take_bit_eq_mask mask_eq_exp_minus_1)
  also have "\<dots> = word_of_nat (take_bit 28 ?v)"
    by (simp add: take_bit_of_nat)
  also have "take_bit 28 ?v = (unat b3 mod 16) * 2 ^ 24 + be [b4, b5, b6]"
  proof -
    have v: "?v = unat b3 * 2 ^ 24 + be [b4, b5, b6]" by (simp add: be_Cons)
    have r: "be [b4, b5, b6] < 2 ^ 24" using be_bound [of "[b4, b5, b6]"] by simp
    have "(unat b3 * 2 ^ 24 + be [b4, b5, b6]) mod 2 ^ 28 =
        (unat b3 mod 16) * 2 ^ 24 + be [b4, b5, b6]"
      using r mod_mult2_eq [of "unat b3 * 2 ^ 24 + be [b4, b5, b6]" "2 ^ 24" 16]
      by simp
    with v show ?thesis by (simp add: take_bit_eq_mod)
  qed
  finally show ?thesis
    using get_uint32_be [OF assms] by (simp add: get_right_28_bit_record_def)
qed

lemma push_bit_word_of_nat:
  "push_bit n (x :: 'a::len word) = word_of_nat (2 ^ n * unat x)"
  by (simp add: push_bit_eq_mult)

lemma get_ptr_from_1:
  "bytes_at m p bs \<Longrightarrow> length bs = 1 \<Longrightarrow>
     get_ptr_from ctrl m p 1 = Some (word_of_nat ((unat ctrl mod 8) * 2 ^ 8 + be bs))"
  by (auto simp: get_ptr_from_def bytes_at_Cons length_Suc_conv be_Cons push_bit_word_of_nat
      unat_and_7 algebra_simps)

lemma get_ptr_from_2:
  "bytes_at m p bs \<Longrightarrow> length bs = 2 \<Longrightarrow>
     get_ptr_from ctrl m p 2 = Some (word_of_nat (2048 + (unat ctrl mod 8) * 2 ^ 16 + be bs))"
  by (auto simp: get_ptr_from_def bytes_at_Cons length_2_conv be_Cons push_bit_word_of_nat
      unat_and_7 algebra_simps)

lemma get_ptr_from_3:
  "bytes_at m p bs \<Longrightarrow> length bs = 3 \<Longrightarrow>
     get_ptr_from ctrl m p 3 = Some (word_of_nat (526336 + (unat ctrl mod 8) * 2 ^ 24 + be bs))"
  using get_uint24_be [of m p bs]
  by (simp add: get_ptr_from_def push_bit_word_of_nat unat_and_7 algebra_simps)

lemma get_ptr_from_4:
  "bytes_at m p bs \<Longrightarrow> length bs = 4 \<Longrightarrow>
     get_ptr_from ctrl m p 4 = Some (word_of_nat (be bs))"
  using get_uint32_be [of m p bs] by (simp add: get_ptr_from_def)

lemma get_ptr_from_ok:
  "n \<in> {1, 2, 3, 4} \<Longrightarrow> p + n \<le> length m \<Longrightarrow> \<exists>v. get_ptr_from ctrl m p n = Some v"
  by (auto simp: get_ptr_from_def get_uint24_def get_uint32_def)

section \<open>IEEE 754 loads\<close>

text \<open>
  A \<open>float\<close> or \<open>double\<close> is its bit pattern. \<open>memcpy\<close> into an integer reads the bytes in the
  order of the host; \<open>host_load\<close> is that load, for hosts of both kinds. The byte swaps are
  the portable branches of \<open>mmdb_bswap32\<close> and \<open>mmdb_bswap64\<close>.
\<close>

definition mmdb_bswap32 :: "u32 \<Rightarrow> u32" where
  "mmdb_bswap32 x =
    (let x = (push_bit 8 x AND 0xFF00FF00) OR (drop_bit 8 x AND 0x00FF00FF)
     in push_bit 16 x OR drop_bit 16 x)"

definition mmdb_bswap64 :: "u64 \<Rightarrow> u64" where
  "mmdb_bswap64 x =
    (let x = push_bit 32 (x AND 0x00000000FFFFFFFF) OR drop_bit 32 (x AND 0xFFFFFFFF00000000);
         x = push_bit 16 (x AND 0x0000FFFF0000FFFF) OR drop_bit 16 (x AND 0xFFFF0000FFFF0000)
     in push_bit 8 (x AND 0x00FF00FF00FF00FF) OR drop_bit 8 (x AND 0xFF00FF00FF00FF00))"

definition host_load :: "bool \<Rightarrow> bytes \<Rightarrow> 'a::len word" where
  "host_load little_endian bs = word_of_nat (be (if little_endian then rev bs else bs))"

definition get_ieee754_float :: "bool \<Rightarrow> bytes \<Rightarrow> ptr \<Rightarrow> u32 option" where
  "get_ieee754_float little_endian m p = do {
     bs \<leftarrow> rd_block m p 4;
     let i = host_load little_endian bs;
     Some (if little_endian then mmdb_bswap32 i else i) }"

definition get_ieee754_double :: "bool \<Rightarrow> bytes \<Rightarrow> ptr \<Rightarrow> u64 option" where
  "get_ieee754_double little_endian m p = do {
     bs \<leftarrow> rd_block m p 8;
     let i = host_load little_endian bs;
     Some (if little_endian then mmdb_bswap64 i else i) }"

text \<open>Byte strings as words are read bit by bit: bit \<open>n\<close> lies in byte \<open>n div 8\<close> from the end.\<close>

lemma bit_be: "bit (be bs) n \<longleftrightarrow> n div 8 < length bs \<and> bit (rev bs ! (n div 8)) (n mod 8)"
proof (induction bs arbitrary: n rule: rev_induct)
  case (snoc b bs)
  have v: "be (bs @ [b]) = push_bit 8 (be bs) OR unat b"
  proof -
    have "push_bit 8 (be bs) + unat b = push_bit 8 (be bs) OR unat b"
      by (rule disjunctive_add_eq_or, rule bit_eqI)
        (auto simp: bit_simps dest: bit_imp_le_length)
    then show ?thesis by (simp add: be_snoc push_bit_eq_mult)
  qed
  show ?case
  proof (cases "n < 8")
    case True
    then show ?thesis by (simp add: v bit_simps)
  next
    case False
    then have "bit (be (bs @ [b])) n = bit (be bs) (n - 8)"
      by (auto simp: v bit_simps dest: bit_imp_le_length)
    moreover have "n div 8 = Suc ((n - 8) div 8)" and "n mod 8 = (n - 8) mod 8"
      using False by (simp_all add: le_div_geq le_mod_geq)
    ultimately show ?thesis by (simp add: snoc.IH)
  qed
qed simp

lemma bswap32_bits:
  "list_all (\<lambda>n. bit (mmdb_bswap32 (word_of_nat (be [d, c, b, a]))) n =
     bit (word_of_nat (be [a, b, c, d]) :: u32) n) [0..<32]"
  by (simp add: mmdb_bswap32_def bit_simps bit_be upt_rec flip: numeral_2_eq_2)

lemma bswap64_bits:
  "list_all (\<lambda>n. bit (mmdb_bswap64 (word_of_nat (be [h, g, f, e, d, c, b, a]))) n =
     bit (word_of_nat (be [a, b, c, d, e, f, g, h]) :: u64) n) [0..<64]"
  by (simp add: mmdb_bswap64_def bit_simps bit_be upt_rec flip: numeral_2_eq_2)

lemma mmdb_bswap32_be:
  assumes "length bs = 4"
  shows "mmdb_bswap32 (word_of_nat (be (rev bs))) = word_of_nat (be bs)"
proof (rule bit_word_eqI)
  fix n assume "n < LENGTH(32)"
  then have n: "n \<in> set [0..<32]" by simp
  obtain a b c d where "bs = [a, b, c, d]"
    using assms by (auto simp: length_4_conv)
  with n show "bit (mmdb_bswap32 (word_of_nat (be (rev bs)))) n = bit (word_of_nat (be bs) :: u32) n"
    using bswap32_bits [of d c b a] by (simp only: list_all_iff rev.simps append.simps)
qed

lemma mmdb_bswap64_be:
  assumes "length bs = 8"
  shows "mmdb_bswap64 (word_of_nat (be (rev bs))) = word_of_nat (be bs)"
proof (rule bit_word_eqI)
  fix n assume "n < LENGTH(64)"
  then have n: "n \<in> set [0..<64]" by simp
  obtain a b c d e f g h where "bs = [a, b, c, d, e, f, g, h]"
    using assms by (auto simp: eval_nat_numeral length_Suc_conv)
  with n show "bit (mmdb_bswap64 (word_of_nat (be (rev bs)))) n = bit (word_of_nat (be bs) :: u64) n"
    using bswap64_bits [of h g f e d c b a] by (simp only: list_all_iff rev.simps append.simps)
qed

text \<open>The loads do not depend on the byte order of the host.\<close>

lemma ieee754_host_independent:
  "get_ieee754_float little_endian m p = map_option (\<lambda>bs. word_of_nat (be bs)) (rd_block m p 4)"
  "get_ieee754_double little_endian m p = map_option (\<lambda>bs. word_of_nat (be bs)) (rd_block m p 8)"
proof -
  have len: "length bs = n" if "rd_block m p n = Some bs" for bs n
    using that by (auto simp: rd_block_eq_Some_iff)
  show "get_ieee754_float little_endian m p = map_option (\<lambda>bs. word_of_nat (be bs)) (rd_block m p 4)"
    using len [of 4] by (cases "rd_block m p 4") (simp_all add: get_ieee754_float_def host_load_def mmdb_bswap32_be)
  show "get_ieee754_double little_endian m p = map_option (\<lambda>bs. word_of_nat (be bs)) (rd_block m p 8)"
    using len [of 8] by (cases "rd_block m p 8") (simp_all add: get_ieee754_double_def host_load_def mmdb_bswap64_be)
qed

lemma get_ieee754_float_be:
  "bytes_at m p bs \<Longrightarrow> length bs = 4 \<Longrightarrow>
     get_ieee754_float little_endian m p = Some (word_of_nat (be bs))"
  using rd_block_bytes_at [of m p bs 4] by (simp add: ieee754_host_independent)

lemma get_ieee754_double_be:
  "bytes_at m p bs \<Longrightarrow> length bs = 8 \<Longrightarrow>
     get_ieee754_double little_endian m p = Some (word_of_nat (be bs))"
  using rd_block_bytes_at [of m p bs 8] by (simp add: ieee754_host_independent)

end
