(* ===== verification/Search_Tree.thy ===== *)
theory Search_Tree
  imports Byte_Readers
begin

text \<open>
  The search tree of \<open>src/maxminddb.c\<close>: \<open>record_info_for_database\<close>, \<open>record_type\<close>,
  \<open>data_section_offset_for_record\<close>, \<open>find_address_in_search_tree\<close>, \<open>find_ipv4_start_node\<close>,
  \<open>MMDB_read_node\<close>, \<open>MMDB_lookup_sockaddr\<close> and \<open>MMDB_lookup_string\<close>. The tree is read from
  the mapping through the record getters; node numbers, bit counts and records keep the
  widths they have in the code.
\<close>

section \<open>Records of a node\<close>

text \<open>The getters are function pointers; they stay unset for an unknown record size.\<close>

record record_info_s =
  record_length :: u16
  left_record_getter :: "bytes \<Rightarrow> ptr \<Rightarrow> u32 option"
  right_record_getter :: "bytes \<Rightarrow> ptr \<Rightarrow> u32 option"
  right_record_offset :: u8

definition record_info_for_database :: "MMDB_s \<Rightarrow> record_info_s" where
  "record_info_for_database db =
    (let info = \<lparr>record_length = full_record_byte_size db, left_record_getter = (\<lambda>_ _. None),
                 right_record_getter = (\<lambda>_ _. None), right_record_offset = 0\<rparr>
     in if record_length info = 6 then
          info\<lparr>left_record_getter := get_uint24, right_record_getter := get_uint24,
               right_record_offset := 3\<rparr>
        else if record_length info = 7 then
          info\<lparr>left_record_getter := get_left_28_bit_record,
               right_record_getter := get_right_28_bit_record, right_record_offset := 3\<rparr>
        else if record_length info = 8 then
          info\<lparr>left_record_getter := get_uint32, right_record_getter := get_uint32,
               right_record_offset := 4\<rparr>
        else info)"

definition record_type :: "MMDB_s \<Rightarrow> u64 \<Rightarrow> u8" where
  "record_type db record0 =
    (let nodes = ucast (node_count (db_metadata db)) :: u64 in
     if record0 = 0 then MMDB_RECORD_TYPE_INVALID
     else if record0 < nodes then MMDB_RECORD_TYPE_SEARCH_NODE
     else if record0 = nodes then MMDB_RECORD_TYPE_EMPTY
     else
       let data_offset = record0 - nodes in
       if data_offset < ucast MMDB_DATA_SECTION_SEPARATOR then MMDB_RECORD_TYPE_INVALID
       else if data_offset - ucast MMDB_DATA_SECTION_SEPARATOR < ucast (data_section_size db)
       then MMDB_RECORD_TYPE_DATA
       else MMDB_RECORD_TYPE_INVALID)"

definition data_section_offset_for_record :: "MMDB_s \<Rightarrow> u64 \<Rightarrow> u32" where
  "data_section_offset_for_record db record0 =
     ucast record0 - node_count (db_metadata db) - MMDB_DATA_SECTION_SEPARATOR"

text \<open>\<open>&search_tree[node * record_info.record_length]\<close>, the product taken in 64 bits.\<close>

definition node_pointer :: "MMDB_s \<Rightarrow> record_info_s \<Rightarrow> u64 \<Rightarrow> ptr option" where
  "node_pointer db info node =
     map_option (\<lambda>p. p + unat (node * ucast (record_length info))) (file_content db)"

text \<open>\<open>record_pointer + record_info.record_length > mmdb->data_section\<close>\<close>

definition past_search_tree :: "MMDB_s \<Rightarrow> record_info_s \<Rightarrow> ptr \<Rightarrow> bool option" where
  "past_search_tree db info p =
     map_option (\<lambda>d. p + unat (record_length info) > d) (data_section db)"

section \<open>find_address_in_search_tree\<close>

text \<open>The address families of the platform.\<close>

abbreviation (input) AF_INET :: nat where "AF_INET \<equiv> 2"
abbreviation (input) AF_INET6 :: nat where "AF_INET6 \<equiv> 10"

text \<open>\<open>1U & (address[current_bit >> 3] >> (7 - (current_bit % 8)))\<close>\<close>

definition address_bit :: "bytes \<Rightarrow> u16 \<Rightarrow> u8 option" where
  "address_bit address current_bit = do {
     b \<leftarrow> rd address (unat (drop_bit 3 current_bit));
     Some (1 AND drop_bit (7 - unat (current_bit mod 8)) b) }"

text \<open>The loop over the bits of the address.\<close>

function search_tree_from ::
  "MMDB_s \<Rightarrow> record_info_s \<Rightarrow> bytes \<Rightarrow> u64 \<Rightarrow> u16 \<Rightarrow> (u64 \<times> u16) run" where
  "search_tree_from db info address val current_bit =
    (if current_bit < db_depth db \<and> val < ucast (node_count (db_metadata db)) then do {
       b \<leftarrow> address_bit address current_bit;
       p \<leftarrow> node_pointer db info val;
       past \<leftarrow> past_search_tree db info p;
       if past then Some (MMDB_CORRUPT_SEARCH_TREE_ERROR, (val, current_bit))
       else do {
         r \<leftarrow> (if b \<noteq> 0
               then right_record_getter info (mapping db) (p + unat (right_record_offset info))
               else left_record_getter info (mapping db) p);
         search_tree_from db info address (ucast r) (current_bit + 1) } }
     else Some (MMDB_SUCCESS, (val, current_bit)))"
  by pat_completeness auto
termination
proof (relation "measure (\<lambda>(db, info, address, val, current_bit). unat (db_depth db) - unat current_bit)",
    goal_cases)
  case (2 db info address val current_bit)
  then have "unat current_bit < unat (db_depth db)" by (simp add: word_less_nat_alt)
  then show ?case
    using unat_plus_le [of current_bit 1 "db_depth db"] by simp
qed simp

declare search_tree_from.simps [simp del]

definition find_address_in_search_tree ::
  "MMDB_s \<Rightarrow> bytes \<Rightarrow> nat \<Rightarrow> MMDB_lookup_result_s \<Rightarrow> MMDB_lookup_result_s run" where
  "find_address_in_search_tree db address address_family result =
    (let info = record_info_for_database db in
     if right_record_offset info = 0 then Some (MMDB_UNKNOWN_DATABASE_FORMAT_ERROR, result)
     else
       let (val, current_bit) =
         (if ip_version (db_metadata db) = 6 \<and> address_family = AF_INET
          then (ucast (node_value (ipv4_start_node db)), start_netmask (ipv4_start_node db))
          else (0, 0))
       in chk_with (\<lambda>_. result) (search_tree_from db info address val current_bit)
            (\<lambda>(val, current_bit).
              let result = result\<lparr>netmask := current_bit\<rparr>;
                  type = record_type db val
              in if type = MMDB_RECORD_TYPE_INVALID then Some (MMDB_CORRUPT_SEARCH_TREE_ERROR, result)
                 else if type = MMDB_RECORD_TYPE_EMPTY then
                   Some (MMDB_SUCCESS, result\<lparr>found_entry := False\<rparr>)
                 else
                   Some (MMDB_SUCCESS, result\<lparr>found_entry := True,
                     result_entry := (result_entry result)\<lparr>
                       entry_offset := data_section_offset_for_record db val\<rparr>\<rparr>)))"

section \<open>find_ipv4_start_node\<close>

text \<open>The loop along the left records, for 96 zero bits.\<close>

function ipv4_start_from :: "MMDB_s \<Rightarrow> record_info_s \<Rightarrow> u32 \<Rightarrow> u16 \<Rightarrow> (u32 \<times> u16) run" where
  "ipv4_start_from db info node bits =
    (if bits < 96 \<and> node < node_count (db_metadata db) then do {
       p \<leftarrow> node_pointer db info (ucast node);
       past \<leftarrow> past_search_tree db info p;
       if past then Some (MMDB_CORRUPT_SEARCH_TREE_ERROR, (node, bits))
       else do {
         r \<leftarrow> left_record_getter info (mapping db) p;
         ipv4_start_from db info r (bits + 1) } }
     else Some (MMDB_SUCCESS, (node, bits)))"
  by pat_completeness auto
termination
proof (relation "measure (\<lambda>(db, info, node, bits). 96 - unat bits)", goal_cases)
  case (2 db info node bits)
  then have "unat bits < 96" by (simp add: word_less_nat_alt)
  then show ?case
    using unat_plus_le [of bits 1 96] by simp
qed simp

declare ipv4_start_from.simps [simp del]

definition find_ipv4_start_node :: "MMDB_s \<Rightarrow> MMDB_s run" where
  "find_ipv4_start_node db =
    (if node_value (ipv4_start_node db) \<noteq> 0 then Some (MMDB_SUCCESS, db)
     else
       let info = record_info_for_database db in
       if right_record_offset info = 0 then Some (MMDB_UNKNOWN_DATABASE_FORMAT_ERROR, db)
       else
         chk_with (\<lambda>_. db) (ipv4_start_from db info 0 0) (\<lambda>(node, bits).
           Some (MMDB_SUCCESS,
             db\<lparr>ipv4_start_node := \<lparr>start_netmask = bits, node_value = node\<rparr>\<rparr>)))"

section \<open>MMDB_read_node\<close>

definition MMDB_read_node :: "MMDB_s \<Rightarrow> u32 \<Rightarrow> MMDB_search_node_s \<Rightarrow> MMDB_search_node_s run" where
  "MMDB_read_node db node_number node =
    (let info = record_info_for_database db in
     if right_record_offset info = 0 then Some (MMDB_UNKNOWN_DATABASE_FORMAT_ERROR, node)
     else if node_number \<ge> node_count (db_metadata db) then Some (MMDB_INVALID_NODE_NUMBER_ERROR, node)
     else do {
       p \<leftarrow> node_pointer db info (ucast node_number);
       past \<leftarrow> past_search_tree db info p;
       if past then Some (MMDB_CORRUPT_SEARCH_TREE_ERROR, node)
       else do {
         l \<leftarrow> left_record_getter info (mapping db) p;
         r \<leftarrow> right_record_getter info (mapping db) (p + unat (right_record_offset info));
         let node = node\<lparr>left_record := ucast l, right_record := ucast r\<rparr>;
         let node = node\<lparr>left_record_type := record_type db (left_record node),
                         right_record_type := record_type db (right_record node)\<rparr>;
         if left_record_type node = MMDB_RECORD_TYPE_INVALID
            \<or> right_record_type node = MMDB_RECORD_TYPE_INVALID
         then Some (MMDB_CORRUPT_SEARCH_TREE_ERROR, node)
         else Some (MMDB_SUCCESS,
           node\<lparr>left_record_entry :=
                   \<lparr>entry_mmdb = db, entry_offset = data_section_offset_for_record db (left_record node)\<rparr>,
                right_record_entry :=
                   \<lparr>entry_mmdb = db, entry_offset = data_section_offset_for_record db (right_record node)\<rparr>\<rparr>) } })"

section \<open>MMDB_lookup_sockaddr and MMDB_lookup_string\<close>

text \<open>
  A socket address is what \<open>sa_family\<close> says it is: an IPv4 or an IPv6 address in network
  byte order, or a family that the library does not know.
\<close>

datatype sockaddr = Sockaddr_in bytes | Sockaddr_in6 bytes | Sockaddr_other nat

fun sa_family :: "sockaddr \<Rightarrow> nat" where
  "sa_family (Sockaddr_in a) = AF_INET"
| "sa_family (Sockaddr_in6 a) = AF_INET6"
| "sa_family (Sockaddr_other f) = f"

fun sin_addr :: "sockaddr \<Rightarrow> bytes option" where
  "sin_addr (Sockaddr_in a) = Some a" | "sin_addr _ = None"

fun sin6_addr :: "sockaddr \<Rightarrow> bytes option" where
  "sin6_addr (Sockaddr_in6 a) = Some a" | "sin6_addr _ = None"

definition no_result :: "MMDB_s \<Rightarrow> MMDB_lookup_result_s" where
  "no_result db = \<lparr>found_entry = False, result_entry = \<lparr>entry_mmdb = db, entry_offset = 0\<rparr>, netmask = 0\<rparr>"

definition MMDB_lookup_sockaddr :: "MMDB_s \<Rightarrow> sockaddr \<Rightarrow> MMDB_lookup_result_s run" where
  "MMDB_lookup_sockaddr db sa =
    (let result = no_result db in
     if ip_version (db_metadata db) = 4 then
       if sa_family sa = AF_INET6 then Some (MMDB_IPV6_LOOKUP_IN_IPV4_DATABASE_ERROR, result)
       else if sa_family sa \<noteq> AF_INET then Some (MMDB_INVALID_NETWORK_ADDRESS_ERROR, result)
       else do {
         address \<leftarrow> sin_addr sa;
         find_address_in_search_tree db address (sa_family sa) result }
     else if sa_family sa = AF_INET6 then do {
       address \<leftarrow> sin6_addr sa;
       find_address_in_search_tree db address (sa_family sa) result }
     else if sa_family sa = AF_INET then do {
       v4 \<leftarrow> sin_addr sa;
       v4_bytes \<leftarrow> rd_block v4 0 4;
       let mapped_address = replicate 12 0 @ v4_bytes;
       find_address_in_search_tree db mapped_address (sa_family sa) result }
     else Some (MMDB_INVALID_NETWORK_ADDRESS_ERROR, result))"

text \<open>
  \<open>getaddrinfo\<close> is a parameter: for a numeric host string it gives its status and the first
  address of its result list, if any.
\<close>

definition resolve_any_address ::
  "(bytes \<Rightarrow> int \<times> sockaddr option) \<Rightarrow> bytes \<Rightarrow> int \<times> sockaddr option" where
  "resolve_any_address getaddrinfo ipstr =
    (let (gai_status, addresses) = getaddrinfo ipstr
     in if gai_status \<noteq> 0 then (gai_status, addresses) else (0, addresses))"

text \<open>The result is \<open>gai_error\<close>, \<open>mmdb_error\<close> and the lookup result.\<close>

definition MMDB_lookup_string ::
  "(bytes \<Rightarrow> int \<times> sockaddr option) \<Rightarrow> MMDB_s \<Rightarrow> bytes \<Rightarrow>
     (int \<times> mmdb_status \<times> MMDB_lookup_result_s) option" where
  "MMDB_lookup_string getaddrinfo db ipstr =
    (let (gai_error, addresses) = resolve_any_address getaddrinfo ipstr in
     if gai_error = 0 then do {
       ai_addr \<leftarrow> addresses;
       (mmdb_error, result) \<leftarrow> MMDB_lookup_sockaddr db ai_addr;
       Some (gai_error, mmdb_error, result) }
     else Some (gai_error, MMDB_SUCCESS, no_result db))"

section \<open>The tree on paper\<close>

text \<open>
  The abstract search tree is the list of its nodes, each a pair of records. A walk reads one
  record per bit, until the bits are used up or the value is no node any more; its result is
  the value and the number of bits consumed.
\<close>

fun walk :: "(nat \<Rightarrow> bool \<Rightarrow> nat option) \<Rightarrow> nat \<Rightarrow> bool list \<Rightarrow> nat \<times> nat" where
  "walk step v [] = (v, 0)"
| "walk step v (b # bs) =
    (case step v b of None \<Rightarrow> (v, 0) | Some w \<Rightarrow> apsnd Suc (walk step w bs))"

definition node_step :: "(nat \<times> nat) list \<Rightarrow> nat \<Rightarrow> bool \<Rightarrow> nat option" where
  "node_step ns v b = (if v < length ns then Some (if b then snd (ns ! v) else fst (ns ! v)) else None)"

text \<open>The contract of a tree that is walked by bits: exactly the numbers below \<open>nodes\<close> have records.\<close>

locale radix_tree =
  fixes step :: "nat \<Rightarrow> bool \<Rightarrow> nat option"
    and nodes :: nat
    and limit :: nat
  assumes step_None: "step v b = None \<longleftrightarrow> nodes \<le> v"
    and step_limit: "step v b = Some w \<Longrightarrow> w < limit"
begin

lemma walk_bits: "snd (walk step v bs) \<le> length bs"
  by (induction bs arbitrary: v) (auto split: option.split)

lemma walk_leaf: "snd (walk step v bs) < length bs \<Longrightarrow> nodes \<le> fst (walk step v bs)"
proof (induction bs arbitrary: v)
  case (Cons b bs)
  show ?case
  proof (cases "step v b")
    case None
    then have "nodes \<le> v" by (simp only: step_None)
    with None show ?thesis by simp
  qed (use Cons in simp)
qed simp

lemma walk_stop: "nodes \<le> v \<Longrightarrow> walk step v bs = (v, 0)"
  using step_None [of v] by (cases bs) auto

lemma walk_limit: "v < m \<Longrightarrow> limit \<le> m \<Longrightarrow> fst (walk step v bs) < m"
  by (induction bs arbitrary: v) (auto dest: step_limit split: option.splits)

text \<open>A walk along \<open>xs\<close> can be interrupted and resumed.\<close>

lemma walk_append:
  "walk step v (xs @ ys) = apsnd ((+) (snd (walk step v xs))) (walk step (fst (walk step v xs)) ys)"
proof (induction xs arbitrary: v)
  case (Cons x xs)
  show ?case
  proof (cases "step v x")
    case None
    then have "walk step v ys = (v, 0)" using walk_stop step_None by blast
    then show ?thesis using None by simp
  next
    case (Some w)
    then show ?thesis using Cons.IH [of w] by (simp add: apsnd_compose o_def)
  qed
qed (simp add: apsnd_def map_prod_def split_beta)

text \<open>The consumed bits decide the result.\<close>

lemma walk_prefix:
  assumes "length bs = length bs'" and "take (snd (walk step v bs)) bs = take (snd (walk step v bs)) bs'"
  shows "walk step v bs' = walk step v bs"
  using assms
proof (induction bs bs' arbitrary: v rule: list_induct2)
  case (Cons b bs b' bs')
  show ?case
  proof (cases "step v b")
    case None
    then have "nodes \<le> v" by (simp only: step_None)
    then show ?thesis by (simp only: walk_stop)
  qed (use Cons in auto)
qed simp

end

text \<open>A list of nodes is such a tree.\<close>

definition records_below :: "nat \<Rightarrow> (nat \<times> nat) list \<Rightarrow> bool" where
  "records_below m ns \<longleftrightarrow> (\<forall>(l, r) \<in> set ns. l < m \<and> r < m)"

definition record_limit :: "(nat \<times> nat) list \<Rightarrow> nat" where
  "record_limit ns = Suc (Max (insert 0 (set (map fst ns @ map snd ns))))"

lemma record_limit_le: "records_below m ns \<Longrightarrow> 0 < m \<Longrightarrow> record_limit ns \<le> m"
  by (auto simp: record_limit_def records_below_def Suc_le_eq)

interpretation nt: radix_tree "node_step ns" "length ns" "record_limit ns" for ns
proof (unfold_locales, goal_cases)
  case (1 v b)
  then show ?case by (simp add: node_step_def)
next
  case (2 v b w)
  then have "w \<in> set (map fst ns @ map snd ns)" by (auto simp: node_step_def split: if_splits)
  then show ?case by (simp add: record_limit_def less_Suc_eq_le)
qed

section \<open>Encoding of nodes\<close>

text \<open>The two records of a node of \<open>sz\<close> bytes; for 28 bits they share the middle byte.\<close>

definition encode_node :: "nat \<Rightarrow> nat \<times> nat \<Rightarrow> bytes" where
  "encode_node sz n =
    (let (l, r) = n in
     if sz = 6 then be_bytes 3 l @ be_bytes 3 r
     else if sz = 7 then
       be_bytes 3 (l mod 2 ^ 24) @ [word_of_nat (16 * (l div 2 ^ 24) + r div 2 ^ 24)] @
       be_bytes 3 (r mod 2 ^ 24)
     else be_bytes 4 l @ be_bytes 4 r)"

lemma length_encode_node: "sz \<in> {6, 7, 8} \<Longrightarrow> length (encode_node sz n) = sz"
  by (auto simp: encode_node_def split: prod.split)

text \<open>The nodes \<open>ns\<close> are what the search tree of the file contains.\<close>

definition stored_tree :: "MMDB_s \<Rightarrow> (nat \<times> nat) list \<Rightarrow> bool" where
  "stored_tree db ns \<longleftrightarrow>
    (let sz = unat (full_record_byte_size db) in
     sz \<in> {6, 7, 8} \<and> unat (node_count (db_metadata db)) = length ns \<and> records_below (2 ^ (4 * sz)) ns \<and>
     (\<exists>f d. file_content db = Some f \<and> data_section db = Some d \<and> f + length ns * sz \<le> d \<and>
        bytes_at (mapping db) f (concat (map (encode_node sz) ns))))"

lemma bytes_at_concat:
  assumes "bytes_at m f (concat (map enc ns))" and "\<forall>n. length (enc n) = sz" and "i < length ns"
  shows "bytes_at m (f + i * sz) (enc (ns ! i))"
proof -
  have split: "ns = take i ns @ ns ! i # drop (Suc i) ns" using assms(3) by (rule id_take_nth_drop)
  have "length (concat (map enc xs)) = length xs * sz" for xs
    using assms(2) by (induction xs) auto
  then have "length (concat (map enc (take i ns))) = i * sz" using assms(3) by simp
  moreover have "concat (map enc ns) =
      concat (map enc (take i ns)) @ enc (ns ! i) @ concat (map enc (drop (Suc i) ns))"
    by (subst split) simp
  ultimately show ?thesis using assms(1) by (simp add: bytes_at_append)
qed

lemma be_bytes_cases_28:
  assumes "l < 2 ^ 28" and "r < 2 ^ 28"
  shows "unat (word_of_nat (16 * (l div 2 ^ 24) + r div 2 ^ 24) :: u8) = 16 * (l div 2 ^ 24) + r div 2 ^ 24"
proof -
  have "l div 2 ^ 24 < 16" "r div 2 ^ 24 < 16"
    using assms by (simp_all add: div_less_iff_less_mult)
  then show ?thesis by (simp del: of_nat_add of_nat_mult)
qed

text \<open>The getters invert the encoding.\<close>

lemma getters_encode_node:
  assumes at: "bytes_at m p (encode_node sz (l, r))" and sz: "sz \<in> {6, 7, 8}"
    and info: "unat (full_record_byte_size db) = sz"
    and lr: "l < 2 ^ (4 * sz)" "r < 2 ^ (4 * sz)"
  shows "left_record_getter (record_info_for_database db) m p = Some (word_of_nat l)"
    and "right_record_getter (record_info_for_database db) m
           (p + unat (right_record_offset (record_info_for_database db))) = Some (word_of_nat r)"
proof -
  let ?info = "record_info_for_database db"
  have len: "full_record_byte_size db = word_of_nat sz" using info by auto
  consider "sz = 6" | "sz = 7" | "sz = 8" using sz by auto
  then have "left_record_getter ?info m p = Some (word_of_nat l) \<and>
    right_record_getter ?info m (p + unat (right_record_offset ?info)) = Some (word_of_nat r)"
  proof cases
    case 1
    then have "bytes_at m p (be_bytes 3 l)" "bytes_at m (p + 3) (be_bytes 3 r)"
      using at by (simp_all add: encode_node_def bytes_at_append)
    then show ?thesis
      using get_uint24_be [of m p "be_bytes 3 l"] get_uint24_be [of m "p + 3" "be_bytes 3 r"] lr 1
      by (simp add: record_info_for_database_def len be_be_bytes)
  next
    case 2
    let ?mid = "word_of_nat (16 * (l div 2 ^ 24) + r div 2 ^ 24) :: u8"
    have hi: "l div 2 ^ 24 < 16" "r div 2 ^ 24 < 16"
      using lr 2 by (simp_all add: div_less_iff_less_mult)
    have mid: "unat ?mid = 16 * (l div 2 ^ 24) + r div 2 ^ 24"
      using lr 2 by (intro be_bytes_cases_28) simp_all
    obtain a b c where abc: "be_bytes 3 (l mod 2 ^ 24) = [a, b, c]"
      using length_3_conv [of "be_bytes 3 (l mod 2 ^ 24)"] by auto
    obtain x y z where xyz: "be_bytes 3 (r mod 2 ^ 24) = [x, y, z]"
      using length_3_conv [of "be_bytes 3 (r mod 2 ^ 24)"] by auto
    have "bytes_at m p [a, b, c, ?mid]" "bytes_at m (p + 3) [?mid, x, y, z]"
      using at 2 abc xyz by (simp_all add: encode_node_def bytes_at_Cons numeral_3_eq_3)
    moreover have "be [a, b, c] = l mod 2 ^ 24" "be [x, y, z] = r mod 2 ^ 24"
      unfolding abc [symmetric] xyz [symmetric] by (simp_all add: be_be_bytes)
    moreover have "unat ?mid div 16 = l div 2 ^ 24" "unat ?mid mod 16 = r div 2 ^ 24"
      unfolding mid using hi by simp_all
    ultimately show ?thesis
      using get_left_28_bit_record_eq [of m p a b c ?mid] get_right_28_bit_record_eq [of m "p + 3" ?mid x y z]
        div_mult_mod_eq [of l "2 ^ 24"] div_mult_mod_eq [of r "2 ^ 24"] 2
      by (simp only: record_info_for_database_def len Let_def) simp
  next
    case 3
    then have "bytes_at m p (be_bytes 4 l)" "bytes_at m (p + 4) (be_bytes 4 r)"
      using at by (simp_all add: encode_node_def bytes_at_append)
    then show ?thesis
      using get_uint32_be [of m p "be_bytes 4 l"] get_uint32_be [of m "p + 4" "be_bytes 4 r"] lr 3
      by (simp add: record_info_for_database_def len be_be_bytes)
  qed
  then show "left_record_getter ?info m p = Some (word_of_nat l)"
    "right_record_getter ?info m (p + unat (right_record_offset ?info)) = Some (word_of_nat r)" by auto
qed

section \<open>The search refines the walk\<close>

text \<open>The bits of an address, the highest bit of its first byte first.\<close>

definition address_bits :: "bytes \<Rightarrow> bool list" where
  "address_bits address = map (\<lambda>i. bit (address ! (i div 8)) (7 - i mod 8)) [0..<8 * length address]"

lemma length_address_bits [simp]: "length (address_bits a) = 8 * length a"
  by (simp add: address_bits_def)

lemma address_bit_eq:
  assumes "i < 8 * length a" and "i < 65536"
  shows "\<exists>b. address_bit a (word_of_nat i) = Some b \<and> (b \<noteq> 0) = address_bits a ! i"
proof -
  have u: "unat (word_of_nat i :: u16) = i" using assms(2) by (simp add: unat_of_nat)
  have "unat (drop_bit 3 (word_of_nat i) :: u16) = i div 8"
    by (simp only: drop_bit_eq_div unat_div u) simp
  moreover have "unat (word_of_nat i mod 8 :: u16) = i mod 8"
    by (simp only: unat_mod u) simp
  moreover have "i div 8 < length a" using assms(1) by (simp add: div_less_iff_less_mult)
  moreover have "(1 AND drop_bit k x \<noteq> 0) = bit x k" for x :: u8 and k
    by (simp add: and.commute [of 1] and_one_eq odd_iff_mod_2_eq_one [symmetric] bit_iff_odd_drop_bit)
  ultimately show ?thesis using assms(1) by (simp add: address_bit_def address_bits_def)
qed

text \<open>One step of the search at a node of a stored tree.\<close>

lemma stored_tree_node:
  assumes tree: "stored_tree db ns" and v: "v < length ns"
  obtains p where "node_pointer db (record_info_for_database db) (word_of_nat v) = Some p"
    and "past_search_tree db (record_info_for_database db) p = Some False"
    and "left_record_getter (record_info_for_database db) (mapping db) p = Some (word_of_nat (fst (ns ! v)))"
    and "right_record_getter (record_info_for_database db) (mapping db)
           (p + unat (right_record_offset (record_info_for_database db))) = Some (word_of_nat (snd (ns ! v)))"
proof -
  let ?info = "record_info_for_database db"
  obtain sz f d where sz: "unat (full_record_byte_size db) = sz" "sz \<in> {6, 7, 8}"
    and count: "unat (node_count (db_metadata db)) = length ns" and below: "records_below (2 ^ (4 * sz)) ns"
    and f: "file_content db = Some f" and d: "data_section db = Some d" "f + length ns * sz \<le> d"
    and at: "bytes_at (mapping db) f (concat (map (encode_node sz) ns))"
    using tree by (auto simp: stored_tree_def Let_def)
  obtain l r where lr: "ns ! v = (l, r)" by fastforce
  have "ns ! v \<in> set ns" using v by simp
  then have bounds: "l < 2 ^ (4 * sz)" "r < 2 ^ (4 * sz)" using below by (auto simp: records_below_def lr)
  have rl: "record_length ?info = full_record_byte_size db" by (simp add: record_info_for_database_def Let_def)
  have "unat (node_count (db_metadata db)) < 2 ^ 32"
    using unsigned_less [of "node_count (db_metadata db)"] by simp
  then have lenns: "length ns < 2 ^ 32" using count by simp
  have "unat (word_of_nat v :: u64) = v" using v lenns by (simp add: unat_of_nat)
  moreover have "unat (ucast (full_record_byte_size db) :: u64) = sz" by (simp add: unat_ucast_up sz(1))
  moreover have "v * sz < 2 ^ 64"
  proof -
    have "v * sz \<le> 2 ^ 32 * 8" using v lenns sz(2) by (intro mult_le_mono) auto
    then show ?thesis by simp
  qed
  ultimately have "unat (word_of_nat v * ucast (full_record_byte_size db) :: u64) = v * sz"
    by (simp add: unat_word_ariths)
  then have ptr: "node_pointer db ?info (word_of_nat v) = Some (f + v * sz)"
    by (simp add: node_pointer_def f rl)
  have "v * sz + sz \<le> length ns * sz" using v mult_le_mono1 [of "Suc v" "length ns" sz] by simp
  then have past: "past_search_tree db ?info (f + v * sz) = Some False"
    using d by (simp add: past_search_tree_def rl sz(1))
  have node: "bytes_at (mapping db) (f + v * sz) (encode_node sz (l, r))"
    using bytes_at_concat [OF at _ v] sz(2) length_encode_node by (simp add: lr)
  show ?thesis
    using that [OF ptr past] getters_encode_node [OF node sz(2) sz(1) bounds] by (simp add: lr)
qed

lemma stored_tree_limit:
  assumes "stored_tree db ns" shows "record_limit ns \<le> 2 ^ 32"
proof -
  let ?sz = "unat (full_record_byte_size db)"
  have "record_limit ns \<le> 2 ^ (4 * ?sz)" and "?sz \<le> 8"
    using assms by (auto simp: stored_tree_def Let_def intro: record_limit_le)
  moreover from \<open>?sz \<le> 8\<close> have "(2 :: nat) ^ (4 * ?sz) \<le> 2 ^ 32" by (intro power_increasing) auto
  ultimately show ?thesis by linarith
qed

lemma less_node_count:
  assumes "stored_tree db ns" and "v < 2 ^ 32"
  shows "(word_of_nat v :: u64) < ucast (node_count (db_metadata db)) \<longleftrightarrow> v < length ns"
    and "(word_of_nat v :: u32) < node_count (db_metadata db) \<longleftrightarrow> v < length ns"
  using assms by (simp_all add: word_less_nat_alt unat_ucast_up unat_of_nat stored_tree_def Let_def)

lemma ucast_u32_u64: "v < 2 ^ 32 \<Longrightarrow> (ucast (word_of_nat v :: u32) :: u64) = word_of_nat v"
  by (simp add: word_unat_eq_iff unat_ucast_up unat_of_nat)

lemma search_tree_from_walk:
  assumes tree: "stored_tree db ns" and depth: "unat (db_depth db) = length bits" "length bits < 65536"
    and bits: "\<And>i. i < length bits \<Longrightarrow>
      \<exists>b. address_bit address (word_of_nat i) = Some b \<and> (b \<noteq> 0) = bits ! i"
    and i: "i \<le> length bits" and v: "v < 2 ^ 32"
  shows "search_tree_from db (record_info_for_database db) address (word_of_nat v) (word_of_nat i) =
    (case walk (node_step ns) v (drop i bits) of
       (w, k) \<Rightarrow> Some (MMDB_SUCCESS, (word_of_nat w, word_of_nat (i + k))))"
  using i v
proof (induction "length bits - i" arbitrary: i v)
  case 0
  then have "i = length bits" by simp
  moreover have "\<not> (word_of_nat (length bits) :: u16) < db_depth db"
    using depth by (simp add: word_less_nat_alt unat_of_nat)
  ultimately show ?case by (simp add: search_tree_from.simps)
next
  case (Suc n)
  let ?info = "record_info_for_database db"
  have i: "i < length bits" using Suc(2) by simp
  have inside: "(word_of_nat i :: u16) < db_depth db"
    using i depth by (simp add: word_less_nat_alt unat_of_nat)
  note count = less_node_count(1) [OF tree Suc.prems(2)]
  show ?case
  proof (cases "v < length ns")
    case False
    then show ?thesis
      using count nt.walk_stop [of ns v "drop i bits"] by (simp add: search_tree_from.simps [of db])
  next
    case True
    obtain p where p: "node_pointer db ?info (word_of_nat v) = Some p"
      "past_search_tree db ?info p = Some False"
      "left_record_getter ?info (mapping db) p = Some (word_of_nat (fst (ns ! v)))"
      "right_record_getter ?info (mapping db) (p + unat (right_record_offset ?info)) =
        Some (word_of_nat (snd (ns ! v)))"
      using stored_tree_node [OF tree True] .
    obtain b where b: "address_bit address (word_of_nat i) = Some b" "(b \<noteq> 0) = bits ! i"
      using bits [OF i] by blast
    let ?w = "if bits ! i then snd (ns ! v) else fst (ns ! v)"
    have step: "node_step ns v (bits ! i) = Some ?w" using True by (simp add: node_step_def)
    then have w: "?w < 2 ^ 32"
      using nt.step_limit stored_tree_limit [OF tree] by (meson less_le_trans)
    have "search_tree_from db ?info address (word_of_nat v) (word_of_nat i) =
        search_tree_from db ?info address (word_of_nat ?w) (word_of_nat (Suc i))"
      using inside count True p b ucast_u32_u64 [OF w]
      by (cases "bits ! i") (simp_all add: search_tree_from.simps [of db ?info address "word_of_nat v"] add.commute)
    also have "\<dots> = (case walk (node_step ns) ?w (drop (Suc i) bits) of
        (w, k) \<Rightarrow> Some (MMDB_SUCCESS, (word_of_nat w, word_of_nat (Suc i + k))))"
      using Suc w i by (intro Suc(1)) auto
    finally show ?thesis
      using step i by (simp add: Cons_nth_drop_Suc [symmetric] split: prod.split)
  qed
qed


lemma stored_tree_info: "stored_tree db ns \<Longrightarrow> right_record_offset (record_info_for_database db) \<noteq> 0"
proof -
  assume "stored_tree db ns"
  then have sz: "unat (full_record_byte_size db) \<in> {6, 7, 8}" by (simp add: stored_tree_def Let_def)
  then have "full_record_byte_size db \<in> {6, 7, 8}" by (auto simp: word_unat_eq_iff)
  then show ?thesis by (auto simp: record_info_for_database_def Let_def)
qed

section \<open>The outcome of a lookup\<close>

text \<open>
  What a record means: the root and the separator are invalid, the number of nodes stands
  for no data, larger values are offsets into the data section. A record that is still a
  node when the bits are used up is reported as found, with an offset that wraps around.
\<close>

definition outcome_of :: "MMDB_s \<Rightarrow> nat \<Rightarrow> nat \<times> nat \<Rightarrow> mmdb_status \<times> MMDB_lookup_result_s" where
  "outcome_of db nodes r =
    (let (w, k) = r; result = (no_result db)\<lparr>netmask := word_of_nat k\<rparr>
     in if w = 0 \<or> nodes < w \<and> w < nodes + 16 \<or> nodes + 16 + unat (data_section_size db) \<le> w
        then (MMDB_CORRUPT_SEARCH_TREE_ERROR, result)
        else if w = nodes then (MMDB_SUCCESS, result)
        else (MMDB_SUCCESS, result\<lparr>found_entry := True,
          result_entry := \<lparr>entry_mmdb = db, entry_offset = word_of_int (int w - int nodes - 16)\<rparr>\<rparr>))"

lemma record_type_cases:
  assumes nodes: "unat (node_count (db_metadata db)) = n" and w: "w < 2 ^ 32"
  shows "record_type db (word_of_nat w) =
    (if w = 0 \<or> n < w \<and> w < n + 16 \<or> n + 16 + unat (data_section_size db) \<le> w
     then MMDB_RECORD_TYPE_INVALID
     else if w < n then MMDB_RECORD_TYPE_SEARCH_NODE
     else if w = n then MMDB_RECORD_TYPE_EMPTY
     else MMDB_RECORD_TYPE_DATA)"
proof -
  let ?n = "ucast (node_count (db_metadata db)) :: u64" and ?s = "ucast (data_section_size db) :: u64"
  let ?w = "word_of_nat w :: u64"
  have u: "unat ?w = w" "unat ?n = n" "unat ?s = unat (data_section_size db)"
    using w nodes by (simp_all add: unat_of_nat unat_ucast_up)
  have zero: "?w = 0 \<longleftrightarrow> w = 0" and lt: "?w < ?n \<longleftrightarrow> w < n" and eq: "?w = ?n \<longleftrightarrow> w = n"
    by (simp_all add: word_unat_eq_iff word_less_nat_alt u del: of_nat_eq_0_iff)
  have diff: "unat (?w - ?n) = w - n" if "n < w"
    using that u by (subst unat_sub) (simp_all add: word_le_nat_alt)
  have diff16: "unat (?w - ?n - 16) = w - n - 16" if "n < w" "16 \<le> w - n"
    using that diff by (subst unat_sub) (simp_all add: word_le_nat_alt)
  consider "w = 0" | "0 < w" "w < n" | "0 < w" "w = n" | "n < w" "w - n < 16"
    | "n < w" "16 \<le> w - n" by linarith
  then show ?thesis
  proof cases
    case 5
    then show ?thesis
      using zero lt eq diff diff16 u by (simp add: record_type_def Let_def word_less_nat_alt) linarith
  qed (use zero lt eq diff u in \<open>auto simp: record_type_def Let_def word_less_nat_alt\<close>)
qed

lemma data_section_offset_of_nat:
  assumes "unat (node_count (db_metadata db)) = n" and "w < 2 ^ 32"
  shows "data_section_offset_for_record db (word_of_nat w) = word_of_int (int w - int n - 16)"
proof -
  have "ucast (word_of_nat w :: u64) = (word_of_nat w :: u32)"
    using assms(2) by (simp add: word_unat_eq_iff unat_of_nat unsigned_ucast_eq take_bit_nat_eq_self)
  moreover have "node_count (db_metadata db) = word_of_nat n" using assms(1) by auto
  ultimately show ?thesis by (simp add: data_section_offset_for_record_def)
qed

lemma find_address_walk:
  assumes tree: "stored_tree db ns" and depth: "unat (db_depth db) = 8 * length address" "length address < 8192"
    and start: "(if ip_version (db_metadata db) = 6 \<and> family = AF_INET
       then (unat (node_value (ipv4_start_node db)), unat (start_netmask (ipv4_start_node db)))
       else (0, 0)) = (v, i)"
    and i: "i \<le> 8 * length address"
  shows "find_address_in_search_tree db address family (no_result db) =
    Some (outcome_of db (length ns)
      (apsnd ((+) i) (walk (node_step ns) v (drop i (address_bits address)))))"
proof -
  let ?info = "record_info_for_database db"
  have count: "unat (node_count (db_metadata db)) = length ns"
    using tree by (simp add: stored_tree_def Let_def)
  have v: "v < 2 ^ 32"
    using start unsigned_less [of "node_value (ipv4_start_node db)"] by (auto split: if_splits)
  have start': "(if ip_version (db_metadata db) = 6 \<and> family = AF_INET
       then (ucast (node_value (ipv4_start_node db)), start_netmask (ipv4_start_node db))
       else (0, 0)) = (word_of_nat v :: u64, word_of_nat i :: u16)"
    using start by (auto split: if_splits)
  obtain w k where walk: "walk (node_step ns) v (drop i (address_bits address)) = (w, k)" by fastforce
  have w: "w < 2 ^ 32" using nt.walk_limit [OF v stored_tree_limit [OF tree]] walk by (metis fst_conv)
  have search: "search_tree_from db ?info address (word_of_nat v) (word_of_nat i) =
      Some (MMDB_SUCCESS, (word_of_nat w, word_of_nat (i + k)))"
    using search_tree_from_walk [OF tree, of "address_bits address" address i v]
      depth address_bit_eq [of _ address] i v walk by simp
  show ?thesis
    unfolding find_address_in_search_tree_def Let_def start'
    using search stored_tree_info [OF tree] count
    by (auto simp: walk outcome_of_def Let_def record_type_cases [OF count w]
        data_section_offset_of_nat [OF count w] no_result_def)
qed


section \<open>The IPv4 start node\<close>

lemma ipv4_start_from_walk:
  assumes tree: "stored_tree db ns" and v: "v < 2 ^ 32" and i: "i \<le> 96"
  shows "ipv4_start_from db (record_info_for_database db) (word_of_nat v) (word_of_nat i) =
    (case walk (node_step ns) v (replicate (96 - i) False) of
       (w, k) \<Rightarrow> Some (MMDB_SUCCESS, (word_of_nat w, word_of_nat (i + k))))"
  using i v
proof (induction "96 - i" arbitrary: i v)
  case 0
  then show ?case by (simp add: ipv4_start_from.simps)
next
  case (Suc n)
  let ?info = "record_info_for_database db"
  have i: "i < 96" using Suc(2) by simp
  have inside: "(word_of_nat i :: u16) < 96" using i by (simp add: word_less_nat_alt unat_of_nat)
  have rep: "replicate (96 - i) False = False # replicate (96 - Suc i) False"
    using i by (metis Suc_diff_Suc replicate_Suc)
  note count = less_node_count(2) [OF tree Suc.prems(2)]
  show ?case
  proof (cases "v < length ns")
    case False
    then show ?thesis
      using count nt.walk_stop [of ns v "replicate (96 - i) False"]
      by (simp add: ipv4_start_from.simps [of db])
  next
    case True
    obtain p where p: "node_pointer db ?info (word_of_nat v) = Some p"
      "past_search_tree db ?info p = Some False"
      "left_record_getter ?info (mapping db) p = Some (word_of_nat (fst (ns ! v)))"
      using stored_tree_node [OF tree True] by blast
    have step: "node_step ns v False = Some (fst (ns ! v))" using True by (simp add: node_step_def)
    then have w: "fst (ns ! v) < 2 ^ 32"
      using nt.step_limit stored_tree_limit [OF tree] by (meson less_le_trans)
    have "ipv4_start_from db ?info (word_of_nat v) (word_of_nat i) =
        ipv4_start_from db ?info (word_of_nat (fst (ns ! v))) (word_of_nat (Suc i))"
      using inside count True p ucast_u32_u64 [OF Suc.prems(2)]
      by (simp add: ipv4_start_from.simps [of db ?info "word_of_nat v"] add.commute)
    also have "\<dots> = (case walk (node_step ns) (fst (ns ! v)) (replicate (96 - Suc i) False) of
        (w, k) \<Rightarrow> Some (MMDB_SUCCESS, (word_of_nat w, word_of_nat (Suc i + k))))"
      using Suc w i by (intro Suc(1)) auto
    finally show ?thesis using step by (simp add: rep split: prod.split)
  qed
qed

lemma find_ipv4_start_node_walk:
  assumes "stored_tree db ns" and "node_value (ipv4_start_node db) = 0"
  shows "find_ipv4_start_node db =
    (case walk (node_step ns) 0 (replicate 96 False) of
       (w, k) \<Rightarrow> Some (MMDB_SUCCESS, db\<lparr>ipv4_start_node :=
         \<lparr>start_netmask = word_of_nat k, node_value = word_of_nat w\<rparr>\<rparr>))"
  using ipv4_start_from_walk [OF assms(1), of 0 0] stored_tree_info [OF assms(1)] assms(2)
  by (simp add: find_ipv4_start_node_def Let_def split: prod.split)

lemma address_bits_nth:
  "i < 8 * length a \<Longrightarrow> address_bits a ! i = bit (a ! (i div 8)) (7 - i mod 8)"
  by (simp add: address_bits_def)

lemma address_bits_append: "address_bits (a @ b) = address_bits a @ address_bits b"
proof (rule nth_equalityI)
  fix i
  assume i: "i < length (address_bits (a @ b))"
  show "address_bits (a @ b) ! i = (address_bits a @ address_bits b) ! i"
  proof (cases "i < 8 * length a")
    case True
    then have "i div 8 < length a" by (simp add: div_less_iff_less_mult)
    with True i show ?thesis by (simp add: address_bits_nth nth_append)
  next
    case False
    then obtain j where j: "i = j + length a * 8" by (metis le_add_diff_inverse2 mult.commute not_less)
    with i show ?thesis by (simp add: address_bits_nth nth_append)
  qed
qed simp

lemma address_bits_zero: "address_bits (replicate n 0) = replicate (8 * n) False"
  by (auto simp: address_bits_def div_less_iff_less_mult intro!: nth_equalityI)


text \<open>The lookup of an address of a database whose tree is stored, in terms of the walk.\<close>

lemma lookup_in6:
  assumes tree: "stored_tree db ns" and v6: "ip_version (db_metadata db) = 6" "db_depth db = 128"
    and len: "length a = 16"
  shows "MMDB_lookup_sockaddr db (Sockaddr_in6 a) =
    Some (outcome_of db (length ns) (walk (node_step ns) 0 (address_bits a)))"
proof -
  have "find_address_in_search_tree db a AF_INET6 (no_result db) =
      Some (outcome_of db (length ns) (apsnd ((+) 0) (walk (node_step ns) 0 (drop 0 (address_bits a)))))"
    by (rule find_address_walk [OF tree]) (use v6 len in simp_all)
  then show ?thesis
    using v6 by (simp add: MMDB_lookup_sockaddr_def Let_def apsnd_def map_prod_def split_beta)
qed

lemma lookup_in4:
  assumes tree: "stored_tree db ns" and v4: "ip_version (db_metadata db) = 4" "db_depth db = 32"
    and len: "length a = 4"
  shows "MMDB_lookup_sockaddr db (Sockaddr_in a) =
    Some (outcome_of db (length ns) (walk (node_step ns) 0 (address_bits a)))"
proof -
  have "find_address_in_search_tree db a AF_INET (no_result db) =
      Some (outcome_of db (length ns) (apsnd ((+) 0) (walk (node_step ns) 0 (drop 0 (address_bits a)))))"
    by (rule find_address_walk [OF tree]) (use v4 len in simp_all)
  then show ?thesis
    using v4 by (simp add: MMDB_lookup_sockaddr_def Let_def apsnd_def map_prod_def split_beta)
qed

lemma lookup_in_of6:
  assumes tree: "stored_tree db ns" and v6: "ip_version (db_metadata db) = 6" "db_depth db = 128"
    and len: "length a = 4" and zero: "node_value (ipv4_start_node db) = 0"
    and start: "find_ipv4_start_node db = Some (MMDB_SUCCESS, db')"
  shows "MMDB_lookup_sockaddr db' (Sockaddr_in a) = MMDB_lookup_sockaddr db' (Sockaddr_in6 (replicate 12 0 @ a))"
proof -
  obtain w k where walk: "walk (node_step ns) 0 (replicate 96 False) = (w, k)" by fastforce
  then have db': "db' = db\<lparr>ipv4_start_node := \<lparr>start_netmask = word_of_nat k, node_value = word_of_nat w\<rparr>\<rparr>"
    using find_ipv4_start_node_walk [OF tree zero] start by simp
  have k: "k \<le> 96" using nt.walk_bits [of ns 0 "replicate 96 False"] walk by simp
  have w: "w < 2 ^ 32"
    using nt.walk_limit [of 0 "2 ^ 32" ns "replicate 96 False"] stored_tree_limit [OF tree] walk by simp
  have tree': "stored_tree db' ns" using tree by (simp add: db' stored_tree_def)
  have v6': "ip_version (db_metadata db') = 6" "db_depth db' = 128" using v6 by (simp_all add: db')
  let ?a = "replicate 12 0 @ a"
  have bits: "address_bits ?a = replicate 96 False @ address_bits a"
    by (simp add: address_bits_append address_bits_zero)
  have resumed: "apsnd ((+) k) (walk (node_step ns) w (drop k (address_bits ?a))) =
      walk (node_step ns) 0 (address_bits ?a)"
  proof (cases "k = 96")
    case True
    then show ?thesis using nt.walk_append [of ns 0 "replicate 96 False"] walk by (simp add: bits)
  next
    case False
    then have leaf: "length ns \<le> w"
      using nt.walk_leaf [of ns 0 "replicate 96 False"] walk k by simp
    then show ?thesis
      using nt.walk_append [of ns 0 "replicate 96 False" "address_bits a"] walk
      by (simp add: bits nt.walk_stop)
  qed
  have "find_address_in_search_tree db' ?a AF_INET (no_result db') =
      Some (outcome_of db' (length ns) (apsnd ((+) k) (walk (node_step ns) w (drop k (address_bits ?a)))))"
    by (rule find_address_walk [OF tree'])
      (use v6' len k w in \<open>simp_all add: db' unat_of_nat\<close>)
  moreover have "MMDB_lookup_sockaddr db' (Sockaddr_in6 ?a) =
      Some (outcome_of db' (length ns) (walk (node_step ns) 0 (address_bits ?a)))"
    by (rule lookup_in6 [OF tree' v6']) (simp add: len)
  ultimately show ?thesis
    using len v6' resumed by (simp add: MMDB_lookup_sockaddr_def Let_def)
qed

text \<open>The netmask of a result is the length of a prefix that decides the lookup.\<close>

lemma outcome_netmask: "netmask (snd (outcome_of db n r)) = word_of_nat (snd r)"
  by (simp add: outcome_of_def Let_def split_beta)

lemma lookup_prefix:
  assumes tree: "stored_tree db ns" and v6: "ip_version (db_metadata db) = 6" "db_depth db = 128"
    and len: "length a = 16" "length a' = 16"
    and look: "MMDB_lookup_sockaddr db (Sockaddr_in6 a) = Some (st, r)"
    and prefix: "take (unat (netmask r)) (address_bits a) = take (unat (netmask r)) (address_bits a')"
  shows "MMDB_lookup_sockaddr db (Sockaddr_in6 a') = Some (st, r)"
proof -
  let ?walk = "walk (node_step ns) 0"
  have "snd (?walk (address_bits a)) \<le> 128" using nt.walk_bits [of ns 0 "address_bits a"] len by simp
  then have "unat (netmask r) = snd (?walk (address_bits a))"
    using look outcome_netmask [of db "length ns" "?walk (address_bits a)"]
    by (simp add: lookup_in6 [OF tree v6 len(1)] unat_of_nat)
  then have "?walk (address_bits a') = ?walk (address_bits a)"
    using prefix len by (intro nt.walk_prefix) simp_all
  then show ?thesis
    using look by (simp add: lookup_in6 [OF tree v6 len(1)] lookup_in6 [OF tree v6 len(2)])
qed

section \<open>Memory safety\<close>

text \<open>The tree and the data section lie in the mapping, in this order; nothing else is assumed.\<close>

definition wf_tree :: "MMDB_s \<Rightarrow> bool" where
  "wf_tree db \<longleftrightarrow> (\<exists>f d. file_content db = Some f \<and> data_section db = Some d \<and> d \<le> length (mapping db))"

lemma record_getters_ok:
  assumes "right_record_offset (record_info_for_database db) \<noteq> 0"
    and "p + unat (record_length (record_info_for_database db)) \<le> length m"
  shows "\<exists>l r. left_record_getter (record_info_for_database db) m p = Some l \<and>
    right_record_getter (record_info_for_database db) m
      (p + unat (right_record_offset (record_info_for_database db))) = Some r"
  using assms
  by (auto simp: record_info_for_database_def Let_def get_uint24_def get_uint32_def
      get_left_28_bit_record_def get_right_28_bit_record_def split: if_splits)

lemma node_access:
  assumes "wf_tree db"
  obtains p past where "node_pointer db info node = Some p" and "past_search_tree db info p = Some past"
    and "\<not> past \<Longrightarrow> p + unat (record_length info) \<le> length (mapping db)"
  using assms by (force simp: wf_tree_def node_pointer_def past_search_tree_def)

lemma address_bit_ok:
  assumes "unat i < 8 * length a" shows "\<exists>b. address_bit a i = Some b"
proof -
  have "unat i div 8 < length a" using assms by (simp add: div_less_iff_less_mult)
  then show ?thesis by (simp add: address_bit_def drop_bit_eq_div unat_div)
qed

definition tree_status :: "mmdb_status \<Rightarrow> bool" where
  "tree_status st \<longleftrightarrow> st \<in> {MMDB_SUCCESS, MMDB_CORRUPT_SEARCH_TREE_ERROR, MMDB_UNKNOWN_DATABASE_FORMAT_ERROR}"

lemma tree_status_simps [simp]:
  "tree_status MMDB_SUCCESS" "tree_status MMDB_CORRUPT_SEARCH_TREE_ERROR"
  "tree_status MMDB_UNKNOWN_DATABASE_FORMAT_ERROR"
  by (simp_all add: tree_status_def)

lemma search_tree_from_wp:
  assumes wf: "wf_tree db" and info: "right_record_offset (record_info_for_database db) \<noteq> 0"
    and addr: "unat (db_depth db) \<le> 8 * length address"
  shows "current_bit \<le> db_depth db \<Longrightarrow>
    wp (search_tree_from db (record_info_for_database db) address val current_bit)
      (\<lambda>st (w, k). tree_status st \<and> current_bit \<le> k \<and> k \<le> db_depth db \<and>
         (st = MMDB_SUCCESS \<longrightarrow> k = db_depth db \<or> \<not> w < ucast (node_count (db_metadata db))))"
proof (induction "unat (db_depth db) - unat current_bit" arbitrary: current_bit val rule: less_induct)
  case less
  let ?info = "record_info_for_database db"
  show ?case
  proof (cases "current_bit < db_depth db \<and> val < ucast (node_count (db_metadata db))")
    case False
    then show ?thesis using less(2) by (auto simp: search_tree_from.simps [of db ?info address val])
  next
    case True
    then have lt: "unat current_bit < unat (db_depth db)" by (simp add: word_less_nat_alt)
    have suc: "unat (current_bit + 1) = unat current_bit + 1"
      using unat_plus_le [of current_bit 1 "db_depth db"] lt by simp
    obtain b where b: "address_bit address current_bit = Some b"
      using address_bit_ok [of current_bit address] lt addr by auto
    obtain p past where p: "node_pointer db ?info val = Some p" "past_search_tree db ?info p = Some past"
      and inside: "\<not> past \<Longrightarrow> p + unat (record_length ?info) \<le> length (mapping db)"
      using node_access [OF wf] by blast
    show ?thesis
    proof (cases past)
      case True
      then show ?thesis
        using p b less(2) \<open>current_bit < _ \<and> _\<close> by (simp add: search_tree_from.simps [of db ?info address val])
    next
      case False
      obtain l r where "left_record_getter ?info (mapping db) p = Some l"
        "right_record_getter ?info (mapping db) (p + unat (right_record_offset ?info)) = Some r"
        using record_getters_ok [OF info inside [OF False]] by blast
      moreover have "wp (search_tree_from db ?info address v (current_bit + 1))
          (\<lambda>st (w, k). tree_status st \<and> current_bit \<le> k \<and> k \<le> db_depth db \<and>
            (st = MMDB_SUCCESS \<longrightarrow> k = db_depth db \<or> \<not> w < ucast (node_count (db_metadata db))))" for v
      proof (rule wp_mono [OF less(1)])
        show "unat (db_depth db) - unat (current_bit + 1) < unat (db_depth db) - unat current_bit"
          "current_bit + 1 \<le> db_depth db"
          using lt suc by (simp_all add: word_le_nat_alt)
      qed (use suc in \<open>auto simp: word_le_nat_alt\<close>)
      ultimately show ?thesis
        using False p b \<open>current_bit < _ \<and> _\<close>
        by (simp add: search_tree_from.simps [of db ?info address val] del: split_paired_All)
    qed
  qed
qed

text \<open>The start node lies within the bits of the database.\<close>

definition start_ok :: "MMDB_s \<Rightarrow> bool" where
  "start_ok db \<longleftrightarrow> (ip_version (db_metadata db) = 6 \<longrightarrow> start_netmask (ipv4_start_node db) \<le> db_depth db)"

lemma record_type_data_offset:
  assumes "record_type db w = MMDB_RECORD_TYPE_DATA"
  shows "data_section_offset_for_record db w < data_section_size db"
proof -
  let ?n = "ucast (node_count (db_metadata db)) :: u64" and ?s = "ucast (data_section_size db) :: u64"
  have lt: "?n < w" and sep: "\<not> w - ?n < 16" and inside: "w - ?n - 16 < ?s"
    using assms by (auto simp: record_type_def Let_def split: if_splits)
  define k where "k = unat (w - ?n - 16)"
  have k: "k < unat (data_section_size db)" using inside by (simp add: k_def word_less_nat_alt unat_ucast_up)
  then have k32: "k < 2 ^ 32" using unat_u32_less less_trans by blast
  have w: "w = word_of_nat (unat (node_count (db_metadata db)) + 16 + k)"
  proof -
    have "(word_of_nat (unat (node_count (db_metadata db))) :: u64) = ?n"
      by (rule ucast_unat_up [symmetric]) simp
    moreover have "(word_of_nat k :: u64) = w - ?n - 16" by (simp add: k_def)
    ultimately have "(word_of_nat (unat (node_count (db_metadata db)) + 16 + k) :: u64) = ?n + 16 + (w - ?n - 16)"
      by (simp only: of_nat_add of_nat_numeral)
    then show ?thesis by simp
  qed
  have "(ucast w :: u32) = word_of_nat (unat (node_count (db_metadata db)) + 16 + k)"
    unfolding w by (rule ucast_word_of_nat) simp
  then have "data_section_offset_for_record db w = word_of_nat k"
    by (simp add: data_section_offset_for_record_def)
  then show ?thesis using k k32 by (simp add: word_less_nat_alt unat_of_nat)
qed

lemma record_type_range:
  "record_type db w \<in> {MMDB_RECORD_TYPE_INVALID, MMDB_RECORD_TYPE_SEARCH_NODE, MMDB_RECORD_TYPE_EMPTY,
     MMDB_RECORD_TYPE_DATA}"
  "record_type db w = MMDB_RECORD_TYPE_SEARCH_NODE \<Longrightarrow> w < ucast (node_count (db_metadata db))"
  by (auto simp: record_type_def Let_def split: if_splits)

lemma find_address_wp:
  assumes wf: "wf_tree db" and addr: "unat (db_depth db) \<le> 8 * length address" and start: "start_ok db"
  shows "wp (find_address_in_search_tree db address family (no_result db)) (\<lambda>st r.
    tree_status st \<and> netmask r \<le> db_depth db \<and> entry_mmdb (result_entry r) = db \<and>
    (found_entry r \<longrightarrow> st = MMDB_SUCCESS \<and>
       (entry_offset (result_entry r) < data_section_size db \<or> netmask r = db_depth db)))"
proof (cases "right_record_offset (record_info_for_database db) = 0")
  case True
  then show ?thesis by (simp add: find_address_in_search_tree_def no_result_def)
next
  case info: False
  let ?n = "ucast (node_count (db_metadata db)) :: u64"
  let ?post = "\<lambda>st (r :: MMDB_lookup_result_s).
    tree_status st \<and> netmask r \<le> db_depth db \<and> entry_mmdb (result_entry r) = db \<and>
    (found_entry r \<longrightarrow> st = MMDB_SUCCESS \<and>
       (entry_offset (result_entry r) < data_section_size db \<or> netmask r = db_depth db))"
  obtain v0 i0 where v0: "(if ip_version (db_metadata db) = 6 \<and> family = AF_INET
          then (ucast (node_value (ipv4_start_node db)), start_netmask (ipv4_start_node db))
          else (0 :: u64, 0 :: u16)) = (v0, i0)" by fastforce
  then have i0: "i0 \<le> db_depth db" using start by (auto simp: start_ok_def split: if_splits)
  have result: "?post MMDB_SUCCESS ((no_result db)\<lparr>netmask := k, found_entry := True,
      result_entry := \<lparr>entry_mmdb = db, entry_offset = data_section_offset_for_record db w\<rparr>\<rparr>)"
    if "k \<le> db_depth db" "k = db_depth db \<or> \<not> w < ?n"
      "record_type db w \<notin> {MMDB_RECORD_TYPE_INVALID, MMDB_RECORD_TYPE_EMPTY}" for w k
    using that record_type_range [of db w] record_type_data_offset [of db w] by auto
  have "wp (chk_with (\<lambda>_. no_result db) (search_tree_from db (record_info_for_database db) address v0 i0)
     (\<lambda>(val, current_bit).
       let result = (no_result db)\<lparr>netmask := current_bit\<rparr>; type = record_type db val
       in if type = MMDB_RECORD_TYPE_INVALID then Some (MMDB_CORRUPT_SEARCH_TREE_ERROR, result)
          else if type = MMDB_RECORD_TYPE_EMPTY then Some (MMDB_SUCCESS, result\<lparr>found_entry := False\<rparr>)
          else Some (MMDB_SUCCESS, result\<lparr>found_entry := True,
            result_entry := (result_entry result)\<lparr>entry_offset := data_section_offset_for_record db val\<rparr>\<rparr>))) ?post"
    unfolding wp_chk_with
  proof (rule wp_mono [OF search_tree_from_wp [OF wf info addr i0]], clarify, goal_cases)
    case (1 st w k)
    then show ?case
      using result [of k w] by (auto simp: Let_def no_result_def)
  qed
  then show ?thesis
    using info by (simp add: find_address_in_search_tree_def v0 Let_def)
qed

text \<open>What \<open>MMDB_open\<close> establishes for lookups, and the socket addresses that are what they say.\<close>

definition wf_search :: "MMDB_s \<Rightarrow> bool" where
  "wf_search db \<longleftrightarrow> wf_tree db \<and> start_ok db \<and>
     db_depth db = (if ip_version (db_metadata db) = 4 then 32 else 128)"

fun sockaddr_ok :: "sockaddr \<Rightarrow> bool" where
  "sockaddr_ok (Sockaddr_in a) = (length a = 4)"
| "sockaddr_ok (Sockaddr_in6 a) = (length a = 16)"
| "sockaddr_ok (Sockaddr_other f) = (f \<noteq> AF_INET \<and> f \<noteq> AF_INET6)"

text \<open>The status that the family check gives to an address.\<close>

definition family_status :: "MMDB_s \<Rightarrow> sockaddr \<Rightarrow> mmdb_status" where
  "family_status db sa =
    (case sa of
       Sockaddr_in _ \<Rightarrow> MMDB_SUCCESS
     | Sockaddr_in6 _ \<Rightarrow> if ip_version (db_metadata db) = 4 then MMDB_IPV6_LOOKUP_IN_IPV4_DATABASE_ERROR
                        else MMDB_SUCCESS
     | Sockaddr_other _ \<Rightarrow> MMDB_INVALID_NETWORK_ADDRESS_ERROR)"

lemma lookup_sockaddr_wp:
  assumes wf: "wf_search db" and sa: "sockaddr_ok sa"
  shows "wp (MMDB_lookup_sockaddr db sa) (\<lambda>st r.
    (if family_status db sa \<noteq> MMDB_SUCCESS then st = family_status db sa \<and> r = no_result db
     else tree_status st) \<and>
    netmask r \<le> db_depth db \<and> entry_mmdb (result_entry r) = db \<and>
    (found_entry r \<longrightarrow> st = MMDB_SUCCESS \<and>
       (entry_offset (result_entry r) < data_section_size db \<or> netmask r = db_depth db)))"
proof -
  have wf': "wf_tree db" "start_ok db" and depth: "db_depth db = (if ip_version (db_metadata db) = 4 then 32 else 128)"
    using wf by (simp_all add: wf_search_def)
  note find = find_address_wp [OF wf'(1) _ wf'(2)]
  show ?thesis
  proof (cases sa)
    case (Sockaddr_in a)
    then show ?thesis
      using sa depth find [of a AF_INET] find [of "replicate 12 0 @ a" AF_INET]
      by (cases "ip_version (db_metadata db) = 4")
        (simp_all add: MMDB_lookup_sockaddr_def Let_def family_status_def)
  next
    case (Sockaddr_in6 a)
    then show ?thesis
      using sa depth find [of a AF_INET6]
      by (cases "ip_version (db_metadata db) = 4")
        (simp_all add: MMDB_lookup_sockaddr_def Let_def family_status_def no_result_def)
  next
    case (Sockaddr_other f)
    then show ?thesis
      using sa by (simp add: MMDB_lookup_sockaddr_def Let_def family_status_def no_result_def)
  qed
qed

lemma lookup_string_agrees:
  "getaddrinfo ipstr = (0, Some sa) \<Longrightarrow> MMDB_lookup_string getaddrinfo db ipstr =
     map_option (\<lambda>(st, r). (0, st, r)) (MMDB_lookup_sockaddr db sa)"
  by (cases "MMDB_lookup_sockaddr db sa")
    (auto simp: MMDB_lookup_string_def resolve_any_address_def)

lemma lookup_string_gai_error:
  "getaddrinfo ipstr = (g, ai) \<Longrightarrow> g \<noteq> 0 \<Longrightarrow>
     MMDB_lookup_string getaddrinfo db ipstr = Some (g, MMDB_SUCCESS, no_result db)"
  by (simp add: MMDB_lookup_string_def resolve_any_address_def)

lemma ipv4_start_from_wp:
  assumes wf: "wf_tree db" and info: "right_record_offset (record_info_for_database db) \<noteq> 0"
  shows "bits \<le> 96 \<Longrightarrow> wp (ipv4_start_from db (record_info_for_database db) node bits)
    (\<lambda>st (w, k). tree_status st \<and> k \<le> 96)"
proof (induction "96 - unat bits" arbitrary: bits node rule: less_induct)
  case less
  let ?info = "record_info_for_database db"
  show ?case
  proof (cases "bits < 96 \<and> node < node_count (db_metadata db)")
    case False
    then show ?thesis using less(2) by (auto simp: ipv4_start_from.simps [of db ?info node])
  next
    case True
    then have lt: "unat bits < 96" by (simp add: word_less_nat_alt)
    have suc: "unat (bits + 1) = unat bits + 1" using unat_plus_le [of bits 1 96] lt by simp
    obtain p past where p: "node_pointer db ?info (ucast node) = Some p" "past_search_tree db ?info p = Some past"
      and inside: "\<not> past \<Longrightarrow> p + unat (record_length ?info) \<le> length (mapping db)"
      using node_access [OF wf] by blast
    show ?thesis
    proof (cases past)
      case True
      then show ?thesis
        using p less(2) \<open>bits < _ \<and> _\<close> by (simp add: ipv4_start_from.simps [of db ?info node])
    next
      case False
      obtain l where "left_record_getter ?info (mapping db) p = Some l"
        using record_getters_ok [OF info inside [OF False]] by blast
      moreover have "wp (ipv4_start_from db ?info l (bits + 1)) (\<lambda>st (w, k). tree_status st \<and> k \<le> 96)"
        by (rule less(1)) (use lt suc in \<open>simp_all add: word_le_nat_alt\<close>)
      ultimately show ?thesis
        using False p \<open>bits < _ \<and> _\<close>
        by (simp add: ipv4_start_from.simps [of db ?info node] del: split_paired_All)
    qed
  qed
qed

lemma find_ipv4_start_node_wp:
  assumes wf: "wf_tree db"
  shows "wp (find_ipv4_start_node db) (\<lambda>st db'. tree_status st \<and>
    (st \<noteq> MMDB_SUCCESS \<longrightarrow> db' = db) \<and>
    (\<exists>start. db' = db\<lparr>ipv4_start_node := start\<rparr> \<and> (start = ipv4_start_node db \<or> start_netmask start \<le> 96)))"
proof -
  have same: "\<exists>start. db = db\<lparr>ipv4_start_node := start\<rparr> \<and> (start = ipv4_start_node db \<or> start_netmask start \<le> 96)"
    by (rule exI [of _ "ipv4_start_node db"]) simp
  show ?thesis
  proof (cases "node_value (ipv4_start_node db) \<noteq> 0 \<or> right_record_offset (record_info_for_database db) = 0")
    case True
    then show ?thesis using same by (auto simp: find_ipv4_start_node_def)
  next
    case False
    then have info: "right_record_offset (record_info_for_database db) \<noteq> 0" by simp
    have "wp (chk_with (\<lambda>_. db) (ipv4_start_from db (record_info_for_database db) 0 0) (\<lambda>(node, bits).
        Some (MMDB_SUCCESS, db\<lparr>ipv4_start_node := \<lparr>start_netmask = bits, node_value = node\<rparr>\<rparr>)))
      (\<lambda>st db'. tree_status st \<and> (st \<noteq> MMDB_SUCCESS \<longrightarrow> db' = db) \<and>
        (\<exists>start. db' = db\<lparr>ipv4_start_node := start\<rparr> \<and> (start = ipv4_start_node db \<or> start_netmask start \<le> 96)))"
      unfolding wp_chk_with
    proof (rule wp_mono [OF ipv4_start_from_wp [OF wf info]], simp, clarify, goal_cases)
      case (1 st w k)
      moreover have "\<exists>start. db\<lparr>ipv4_start_node := \<lparr>start_netmask = k, node_value = w\<rparr>\<rparr> =
          db\<lparr>ipv4_start_node := start\<rparr> \<and> (start = ipv4_start_node db \<or> start_netmask start \<le> 96)"
        by (rule exI [of _ "\<lparr>start_netmask = k, node_value = w\<rparr>"]) (simp add: 1)
      ultimately show ?case using same by simp
    qed
    then show ?thesis using False by (simp add: find_ipv4_start_node_def Let_def)
  qed
qed

section \<open>Reading a node\<close>

lemma MMDB_read_node_wp:
  assumes wf: "wf_tree db"
  shows "wp (MMDB_read_node db n node) (\<lambda>st node'.
    (tree_status st \<or> st = MMDB_INVALID_NODE_NUMBER_ERROR) \<and>
    (st = MMDB_SUCCESS \<longrightarrow> n < node_count (db_metadata db) \<and>
       left_record_type node' = record_type db (left_record node') \<and>
       right_record_type node' = record_type db (right_record node') \<and>
       left_record_type node' \<noteq> MMDB_RECORD_TYPE_INVALID \<and> right_record_type node' \<noteq> MMDB_RECORD_TYPE_INVALID))"
proof -
  let ?info = "record_info_for_database db"
  obtain p past where p: "node_pointer db ?info (ucast n) = Some p" "past_search_tree db ?info p = Some past"
    and inside: "\<not> past \<Longrightarrow> p + unat (record_length ?info) \<le> length (mapping db)"
    using node_access [OF wf] by blast
  consider "right_record_offset ?info = 0" | "right_record_offset ?info \<noteq> 0" "n \<ge> node_count (db_metadata db)"
    | "right_record_offset ?info \<noteq> 0" "n < node_count (db_metadata db)" past
    | "right_record_offset ?info \<noteq> 0" "n < node_count (db_metadata db)" "\<not> past" by force
  then show ?thesis
  proof cases
    case 4
    obtain l r where "left_record_getter ?info (mapping db) p = Some l"
      "right_record_getter ?info (mapping db) (p + unat (right_record_offset ?info)) = Some r"
      using record_getters_ok [OF 4(1) inside [OF 4(3)]] by blast
    then show ?thesis using 4 p by (simp add: MMDB_read_node_def Let_def not_le [symmetric])
  qed (use p in \<open>simp_all add: MMDB_read_node_def Let_def not_le [symmetric]\<close>)
qed

text \<open>Reading a node of a stored tree gives its two records.\<close>

lemma MMDB_read_node_stored:
  assumes tree: "stored_tree db ns" and n: "n < length ns"
  shows "\<exists>st node'. MMDB_read_node db (word_of_nat n) node = Some (st, node') \<and>
    unat (left_record node') = fst (ns ! n) \<and> unat (right_record node') = snd (ns ! n) \<and>
    (st = MMDB_SUCCESS \<or> st = MMDB_CORRUPT_SEARCH_TREE_ERROR) \<and>
    (st = MMDB_SUCCESS \<longleftrightarrow>
       record_type db (left_record node') \<noteq> MMDB_RECORD_TYPE_INVALID \<and>
       record_type db (right_record node') \<noteq> MMDB_RECORD_TYPE_INVALID)"
proof -
  let ?info = "record_info_for_database db"
  have count: "unat (node_count (db_metadata db)) = length ns"
    using tree by (simp add: stored_tree_def Let_def)
  have n32: "n < 2 ^ 32" using n count unat_u32_less [of "node_count (db_metadata db)"] by simp
  obtain p where p: "node_pointer db ?info (word_of_nat n) = Some p"
    "past_search_tree db ?info p = Some False"
    "left_record_getter ?info (mapping db) p = Some (word_of_nat (fst (ns ! n)))"
    "right_record_getter ?info (mapping db) (p + unat (right_record_offset ?info)) =
      Some (word_of_nat (snd (ns ! n)))"
    using stored_tree_node [OF tree n] .
  have "node_step ns n False = Some (fst (ns ! n))" "node_step ns n True = Some (snd (ns ! n))"
    using n by (simp_all add: node_step_def)
  then have "fst (ns ! n) < 2 ^ 32" "snd (ns ! n) < 2 ^ 32"
    using nt.step_limit stored_tree_limit [OF tree] by (meson less_le_trans)+
  then have "unat (ucast (word_of_nat (fst (ns ! n)) :: u32) :: u64) = fst (ns ! n)"
    "unat (ucast (word_of_nat (snd (ns ! n)) :: u32) :: u64) = snd (ns ! n)"
    by (simp_all add: ucast_u32_u64 unat_of_nat)
  then show ?thesis
    using p n less_node_count(2) [OF tree n32] stored_tree_info [OF tree] ucast_u32_u64 [OF n32]
    by (simp add: MMDB_read_node_def Let_def not_le [symmetric])
qed

end
