(* ===== verification/Decoder.thy ===== *)
theory Decoder
  imports Byte_Readers
begin

text \<open>
  \<open>decode_one\<close> and \<open>decode_one_follow\<close> of \<open>src/maxminddb.c\<close>: one entry of the data section
  (or of the metadata section, through a fake handle) is decoded into an
  \<open>MMDB_entry_data_s\<close> that the caller passes in. The fields that the code does not write keep
  the caller's value, also when it returns early with an error.
\<close>

text \<open>The host of the model is little-endian; \<open>get_ieee754_float_be\<close> shows that it does not matter.\<close>

abbreviation (input) MMDB_LITTLE_ENDIAN :: bool where "MMDB_LITTLE_ENDIAN \<equiv> True"

section \<open>decode_one\<close>

text \<open>\<open>&mem[offset]\<close>\<close>

definition section_ptr :: "MMDB_s \<Rightarrow> u32 \<Rightarrow> ptr option" where
  "section_ptr db offset = map_option (\<lambda>p. p + unat offset) (data_section db)"

text \<open>The size of an entry: the low five bits of the control byte, or up to three more bytes.\<close>

definition decode_size :: "MMDB_s \<Rightarrow> u8 \<Rightarrow> u32 \<Rightarrow> (u32 \<times> u32) run" where
  "decode_size db ctrl offset =
    (let size_bits = ucast ctrl AND 31 :: u32 in
     if size_bits = 29 then
       (if offset > data_section_size db - 1 then Some (MMDB_INVALID_DATA_ERROR, (size_bits, offset))
        else do { b \<leftarrow> section_rd db offset;
                  Some (MMDB_SUCCESS, (29 + ucast b, offset + 1)) })
     else if size_bits = 30 then
       (if offset > data_section_size db - 2 then Some (MMDB_INVALID_DATA_ERROR, (size_bits, offset))
        else do { p \<leftarrow> section_ptr db offset; v \<leftarrow> get_uint16 (mapping db) p;
                  Some (MMDB_SUCCESS, (285 + v, offset + 2)) })
     else if size_bits = 31 then
       (if offset > data_section_size db - 3 then Some (MMDB_INVALID_DATA_ERROR, (size_bits, offset))
        else do { p \<leftarrow> section_ptr db offset; v \<leftarrow> get_uint24 (mapping db) p;
                  Some (MMDB_SUCCESS, (65821 + v, offset + 3)) })
     else Some (MMDB_SUCCESS, (size_bits, offset)))"

text \<open>The value of a scalar whose \<open>sz\<close> bytes from \<open>offset\<close> on are known to be in the section.\<close>

definition decode_payload ::
  "MMDB_s \<Rightarrow> u32 \<Rightarrow> u32 \<Rightarrow> u32 \<Rightarrow> MMDB_entry_data_s \<Rightarrow> MMDB_entry_data_s run" where
  "decode_payload db offset sz type e =
    (let m = mapping db; len = unat sz;
         invalid = Some (MMDB_INVALID_DATA_ERROR, e);
         finish = (\<lambda>e. Some (MMDB_SUCCESS, e\<lparr>offset_to_next := offset + sz\<rparr>))
     in do {
       p \<leftarrow> section_ptr db offset;
       if type = MMDB_DATA_TYPE_UINT16 then
         if sz > 2 then invalid
         else do { v \<leftarrow> get_uintX m p len; finish (e\<lparr>ed_value := Uint16_val (ucast v)\<rparr>) }
       else if type = MMDB_DATA_TYPE_UINT32 then
         if sz > 4 then invalid
         else do { v \<leftarrow> get_uintX m p len; finish (e\<lparr>ed_value := Uint32_val (ucast v)\<rparr>) }
       else if type = MMDB_DATA_TYPE_INT32 then
         if sz > 4 then invalid
         else do { v \<leftarrow> get_sintX m p len; finish (e\<lparr>ed_value := Int32_val v\<rparr>) }
       else if type = MMDB_DATA_TYPE_UINT64 then
         if sz > 8 then invalid
         else do { v \<leftarrow> get_uintX m p len; finish (e\<lparr>ed_value := Uint64_val v\<rparr>) }
       else if type = MMDB_DATA_TYPE_UINT128 then
         if sz > 16 then invalid
         else do { v \<leftarrow> get_uint128 m p len; finish (e\<lparr>ed_value := Uint128_val v\<rparr>) }
       else if type = MMDB_DATA_TYPE_FLOAT then
         if sz \<noteq> 4 then invalid
         else do { v \<leftarrow> get_ieee754_float MMDB_LITTLE_ENDIAN m p; finish (e\<lparr>ed_value := Float_val v\<rparr>) }
       else if type = MMDB_DATA_TYPE_DOUBLE then
         if sz \<noteq> 8 then invalid
         else do { v \<leftarrow> get_ieee754_double MMDB_LITTLE_ENDIAN m p; finish (e\<lparr>ed_value := Double_val v\<rparr>) }
       else if type = MMDB_DATA_TYPE_UTF8_STRING then
         finish (e\<lparr>ed_value := Utf8_string_val (if sz = 0 then Empty_literal else Mapped p),
                   data_size := sz\<rparr>)
       else if type = MMDB_DATA_TYPE_BYTES then
         finish (e\<lparr>ed_value := Bytes_val p, data_size := sz\<rparr>)
       else finish e })"

text \<open>The part after the size: maps, arrays and booleans have no payload.\<close>

definition decode_sized ::
  "MMDB_s \<Rightarrow> u32 \<Rightarrow> MMDB_entry_data_s \<Rightarrow> u32 \<Rightarrow> u32 \<Rightarrow> MMDB_entry_data_s run" where
  "decode_sized db type e sz offset =
    (if type = MMDB_DATA_TYPE_MAP \<or> type = MMDB_DATA_TYPE_ARRAY then
       Some (MMDB_SUCCESS, e\<lparr>data_size := sz, offset_to_next := offset\<rparr>)
     else if type = MMDB_DATA_TYPE_BOOLEAN then
       Some (MMDB_SUCCESS, e\<lparr>ed_value := Boolean_val (sz \<noteq> 0), data_size := 0,
                              offset_to_next := offset\<rparr>)
     else if offset > data_section_size db - sz \<or> data_section_size db < sz then
       Some (MMDB_INVALID_DATA_ERROR, e)
     else decode_payload db offset sz type e)"

text \<open>The part of \<open>decode_one\<close> after the type is known; \<open>offset\<close> is past the type bytes.\<close>

definition decode_typed ::
  "MMDB_s \<Rightarrow> u8 \<Rightarrow> u32 \<Rightarrow> u32 \<Rightarrow> MMDB_entry_data_s \<Rightarrow> MMDB_entry_data_s run" where
  "decode_typed db ctrl offset type e0 =
    (let e = e0\<lparr>ed_type := type\<rparr> in
     if type = MMDB_DATA_TYPE_POINTER then
       let psize = (drop_bit 3 (ucast ctrl) AND 3) + 1 :: u32 in
       if offset > data_section_size db - psize \<or> data_section_size db < psize
       then Some (MMDB_INVALID_DATA_ERROR, e)
       else do {
         p \<leftarrow> section_ptr db offset;
         v \<leftarrow> get_ptr_from ctrl (mapping db) p (unat psize);
         Some (MMDB_SUCCESS, e\<lparr>ed_value := Pointer_val v, data_size := psize,
                                offset_to_next := offset + psize\<rparr>) }
     else
       chk_with (\<lambda>_. e) (decode_size db ctrl offset)
         (\<lambda>(sz, offset). decode_sized db type e sz offset))"

definition decode_one :: "MMDB_s \<Rightarrow> u32 \<Rightarrow> MMDB_entry_data_s \<Rightarrow> MMDB_entry_data_s run" where
  "decode_one db offset0 e0 =
    (if data_section_size db = 0 then Some (MMDB_INVALID_DATA_ERROR, e0)
     else if offset0 > data_section_size db - 1 then Some (MMDB_INVALID_DATA_ERROR, e0)
     else
       let e = e0\<lparr>ed_offset := offset0, has_data := True\<rparr> in do {
       ctrl \<leftarrow> section_rd db offset0;
       let offset = offset0 + 1;
       let type = (drop_bit 5 (ucast ctrl) AND 7 :: u32);
       if type = MMDB_DATA_TYPE_EXTENDED then
         if offset > data_section_size db - 1 then Some (MMDB_INVALID_DATA_ERROR, e)
         else do {
           raw \<leftarrow> section_rd db offset;
           decode_typed db ctrl (offset + 1) (word_of_int (get_ext_type (uint raw))) e }
       else decode_typed db ctrl offset type e })"

definition decode_one_follow :: "MMDB_s \<Rightarrow> u32 \<Rightarrow> MMDB_entry_data_s \<Rightarrow> MMDB_entry_data_s run" where
  "decode_one_follow db offset e0 =
    chk (decode_one db offset e0) (\<lambda>e.
      if ed_type e = MMDB_DATA_TYPE_POINTER then do {
        let next = offset_to_next e;
        target \<leftarrow> union_pointer (ed_value e);
        chk (decode_one db target e) (\<lambda>e.
          if ed_type e = MMDB_DATA_TYPE_POINTER then Some (MMDB_INVALID_DATA_ERROR, e)
          else if ed_type e \<noteq> MMDB_DATA_TYPE_MAP \<and> ed_type e \<noteq> MMDB_DATA_TYPE_ARRAY then
            Some (MMDB_SUCCESS, e\<lparr>offset_to_next := next\<rparr>)
          else Some (MMDB_SUCCESS, e)) }
      else Some (MMDB_SUCCESS, e))"

section \<open>Control bytes\<close>

lemma unat_type_bits: "unat (drop_bit 5 (ucast (c :: u8)) AND 7 :: u32) = unat c div 32"
proof -
  have "unat (drop_bit 5 (ucast c) :: u32) = unat c div 32"
    by (simp add: drop_bit_eq_div unat_div unat_ucast_up)
  moreover have "(k :: nat) AND 7 = k mod 8" for k
    using take_bit_eq_mask [of 3 k] by (simp add: mask_eq_exp_minus_1 take_bit_eq_mod)
  moreover have "unat c div 32 < 8" 
    using unat_u8_less [of c] by (simp add: div_less_iff_less_mult del: unat_u8_less)
  ultimately show ?thesis by (simp add: unsigned_and_eq)
qed

lemma unat_psize: "unat ((drop_bit 3 (ucast (c :: u8)) AND 3) + 1 :: u32) = (unat c div 8) mod 4 + 1"
proof -
  have "unat (drop_bit 3 (ucast c) :: u32) = unat c div 8"
    by (simp add: drop_bit_eq_div unat_div unat_ucast_up)
  moreover have "(k :: nat) AND 3 = k mod 4" for k
    using take_bit_eq_mask [of 2 k] by (simp add: mask_eq_exp_minus_1 take_bit_eq_mod)
  ultimately have "unat (drop_bit 3 (ucast c) AND 3 :: u32) = (unat c div 8) mod 4"
    by (simp add: unsigned_and_eq)
  then show ?thesis
    using unat_plus_le [of "drop_bit 3 (ucast c) AND 3 :: u32" 1 4] by simp
qed

lemma unat_size_bits: "unat (ucast (c :: u8) AND 31 :: u32) = unat c mod 32"
proof -
  have "unat c AND 31 = unat c mod 32"
    using take_bit_eq_mask [of 5 "unat c"] by (simp add: mask_eq_exp_minus_1 take_bit_eq_mod)
  then show ?thesis by (simp add: unsigned_and_eq unat_ucast_up)
qed

section \<open>Reads inside a well-formed section\<close>

lemma wf_section_block:
  assumes "wf_section db" and "unat offset + n \<le> unat (data_section_size db)"
  obtains p where "section_ptr db offset = Some p" and "p + n \<le> length (mapping db)"
    and "\<And>k. k < n \<Longrightarrow> rd (mapping db) (p + k) = Some (mapping db ! (p + k))"
proof -
  obtain q where "data_section db = Some q" and "q + unat (data_section_size db) \<le> length (mapping db)"
    using assms(1) by (elim wf_sectionE) 
  with assms(2) show ?thesis by (intro that [of "q + unat offset"]) (auto simp: section_ptr_def)
qed

lemma bytes_at_self: "p + n \<le> length m \<Longrightarrow> bytes_at m p (take n (drop p m))"
  by (simp add: bytes_at_def)

lemma shift_in_bytes_ok: "p + n \<le> length m \<Longrightarrow> \<exists>v. shift_in_bytes m p n v0 = Some v"
  using shift_in_bytes_be [OF bytes_at_self, of p n m v0] by auto

lemma get_uintX_ok: "p + n \<le> length m \<Longrightarrow> \<exists>v. get_uintX m p n = Some v"
  by (simp add: get_uintX_def shift_in_bytes_ok)

lemma get_sintX_ok: "p + n \<le> length m \<Longrightarrow> \<exists>v. get_sintX m p n = Some v"
  using get_uintX_ok [of p n m] by (auto simp: get_sintX_def)

lemma get_uint128_ok: "p + n \<le> length m \<Longrightarrow> \<exists>v. get_uint128 m p n = Some v"
  by (simp add: get_uint128_def shift_in_bytes_ok)

lemma get_float_ok: "p + 4 \<le> length m \<Longrightarrow> \<exists>v. get_ieee754_float le m p = Some v"
  by (simp add: get_ieee754_float_def Let_def)

lemma get_double_ok: "p + 8 \<le> length m \<Longrightarrow> \<exists>v. get_ieee754_double le m p = Some v"
  by (simp add: get_ieee754_double_def Let_def)

lemma unat_of_nat_u32: "n < 2 ^ 32 \<Longrightarrow> unat (word_of_nat n :: u32) = n"
  by (simp add: unat_of_nat)

lemma get_uint16_ok:
  assumes "p + 2 \<le> length m" shows "\<exists>v. get_uint16 m p = Some v \<and> unat v < 65536"
proof -
  let ?bs = "take 2 (drop p m)"
  have "be ?bs < 65536" using be_bound [of ?bs] assms by simp
  then show ?thesis
    using get_uint16_be [OF bytes_at_self [OF assms]] assms by (simp add: unat_of_nat_u32)
qed

lemma get_uint24_ok:
  assumes "p + 3 \<le> length m" shows "\<exists>v. get_uint24 m p = Some v \<and> unat v < 16777216"
proof -
  let ?bs = "take 3 (drop p m)"
  have "be ?bs < 16777216" using be_bound [of ?bs] assms by simp
  then show ?thesis
    using get_uint24_be [OF bytes_at_self [OF assms]] assms by (simp add: unat_of_nat_u32)
qed

lemma get_uint32_ok: "p + 4 \<le> length m \<Longrightarrow> \<exists>v. get_uint32 m p = Some v"
  using get_uint32_be [OF bytes_at_self, of p 4 m] by auto

section \<open>What a decoded entry looks like\<close>

definition string_ok :: "MMDB_s \<Rightarrow> c_str \<Rightarrow> u32 \<Rightarrow> bool" where
  "string_ok db s n = (case s of Empty_literal \<Rightarrow> n = 0 | Mapped p \<Rightarrow> p + unat n \<le> length (mapping db))"

definition value_ok :: "MMDB_s \<Rightarrow> MMDB_entry_data_s \<Rightarrow> bool" where
  "value_ok db e \<longleftrightarrow>
     (ed_type e = MMDB_DATA_TYPE_POINTER \<longrightarrow> (\<exists>v. ed_value e = Pointer_val v)) \<and>
     (ed_type e = MMDB_DATA_TYPE_UTF8_STRING \<longrightarrow>
        (\<exists>s. ed_value e = Utf8_string_val s \<and> string_ok db s (data_size e))) \<and>
     (ed_type e = MMDB_DATA_TYPE_BYTES \<longrightarrow>
        (\<exists>p. ed_value e = Bytes_val p \<and> p + unat (data_size e) \<le> length (mapping db)) \<and>
        unat (data_size e) < 16843037) \<and>
     (ed_type e = MMDB_DATA_TYPE_DOUBLE \<longrightarrow> (\<exists>v. ed_value e = Double_val v)) \<and>
     (ed_type e = MMDB_DATA_TYPE_UINT16 \<longrightarrow> (\<exists>v. ed_value e = Uint16_val v)) \<and>
     (ed_type e = MMDB_DATA_TYPE_UINT32 \<longrightarrow> (\<exists>v. ed_value e = Uint32_val v)) \<and>
     (ed_type e = MMDB_DATA_TYPE_INT32 \<longrightarrow> (\<exists>v. ed_value e = Int32_val v)) \<and>
     (ed_type e = MMDB_DATA_TYPE_UINT64 \<longrightarrow> (\<exists>v. ed_value e = Uint64_val v)) \<and>
     (ed_type e = MMDB_DATA_TYPE_UINT128 \<longrightarrow> (\<exists>v. ed_value e = Uint128_val v)) \<and>
     (ed_type e = MMDB_DATA_TYPE_BOOLEAN \<longrightarrow> (\<exists>v. ed_value e = Boolean_val v)) \<and>
     (ed_type e = MMDB_DATA_TYPE_FLOAT \<longrightarrow> (\<exists>v. ed_value e = Float_val v))"

text \<open>The result of a successful \<open>decode_one\<close> at \<open>offset\<close>.\<close>

definition decoded_at :: "MMDB_s \<Rightarrow> u32 \<Rightarrow> MMDB_entry_data_s \<Rightarrow> bool" where
  "decoded_at db offset e \<longleftrightarrow>
     has_data e \<and> ed_offset e = offset \<and> unat offset < unat (offset_to_next e) \<and>
     unat (offset_to_next e) \<le> unat (data_section_size db) \<and> value_ok db e"

lemma decode_size_wp:
  assumes wf: "wf_section db" and off: "unat offset \<le> unat (data_section_size db)"
  shows "wp (decode_size db ctrl offset) (\<lambda>st (sz, offset').
    (st = MMDB_SUCCESS \<or> st = MMDB_INVALID_DATA_ERROR) \<and>
    (st = MMDB_SUCCESS \<longrightarrow> unat offset \<le> unat offset' \<and>
       unat offset' \<le> unat (data_section_size db) \<and> unat sz < 16843037))"
proof -
  have three: "3 \<le> unat (data_section_size db)" using wf by (elim wf_sectionE)
  have le: "1 \<le> data_section_size db" "2 \<le> data_section_size db" "3 \<le> data_section_size db"
    using three by (simp_all add: word_le_nat_alt)
  consider "ucast ctrl AND 31 = (29 :: u32)" | "ucast ctrl AND 31 = (30 :: u32)"
    | "ucast ctrl AND 31 = (31 :: u32)" | "ucast ctrl AND 31 \<notin> {29, 30, 31 :: u32}" by blast
  then show ?thesis
  proof cases
    case 1
    show ?thesis
    proof (cases "offset > data_section_size db - 1")
      case False
      then have fit: "unat offset + 1 \<le> unat (data_section_size db)"
        using fits_const_iff [OF le(1), of offset] by simp
      then obtain b where "section_rd db offset = Some b"
        using section_rd_ok [OF wf, of offset] by auto
      moreover have "unat (offset + 1) = unat offset + 1"
        using unat_plus_le [of offset 1 "data_section_size db"] fit by simp
      moreover have "unat (29 + ucast b :: u32) = 29 + unat b"
        using unat_plus_le [of 29 "ucast b :: u32" 1000] unat_u8_less [of b]
        by (simp add: unat_ucast_up)
      ultimately show ?thesis using 1 False fit less_trans [OF unat_u8_less [of b], of 16843008]
        by (simp add: decode_size_def)
    qed (simp add: decode_size_def 1)
  next
    case 2
    show ?thesis
    proof (cases "offset > data_section_size db - 2")
      case False
      then have fit: "unat offset + 2 \<le> unat (data_section_size db)"
        using fits_const_iff [OF le(2), of offset] by simp
      then obtain p v where "section_ptr db offset = Some p" "get_uint16 (mapping db) p = Some v"
        "unat v < 65536"
        using wf_section_block [OF wf fit] get_uint16_ok by metis
      moreover have "unat (offset + 2) = unat offset + 2"
        using unat_plus_le [of offset 2 "data_section_size db"] fit by simp
      moreover have "unat (285 + v) = 285 + unat v"
        using unat_plus_le [of 285 v 100000] \<open>unat v < 65536\<close> by simp
      ultimately show ?thesis using 2 False fit by (simp add: decode_size_def)
    qed (simp add: decode_size_def 2)
  next
    case 3
    show ?thesis
    proof (cases "offset > data_section_size db - 3")
      case False
      then have fit: "unat offset + 3 \<le> unat (data_section_size db)"
        using fits_const_iff [OF le(3), of offset] by simp
      then obtain p v where "section_ptr db offset = Some p" "get_uint24 (mapping db) p = Some v"
        "unat v < 16777216"
        using wf_section_block [OF wf fit] get_uint24_ok by metis
      moreover have "unat (offset + 3) = unat offset + 3"
        using unat_plus_le [of offset 3 "data_section_size db"] fit by simp
      moreover have "unat (65821 + v) = 65821 + unat v"
        using unat_plus_le [of 65821 v 20000000] \<open>unat v < 16777216\<close> by simp
      ultimately show ?thesis using 3 False fit by (simp add: decode_size_def)
    qed (simp add: decode_size_def 3)
  next
    case 4
    have "unat (ucast ctrl AND 31 :: u32) < 32" by (simp add: unat_size_bits)
    with 4 off show ?thesis by (simp add: decode_size_def)
  qed
qed

text \<open>Error results of the decoder: \<open>MMDB_INVALID_DATA_ERROR\<close> and nothing else.\<close>

definition decode_post :: "(MMDB_entry_data_s \<Rightarrow> bool) \<Rightarrow> mmdb_status \<Rightarrow> MMDB_entry_data_s \<Rightarrow> bool" where
  "decode_post P st e \<longleftrightarrow> (if st = MMDB_SUCCESS then P e else st = MMDB_INVALID_DATA_ERROR)"

lemma decode_post_simps [simp]:
  "decode_post P MMDB_SUCCESS e = P e"
  "decode_post P MMDB_INVALID_DATA_ERROR e"
  by (simp_all add: decode_post_def)

lemma decode_payload_wp:
  assumes wf: "wf_section db" and fit: "unat offset + unat sz \<le> unat (data_section_size db)"
    and e: "has_data e" "ed_type e = type" and small: "unat sz < 16843037"
    and type: "type \<notin> {MMDB_DATA_TYPE_POINTER, MMDB_DATA_TYPE_BOOLEAN}"
  shows "wp (decode_payload db offset sz type e) (decode_post (\<lambda>e'.
    has_data e' \<and> ed_offset e' = ed_offset e \<and> ed_type e' = type \<and>
    offset_to_next e' = offset + sz \<and> value_ok db e'))"
proof -
  obtain p where p: "section_ptr db offset = Some p" and len: "p + unat sz \<le> length (mapping db)"
    using wf_section_block [OF wf fit] by blast
  obtain v where v: "get_uintX (mapping db) p (unat sz) = Some v" using get_uintX_ok [OF len] by blast
  obtain i where i: "get_sintX (mapping db) p (unat sz) = Some i" using get_sintX_ok [OF len] by blast
  obtain w where w: "get_uint128 (mapping db) p (unat sz) = Some w" using get_uint128_ok [OF len] by blast
  have f: "sz = 4 \<Longrightarrow> \<exists>f. get_ieee754_float MMDB_LITTLE_ENDIAN (mapping db) p = Some f"
    using len get_float_ok by simp
  have d: "sz = 8 \<Longrightarrow> \<exists>d. get_ieee754_double MMDB_LITTLE_ENDIAN (mapping db) p = Some d"
    using len get_double_ok by simp
  show ?thesis
    using e type f d len v i w small
    by (auto simp: decode_payload_def Let_def p value_ok_def string_ok_def)
qed

lemma psize_cases: "unat ((drop_bit 3 (ucast (c :: u8)) AND 3) + 1 :: u32) \<in> {1, 2, 3, 4}"
proof -
  have "k mod 4 + 1 \<in> {1, 2, 3, 4}" for k :: nat by auto
  then show ?thesis unfolding unat_psize .
qed

text \<open>What \<open>decode_typed\<close> and \<open>decode_sized\<close> establish, from \<open>offset\<close> on.\<close>

definition typed_post :: "MMDB_s \<Rightarrow> u32 \<Rightarrow> u32 \<Rightarrow> u32 \<Rightarrow> MMDB_entry_data_s \<Rightarrow> bool" where
  "typed_post db start type offset e \<longleftrightarrow>
     has_data e \<and> ed_offset e = start \<and> ed_type e = type \<and> unat offset \<le> unat (offset_to_next e) \<and>
     unat (offset_to_next e) \<le> unat (data_section_size db) \<and> value_ok db e"

lemma decode_sized_wp:
  assumes wf: "wf_section db" and off: "unat offset \<le> unat (data_section_size db)"
    and e: "has_data e" "ed_type e = type" and type: "type \<noteq> MMDB_DATA_TYPE_POINTER"
    and small: "unat sz < 16843037"
  shows "wp (decode_sized db type e sz offset) (decode_post (typed_post db (ed_offset e) type offset))"
proof -
  consider "type = MMDB_DATA_TYPE_MAP \<or> type = MMDB_DATA_TYPE_ARRAY" | "type = MMDB_DATA_TYPE_BOOLEAN"
    | "type \<notin> {MMDB_DATA_TYPE_MAP, MMDB_DATA_TYPE_ARRAY, MMDB_DATA_TYPE_BOOLEAN}"
      "offset > data_section_size db - sz \<or> data_section_size db < sz"
    | "type \<notin> {MMDB_DATA_TYPE_MAP, MMDB_DATA_TYPE_ARRAY, MMDB_DATA_TYPE_BOOLEAN}"
      "\<not> (offset > data_section_size db - sz \<or> data_section_size db < sz)"
    by blast
  then show ?thesis
  proof cases
    case 1
    then show ?thesis using e off by (auto simp: decode_sized_def typed_post_def value_ok_def)
  next
    case 2
    then show ?thesis using e off by (auto simp: decode_sized_def typed_post_def value_ok_def)
  next
    case 3
    then show ?thesis by (auto simp: decode_sized_def)
  next
    case 4
    then have fit: "unat offset + unat sz \<le> unat (data_section_size db)" by (simp only: fits_iff)
    have "wp (decode_payload db offset sz type e) (decode_post (typed_post db (ed_offset e) type offset))"
      by (rule wp_mono [OF decode_payload_wp [OF wf fit e small]])
        (use 4 type fit in \<open>auto simp: decode_post_def typed_post_def unat_plus_le [OF fit]\<close>)
    with 4 show ?thesis by (simp add: decode_sized_def)
  qed
qed

lemma decode_typed_wp:
  assumes wf: "wf_section db" and off: "unat offset \<le> unat (data_section_size db)"
    and e: "has_data e"
  shows "wp (decode_typed db ctrl offset type e) (decode_post (typed_post db (ed_offset e) type offset))"
proof (cases "type = MMDB_DATA_TYPE_POINTER")
  case True
  let ?psize = "(drop_bit 3 (ucast ctrl) AND 3) + 1 :: u32"
  show ?thesis
  proof (cases "offset > data_section_size db - ?psize \<or> data_section_size db < ?psize")
    case False
    then have fit: "unat offset + unat ?psize \<le> unat (data_section_size db)"
      by (simp only: fits_iff)
    obtain p where "section_ptr db offset = Some p" and "p + unat ?psize \<le> length (mapping db)"
      using wf_section_block [OF wf fit] by blast
    moreover from this obtain v where "get_ptr_from ctrl (mapping db) p (unat ?psize) = Some v"
      using get_ptr_from_ok [OF psize_cases] by blast
    moreover have "unat (offset + ?psize) = unat offset + unat ?psize"
      using fit by (rule unat_plus_le)
    ultimately show ?thesis
      using True False fit e by (simp add: decode_typed_def Let_def value_ok_def typed_post_def)
  qed (use True e in \<open>auto simp: decode_typed_def Let_def\<close>)
next
  case False
  let ?e = "e\<lparr>ed_type := type\<rparr>"
  have "wp (chk_with (\<lambda>_. ?e) (decode_size db ctrl offset) (\<lambda>(sz, offset). decode_sized db type ?e sz offset))
      (decode_post (typed_post db (ed_offset e) type offset))"
    unfolding wp_chk_with
  proof (rule wp_mono [OF decode_size_wp [OF wf off]], clarify)
    fix st and sz offset' :: u32
    assume st: "st = MMDB_SUCCESS \<or> st = MMDB_INVALID_DATA_ERROR"
      and ok: "st = MMDB_SUCCESS \<longrightarrow> unat offset \<le> unat offset' \<and>
        unat offset' \<le> unat (data_section_size db) \<and> unat sz < 16843037"
    show "if st = MMDB_SUCCESS
        then wp (decode_sized db type ?e sz offset') (decode_post (typed_post db (ed_offset e) type offset))
        else decode_post (typed_post db (ed_offset e) type offset) st ?e"
    proof (cases "st = MMDB_SUCCESS")
      case True
      have "wp (decode_sized db type ?e sz offset') (decode_post (typed_post db (ed_offset e) type offset))"
        by (rule wp_mono [OF decode_sized_wp [OF wf, of offset' ?e type sz]])
          (use True ok e False in \<open>auto simp: decode_post_def typed_post_def\<close>)
      with True show ?thesis by simp
    qed (use st in simp)
  qed
  with False show ?thesis by (simp add: decode_typed_def Let_def)
qed

lemma decode_one_wp:
  assumes wf: "wf_section db"
  shows "wp (decode_one db offset e) (decode_post (decoded_at db offset))"
proof (cases "offset > data_section_size db - 1")
  case True
  then show ?thesis by (simp add: decode_one_def)
next
  case False
  have three: "3 \<le> unat (data_section_size db)" using wf by (elim wf_sectionE)
  then have le: "1 \<le> data_section_size db" and ne: "data_section_size db \<noteq> 0"
    by (auto simp: word_le_nat_alt)
  have fit: "unat offset + 1 \<le> unat (data_section_size db)"
    using fits_const_iff [OF le, of offset] False by simp
  then obtain ctrl where ctrl: "section_rd db offset = Some ctrl"
    using section_rd_ok [OF wf, of offset] by auto
  have next1: "unat (offset + 1) = unat offset + 1"
    using unat_plus_le [of offset 1 "data_section_size db"] fit by simp
  let ?e = "e\<lparr>ed_offset := offset, has_data := True\<rparr>"
  have typed: "wp (decode_typed db ctrl o' type ?e) (decode_post (decoded_at db offset))"
    if "unat offset < unat o'" "unat o' \<le> unat (data_section_size db)" for o' type
    by (rule wp_mono [OF decode_typed_wp [OF wf that(2)]])
      (use that in \<open>auto simp: decode_post_def typed_post_def decoded_at_def\<close>)
  show ?thesis
  proof (cases "drop_bit 5 (ucast ctrl) AND 7 = MMDB_DATA_TYPE_EXTENDED")
    case ext: True
    show ?thesis
    proof (cases "offset + 1 > data_section_size db - 1")
      case inside: False
      then have fit2: "unat (offset + 1) + 1 \<le> unat (data_section_size db)"
        using fits_const_iff [OF le, of "offset + 1"] by simp
      then obtain raw where raw: "section_rd db (offset + 1) = Some raw"
        using section_rd_ok [OF wf, of "offset + 1"] by auto
      have "unat (offset + 1 + 1) = unat offset + 2"
        using unat_plus_le [of "offset + 1" 1 "data_section_size db"] fit2 next1 by simp
      then show ?thesis
        using ext inside ctrl raw False ne typed [of "offset + 1 + 1"] fit2 next1
        by (simp add: decode_one_def Let_def)
    qed (use ext ctrl False ne in \<open>simp add: decode_one_def Let_def\<close>)
  next
    case False
    then show ?thesis
      using ctrl \<open>\<not> offset > data_section_size db - 1\<close> ne typed [of "offset + 1"] fit next1
      by (simp add: decode_one_def Let_def)
  qed
qed

text \<open>
  The result of a successful \<open>decode_one_follow\<close>: an entry that is not a pointer, and whose
  offset is where its type is decoded.
\<close>

definition followed :: "MMDB_s \<Rightarrow> MMDB_entry_data_s \<Rightarrow> bool" where
  "followed db e \<longleftrightarrow> has_data e \<and> ed_type e \<noteq> MMDB_DATA_TYPE_POINTER \<and> value_ok db e \<and>
     unat (offset_to_next e) \<le> unat (data_section_size db) \<and>
     unat (ed_offset e) < unat (data_section_size db) \<and>
     (\<exists>e0 e1. decode_one db (ed_offset e) e0 = Some (MMDB_SUCCESS, e1) \<and> ed_type e1 = ed_type e)"

lemma value_ok_next [simp]: "value_ok db (e\<lparr>offset_to_next := n\<rparr>) = value_ok db e"
  by (simp add: value_ok_def)

lemma value_ok_pointer:
  "value_ok db e \<Longrightarrow> ed_type e = MMDB_DATA_TYPE_POINTER \<Longrightarrow> \<exists>v. ed_value e = Pointer_val v"
  by (simp add: value_ok_def)

lemma decoded_followed:
  assumes wf: "wf_section db" and dec: "decode_one db offset e0 = Some (MMDB_SUCCESS, e)"
    and type: "ed_type e \<noteq> MMDB_DATA_TYPE_POINTER" and n: "unat n \<le> unat (data_section_size db)"
  shows "followed db e" and "followed db (e\<lparr>offset_to_next := n\<rparr>)"
proof -
  have "decoded_at db offset e" using decode_one_wp [OF wf, of offset e0] dec by simp
  then show "followed db e" "followed db (e\<lparr>offset_to_next := n\<rparr>)"
    using dec type n by (auto simp: decoded_at_def followed_def)
qed

lemma decode_one_follow_wp:
  assumes wf: "wf_section db"
  shows "wp (decode_one_follow db offset e) (decode_post (followed db))"
proof -
  obtain st x where dec: "decode_one db offset e = Some (st, x)"
    and post: "decode_post (decoded_at db offset) st x"
    using decode_one_wp [OF wf, of offset e] by (auto simp: wp_iff_ex)
  consider "st \<noteq> MMDB_SUCCESS" | "st = MMDB_SUCCESS" "ed_type x \<noteq> MMDB_DATA_TYPE_POINTER"
    | "st = MMDB_SUCCESS" "ed_type x = MMDB_DATA_TYPE_POINTER" by blast
  then show ?thesis
  proof cases
    case 1
    then show ?thesis using dec post by (simp add: decode_one_follow_def decode_post_def)
  next
    case 2
    then show ?thesis
      using dec decoded_followed [OF wf, of offset e x 0] by (simp add: decode_one_follow_def)
  next
    case 3
    then have x: "decoded_at db offset x" using post by simp
    then obtain v where v: "ed_value x = Pointer_val v"
      using 3 value_ok_pointer by (auto simp: decoded_at_def)
    obtain st' y where dec': "decode_one db v x = Some (st', y)"
      and post': "decode_post (decoded_at db v) st' y"
      using decode_one_wp [OF wf, of v x] by (auto simp: wp_iff_ex)
    have "unat (offset_to_next x) \<le> unat (data_section_size db)" using x by (simp add: decoded_at_def)
    then show ?thesis
      using 3 dec dec' post' v decoded_followed [OF wf, of v x y "offset_to_next x"]
      by (auto simp: decode_one_follow_def decode_post_def)
  qed
qed

end
