(* ===== verification/Data_Format.thy ===== *)
theory Data_Format
  imports Decoder
begin

text \<open>
  The abstract contract of the data section, stated on bytes and natural numbers, without
  reference to the decoder: how control bytes, sizes and pointers are encoded, the values a
  database can hold, and the relation \<open>represents\<close> between an offset of the data section and
  the value stored there. The second half shows that \<open>decode_one\<close> implements the encoding of
  entries; the traversals are related to \<open>represents\<close> in \<open>Lookup_Path\<close> and \<open>Entry_List\<close>.
\<close>

section \<open>Values\<close>

datatype mmdb_value =
    V_string bytes
  | V_bytes bytes
  | V_double u64
  | V_float u32
  | V_uint16 u16
  | V_uint32 u32
  | V_int32 u32
  | V_uint64 u64
  | V_uint128 u128
  | V_bool bool
  | V_map "(bytes \<times> mmdb_value) list"
  | V_array "mmdb_value list"

text \<open>The label of a value: what one entry says about it, without its children.\<close>

datatype head =
    H_scalar mmdb_value
  | H_map nat
  | H_array nat

fun head_of :: "mmdb_value \<Rightarrow> head" where
  "head_of (V_map kvs) = H_map (length kvs)"
| "head_of (V_array vs) = H_array (length vs)"
| "head_of v = H_scalar v"

text \<open>The labels of a value in preorder, keys before their values.\<close>

fun flatten :: "mmdb_value \<Rightarrow> head list" where
  "flatten (V_map kvs) =
     H_map (length kvs) # concat (map (\<lambda>(k, v). H_scalar (V_string k) # flatten v) kvs)"
| "flatten (V_array vs) = H_array (length vs) # concat (map flatten vs)"
| "flatten v = [H_scalar v]"

fun is_container :: "mmdb_value \<Rightarrow> bool" where
  "is_container (V_map kvs) = True"
| "is_container (V_array vs) = True"
| "is_container v = False"

section \<open>Encoding of control bytes, sizes and pointers\<close>

definition size_limit :: nat where "size_limit = 65821 + 2 ^ 24"

definition size_code :: "nat \<Rightarrow> nat \<times> bytes" where
  "size_code n =
    (if n < 29 then (n, [])
     else if n < 285 then (29, be_bytes 1 (n - 29))
     else if n < 65821 then (30, be_bytes 2 (n - 285))
     else (31, be_bytes 3 (n - 65821)))"

definition header_bytes :: "nat \<Rightarrow> nat \<Rightarrow> bytes" where
  "header_bytes ty n =
    (let (s, ext) = size_code n in
     (if ty < 8 then [word_of_nat (32 * ty + s)] else [word_of_nat s, word_of_nat (ty - 7)]) @ ext)"

text \<open>The four encodings of a pointer; the longest one is open to every target.\<close>

definition pointer_code :: "nat \<Rightarrow> bytes \<Rightarrow> bool" where
  "pointer_code t bs \<longleftrightarrow>
     t < 2048 \<and> bs = word_of_nat (32 + t div 256) # be_bytes 1 (t mod 256) \<or>
     (2048 \<le> t \<and> t < 526336 \<and>
       bs = word_of_nat (40 + (t - 2048) div 65536) # be_bytes 2 ((t - 2048) mod 65536)) \<or>
     (526336 \<le> t \<and> t < 134744064 \<and>
       bs = word_of_nat (48 + (t - 526336) div 2 ^ 24) # be_bytes 3 ((t - 526336) mod 2 ^ 24)) \<or>
     (t < 2 ^ 32 \<and> bs = 56 # be_bytes 4 t)"

section \<open>The stored values of a section\<close>

definition section_bytes :: "MMDB_s \<Rightarrow> nat \<Rightarrow> bytes \<Rightarrow> bool" where
  "section_bytes db a bs \<longleftrightarrow>
     a + length bs \<le> unat (data_section_size db) \<and>
     (\<exists>p. data_section db = Some p \<and> bytes_at (mapping db) (p + a) bs)"

definition entry_header :: "MMDB_s \<Rightarrow> nat \<Rightarrow> nat \<Rightarrow> nat \<Rightarrow> nat \<Rightarrow> bool" where
  "entry_header db a ty n b \<longleftrightarrow>
     n < size_limit \<and> section_bytes db a (header_bytes ty n) \<and> b = a + length (header_bytes ty n)"

text \<open>A scalar of type \<open>ty\<close> whose payload is \<open>bs\<close>.\<close>

fun scalar_of :: "nat \<Rightarrow> bytes \<Rightarrow> mmdb_value option" where
  "scalar_of ty bs =
    (if ty = 2 then Some (V_string bs)
     else if ty = 3 then (if length bs = 8 then Some (V_double (word_of_nat (be bs))) else None)
     else if ty = 4 then Some (V_bytes bs)
     else if ty = 5 then (if length bs \<le> 2 then Some (V_uint16 (word_of_nat (be bs))) else None)
     else if ty = 6 then (if length bs \<le> 4 then Some (V_uint32 (word_of_nat (be bs))) else None)
     else if ty = 8 then (if length bs \<le> 4 then Some (V_int32 (word_of_nat (be bs))) else None)
     else if ty = 9 then (if length bs \<le> 8 then Some (V_uint64 (word_of_nat (be bs))) else None)
     else if ty = 10 then (if length bs \<le> 16 then Some (V_uint128 (word_of_nat (be bs))) else None)
     else if ty = 15 then (if length bs = 4 then Some (V_float (word_of_nat (be bs))) else None)
     else None)"

text \<open>
  \<open>represents db a v n h\<close>: at offset \<open>a\<close> of the data section the value \<open>v\<close> is stored, the next
  entry follows at \<open>n\<close>, and its nesting needs \<open>h\<close> levels of recursion, where following a
  pointer to a map or an array costs a level of its own. \<open>represents_seq\<close> and
  \<open>represents_pairs\<close> are the contents of arrays and maps. \<open>stored\<close> is the case of a value that
  is not reached through a pointer, and carries the offset of its content.
\<close>

inductive stored :: "MMDB_s \<Rightarrow> nat \<Rightarrow> mmdb_value \<Rightarrow> nat \<Rightarrow> nat \<Rightarrow> nat \<Rightarrow> bool"
  and represents :: "MMDB_s \<Rightarrow> nat \<Rightarrow> mmdb_value \<Rightarrow> nat \<Rightarrow> nat \<Rightarrow> bool"
  and represents_seq :: "MMDB_s \<Rightarrow> nat \<Rightarrow> mmdb_value list \<Rightarrow> nat \<Rightarrow> nat \<Rightarrow> bool"
  and represents_pairs :: "MMDB_s \<Rightarrow> nat \<Rightarrow> (bytes \<times> mmdb_value) list \<Rightarrow> nat \<Rightarrow> nat \<Rightarrow> bool"
  for db :: MMDB_s
where
  scalar: "entry_header db a ty (length bs) c \<Longrightarrow> section_bytes db c bs \<Longrightarrow>
    scalar_of ty bs = Some v \<Longrightarrow> stored db a v c (c + length bs) (Suc h)"
| boolean: "entry_header db a 14 k c \<Longrightarrow> stored db a (V_bool (k \<noteq> 0)) c c (Suc h)"
| array: "entry_header db a 11 (length vs) c \<Longrightarrow> represents_seq db c vs n h \<Longrightarrow>
    stored db a (V_array vs) c n (Suc h)"
| map: "entry_header db a 7 (length kvs) c \<Longrightarrow> represents_pairs db c kvs n h \<Longrightarrow>
    stored db a (V_map kvs) c n (Suc h)"
| direct: "stored db a v c n h \<Longrightarrow> represents db a v n h"
| pointer: "section_bytes db a bs \<Longrightarrow> pointer_code t bs \<Longrightarrow> stored db t v c m h \<Longrightarrow>
    represents db a v (a + length bs) (if is_container v then Suc h else h)"
| seq_Nil: "represents_seq db a [] a h"
| seq_Cons: "represents db a v m h \<Longrightarrow> represents_seq db m vs n h \<Longrightarrow>
    represents_seq db a (v # vs) n h"
| pairs_Nil: "represents_pairs db a [] a h"
| pairs_Cons: "represents db a (V_string k) m h \<Longrightarrow> represents db m v m' h \<Longrightarrow>
    represents_pairs db m' kvs n h \<Longrightarrow> represents_pairs db a ((k, v) # kvs) n h"

inductive_cases represents_seq_NilE: "represents_seq db a [] n h"
inductive_cases represents_seq_ConsE: "represents_seq db a (v # vs) n h"
inductive_cases represents_pairs_NilE: "represents_pairs db a [] n h"
inductive_cases represents_pairs_ConsE: "represents_pairs db a (kv # kvs) n h"
inductive_cases representsE: "represents db a v n h"

section \<open>The decoder implements the encoding\<close>

lemma section_bytes_append:
  "section_bytes db a (xs @ ys) \<Longrightarrow> section_bytes db a xs \<and> section_bytes db (a + length xs) ys"
  by (auto simp: section_bytes_def bytes_at_append add.assoc)

lemma section_bytes_Cons:
  "section_bytes db a (x # xs) \<Longrightarrow> section_bytes db a [x] \<and> section_bytes db (Suc a) xs"
  using section_bytes_append [of db a "[x]" xs] by simp

lemma section_bytes_le: "section_bytes db a bs \<Longrightarrow> a + length bs \<le> unat (data_section_size db)"
  by (simp add: section_bytes_def)

lemma unat_offset: "a \<le> unat (data_section_size db) \<Longrightarrow> unat (word_of_nat a :: u32) = a"
  using le_less_trans [OF _ unsigned_less [of "data_section_size db"]]
  by (intro unat_of_nat_u32) simp

lemma section_bytes_rd:
  "section_bytes db a [x] \<Longrightarrow> section_rd db (word_of_nat a) = Some x"
  using unat_offset [of a db] by (auto simp: section_bytes_def section_rd_def bytes_at_Cons)

lemma section_bytes_ptr:
  assumes "section_bytes db a bs"
  obtains p where "section_ptr db (word_of_nat a) = Some p" and "bytes_at (mapping db) p bs"
  using assms unat_offset [of a db] by (auto simp: section_bytes_def section_ptr_def)

lemma fits_offset:
  fixes k :: u32
  assumes "a + unat k \<le> unat (data_section_size db)"
  shows "\<not> (word_of_nat a > data_section_size db - k)" and "\<not> (data_section_size db < k)"
  using assms fits_iff [of "data_section_size db" k "word_of_nat a"] unat_offset [of a db] by auto

lemma of_nat_shift:
  "numeral k \<le> n \<Longrightarrow> (numeral k + word_of_nat (n - numeral k) :: 'a::len word) = word_of_nat n"
  by (metis le_add_diff_inverse of_nat_add of_nat_numeral)

lemma size_code_small: "size_code n = (s, ext) \<Longrightarrow> s < 32"
  by (auto simp: size_code_def split: if_splits)

lemma decode_size_code:
  assumes code: "size_code n = (s, ext)" and n: "n < size_limit"
    and ctrl: "unat ctrl mod 32 = s" and bytes: "section_bytes db a ext"
  shows "decode_size db ctrl (word_of_nat a) =
    Some (MMDB_SUCCESS, (word_of_nat n, word_of_nat (a + length ext)))"
proof -
  have bits: "(ucast ctrl AND 31 :: u32) = word_of_nat s"
    using ctrl size_code_small [OF code]
    by (simp add: word_unat_eq_iff unat_size_bits unat_of_nat_u32)
  note le = section_bytes_le [OF bytes]
  obtain p where p: "section_ptr db (word_of_nat a) = Some p" and at: "bytes_at (mapping db) p ext"
    using section_bytes_ptr [OF bytes] by blast
  consider "n < 29" | "29 \<le> n" "n < 285" | "285 \<le> n" "n < 65821" | "65821 \<le> n" by linarith
  then show ?thesis
  proof cases
    case 1
    then have s: "s = n" "ext = []" using code by (simp_all add: size_code_def)
    have "(word_of_nat n :: u32) \<notin> {29, 30, 31}"
      using 1 by (auto simp: word_unat_eq_iff unat_of_nat_u32)
    with s bits show ?thesis by (simp add: decode_size_def)
  next
    case 2
    then have s: "s = 29" "ext = be_bytes 1 (n - 29)" using code by (auto simp: size_code_def)
    then have "section_rd db (word_of_nat a) = Some (word_of_nat (n - 29))"
      using section_bytes_rd [of db a] bytes 2 by simp
    moreover have "(29 + ucast (word_of_nat (n - 29) :: u8) :: u32) = word_of_nat n"
      using 2 unat_plus_le [of 29 "ucast (word_of_nat (n - 29) :: u8) :: u32" 1000]
      by (simp add: word_unat_eq_iff unat_ucast_up unat_of_nat_u32 del: of_nat_diff)
    ultimately show ?thesis
      using s bits fits_offset [of a 1 db] le by (simp add: decode_size_def)
  next
    case 3
    then have s: "s = 30" "ext = be_bytes 2 (n - 285)" using code by (auto simp: size_code_def)
    then have "get_uint16 (mapping db) p = Some (word_of_nat (n - 285))"
      using get_uint16_be [OF at] 3 by (simp add: be_be_bytes)
    moreover have "(285 + word_of_nat (n - 285) :: u32) = word_of_nat n"
      using 3 by (intro of_nat_shift) simp
    ultimately show ?thesis
      using s bits fits_offset [of a 2 db] le p by (simp add: decode_size_def)
  next
    case 4
    then have s: "s = 31" "ext = be_bytes 3 (n - 65821)" using code by (auto simp: size_code_def)
    then have "get_uint24 (mapping db) p = Some (word_of_nat (n - 65821))"
      using get_uint24_be [OF at] 4 n by (simp add: be_be_bytes size_limit_def)
    moreover have "(65821 + word_of_nat (n - 65821) :: u32) = word_of_nat n"
      using 4 by (intro of_nat_shift) simp
    ultimately show ?thesis
      using s bits fits_offset [of a 3 db] le p by (simp add: decode_size_def)
  qed
qed

lemma decode_typed_header:
  assumes "type \<noteq> MMDB_DATA_TYPE_POINTER"
    and "size_code n = (s, ext)" and "n < size_limit"
    and "unat ctrl mod 32 = s" and "section_bytes db a ext"
  shows "decode_typed db ctrl (word_of_nat a) type e =
    decode_sized db type (e\<lparr>ed_type := type\<rparr>) (word_of_nat n) (word_of_nat (a + length ext))"
  using decode_size_code [OF assms(2-5)] assms(1) by (simp add: decode_typed_def Let_def)

lemma decode_one_ctrl:
  assumes ctrl: "section_bytes db a [ctrl]" and ty: "unat ctrl div 32 \<noteq> 0"
  shows "decode_one db (word_of_nat a) e =
    decode_typed db ctrl (word_of_nat (Suc a)) (word_of_nat (unat ctrl div 32))
      (e\<lparr>ed_offset := word_of_nat a, has_data := True\<rparr>)"
proof -
  have le: "a + 1 \<le> unat (data_section_size db)" using section_bytes_le [OF ctrl] by simp
  then have "data_section_size db \<noteq> 0" by auto
  moreover have "drop_bit 5 (ucast ctrl) AND 7 = (word_of_nat (unat ctrl div 32) :: u32)"
  proof -
    have "unat ctrl div 32 < 256" by (rule le_less_trans [OF div_le_dividend unat_u8_less])
    then show ?thesis by (simp add: word_unat_eq_iff unat_type_bits unat_of_nat_u32)
  qed
  moreover from this have "drop_bit 5 (ucast ctrl) AND 7 \<noteq> (0 :: u32)"
    using ty unat_type_bits [of ctrl] by (metis unat_0)
  ultimately show ?thesis
    using fits_offset [of a 1 db] le section_bytes_rd [OF ctrl]
    by (simp add: decode_one_def add.commute)
qed

lemma decode_one_ext:
  assumes bytes: "section_bytes db a [ctrl, raw]" and ty: "unat ctrl div 32 = 0"
  shows "decode_one db (word_of_nat a) e =
    decode_typed db ctrl (word_of_nat (a + 2)) (word_of_nat (7 + unat raw))
      (e\<lparr>ed_offset := word_of_nat a, has_data := True\<rparr>)"
proof -
  have le: "a + 2 \<le> unat (data_section_size db)" using section_bytes_le [OF bytes] by simp
  then have ne: "data_section_size db \<noteq> 0" by auto
  have zero: "drop_bit 5 (ucast ctrl) AND 7 = (0 :: u32)"
    using ty by (simp add: word_unat_eq_iff unat_type_bits)
  have next1: "(word_of_nat a + 1 :: u32) = word_of_nat (Suc a)" by (simp add: add.commute)
  have "section_bytes db a [ctrl]" "section_bytes db (Suc a) [raw]"
    using section_bytes_Cons [OF bytes] by auto
  then have rds: "section_rd db (word_of_nat a) = Some ctrl"
    "section_rd db (word_of_nat (Suc a)) = Some raw"
    by (auto simp only: section_bytes_rd)
  have type: "(word_of_int (get_ext_type (uint raw)) :: u32) = word_of_nat (7 + unat raw)"
    by (simp add: get_ext_type_def)
  have next2: "(word_of_nat (Suc a) + 1 :: u32) = word_of_nat (a + 2)" by simp
  show ?thesis
    unfolding decode_one_def Let_def next1 rds type
    using fits_offset [of a 1 db] fits_offset [of "Suc a" 1 db] le ne zero
    by (simp add: rds type next2 del: of_nat_Suc of_nat_add)
qed

lemma decode_one_header:
  assumes hd: "entry_header db a ty n c" and ty: "2 \<le> ty" "ty < 263"
  shows "decode_one db (word_of_nat a) e =
    decode_sized db (word_of_nat ty)
      (e\<lparr>ed_offset := word_of_nat a, has_data := True, ed_type := word_of_nat ty\<rparr>)
      (word_of_nat n) (word_of_nat c)"
proof -
  obtain s ext where code: "size_code n = (s, ext)" by fastforce
  have s: "s < 32" by (rule size_code_small [OF code])
  have n: "n < size_limit" and bytes: "section_bytes db a (header_bytes ty n)"
    and c: "c = a + length (header_bytes ty n)" using hd by (simp_all add: entry_header_def)
  have type: "(word_of_nat ty :: u32) \<noteq> MMDB_DATA_TYPE_POINTER"
    using ty by (simp add: word_unat_eq_iff unat_of_nat_u32)
  show ?thesis
  proof (cases "ty < 8")
    case True
    let ?ctrl = "word_of_nat (32 * ty + s) :: u8"
    have u: "unat ?ctrl = 32 * ty + s" using True s by (simp del: of_nat_add of_nat_mult)
    have bs: "header_bytes ty n = ?ctrl # ext" using True by (simp add: header_bytes_def code)
    then have "section_bytes db a [?ctrl]" "section_bytes db (Suc a) ext"
      using section_bytes_Cons bytes by (metis)+
    moreover have "unat ?ctrl div 32 = ty" "unat ?ctrl mod 32 = s" unfolding u using s by simp_all
    ultimately show ?thesis
      using decode_one_ctrl [of db a ?ctrl e] decode_typed_header [OF type code n, of ?ctrl db "Suc a"] ty c
      by (simp add: bs)
  next
    case False
    let ?ctrl = "word_of_nat s :: u8" and ?raw = "word_of_nat (ty - 7) :: u8"
    have u: "unat ?ctrl = s" "unat ?raw = ty - 7" using s ty by simp_all
    have bs: "header_bytes ty n = [?ctrl, ?raw] @ ext" using False by (simp add: header_bytes_def code)
    then have "section_bytes db a [?ctrl, ?raw]" "section_bytes db (a + 2) ext"
      using section_bytes_append [of db a "[?ctrl, ?raw]" ext] bytes by auto
    moreover have "7 + (ty - 7) = ty" using False by simp
    ultimately show ?thesis
      using decode_one_ext [of db a ?ctrl ?raw e] decode_typed_header [OF type code n, of ?ctrl db "a + 2"] s u c
      by (simp add: bs del: of_nat_add)
  qed
qed

section \<open>Labels of decoded entries\<close>

definition str_bytes :: "MMDB_s \<Rightarrow> c_str \<Rightarrow> nat \<Rightarrow> bytes option" where
  "str_bytes db s n =
    (case s of
       Empty_literal \<Rightarrow> if n = 0 then Some [] else None
     | Mapped p \<Rightarrow> rd_block (mapping db) p n)"

fun scalar_value :: "MMDB_s \<Rightarrow> u32 \<Rightarrow> u32 \<Rightarrow> entry_value \<Rightarrow> mmdb_value option" where
  "scalar_value db t n (Utf8_string_val s) =
     (if t = MMDB_DATA_TYPE_UTF8_STRING then map_option V_string (str_bytes db s (unat n)) else None)"
| "scalar_value db t n (Bytes_val p) =
     (if t = MMDB_DATA_TYPE_BYTES then map_option V_bytes (rd_block (mapping db) p (unat n)) else None)"
| "scalar_value db t n (Double_val w) = (if t = MMDB_DATA_TYPE_DOUBLE then Some (V_double w) else None)"
| "scalar_value db t n (Uint16_val w) = (if t = MMDB_DATA_TYPE_UINT16 then Some (V_uint16 w) else None)"
| "scalar_value db t n (Uint32_val w) = (if t = MMDB_DATA_TYPE_UINT32 then Some (V_uint32 w) else None)"
| "scalar_value db t n (Int32_val w) = (if t = MMDB_DATA_TYPE_INT32 then Some (V_int32 w) else None)"
| "scalar_value db t n (Uint64_val w) = (if t = MMDB_DATA_TYPE_UINT64 then Some (V_uint64 w) else None)"
| "scalar_value db t n (Uint128_val w) = (if t = MMDB_DATA_TYPE_UINT128 then Some (V_uint128 w) else None)"
| "scalar_value db t n (Boolean_val w) = (if t = MMDB_DATA_TYPE_BOOLEAN then Some (V_bool w) else None)"
| "scalar_value db t n (Float_val w) = (if t = MMDB_DATA_TYPE_FLOAT then Some (V_float w) else None)"
| "scalar_value db t n _ = None"

definition entry_head :: "MMDB_s \<Rightarrow> MMDB_entry_data_s \<Rightarrow> head option" where
  "entry_head db e =
    (if ed_type e = MMDB_DATA_TYPE_MAP then Some (H_map (unat (data_size e)))
     else if ed_type e = MMDB_DATA_TYPE_ARRAY then Some (H_array (unat (data_size e)))
     else map_option H_scalar (scalar_value db (ed_type e) (data_size e) (ed_value e)))"

text \<open>The entry of the value \<open>v\<close> stored at \<open>a\<close>, whose successor starts at \<open>n\<close>.\<close>

definition entry_for :: "MMDB_s \<Rightarrow> nat \<Rightarrow> mmdb_value \<Rightarrow> nat \<Rightarrow> MMDB_entry_data_s \<Rightarrow> bool" where
  "entry_for db a v n e \<longleftrightarrow>
     has_data e \<and> ed_offset e = word_of_nat a \<and> offset_to_next e = word_of_nat n \<and>
     entry_head db e = Some (head_of v) \<and> ed_type e \<noteq> MMDB_DATA_TYPE_POINTER"

lemma entry_head_next [simp]: "entry_head db (e\<lparr>offset_to_next := n\<rparr>) = entry_head db e"
  by (simp add: entry_head_def)

lemma decode_scalar:
  assumes hd: "entry_header db a ty (length bs) c" and bytes: "section_bytes db c bs"
    and v: "scalar_of ty bs = Some v"
  shows "\<exists>e'. decode_one db (word_of_nat a) e = Some (MMDB_SUCCESS, e') \<and>
    entry_for db a v (c + length bs) e' \<and> \<not> is_container v"
proof -
  have ty: "ty \<in> {2, 3, 4, 5, 6, 8, 9, 10, 15}" using v by (simp split: if_splits)
  have n: "unat (word_of_nat (length bs) :: u32) = length bs"
    using hd by (intro unat_of_nat_u32) (simp add: entry_header_def size_limit_def)
  obtain p where p: "section_ptr db (word_of_nat c) = Some p" and at: "bytes_at (mapping db) p bs"
    using section_bytes_ptr [OF bytes] by blast
  note le = section_bytes_le [OF bytes]
  let ?e = "e\<lparr>ed_offset := word_of_nat a, has_data := True, ed_type := word_of_nat ty\<rparr>"
  have one: "decode_one db (word_of_nat a) e =
      decode_payload db (word_of_nat c) (word_of_nat (length bs)) (word_of_nat ty) ?e"
    using decode_one_header [OF hd, of e] ty fits_offset [of c "word_of_nat (length bs)" db] le n
    by (auto simp: decode_sized_def)
  have reads: "get_uintX (mapping db) p (length bs) = Some (word_of_nat (be bs))"
    "get_sintX (mapping db) p (length bs) = Some (word_of_nat (be bs))"
    "get_uint128 (mapping db) p (length bs) = Some (word_of_nat (be bs))"
    using get_uintX_be [OF at] get_uint128_be [OF at]
    by (simp_all add: get_sintX_def ucast_word_of_nat)
  have floats: "length bs = 4 \<Longrightarrow> get_ieee754_float MMDB_LITTLE_ENDIAN (mapping db) p = Some (word_of_nat (be bs))"
    "length bs = 8 \<Longrightarrow> get_ieee754_double MMDB_LITTLE_ENDIAN (mapping db) p = Some (word_of_nat (be bs))"
    using get_ieee754_float_be [OF at] get_ieee754_double_be [OF at] by simp_all
  have cmp: "(word_of_nat (length bs) > (k :: u32)) = (length bs > unat k)" 
    "(word_of_nat (length bs) = (k :: u32)) = (length bs = unat k)" for k
    using n by (simp_all add: word_less_nat_alt word_unat_eq_iff)
  have str: "str_bytes db (if bs = [] then Empty_literal else Mapped p) (length bs) = Some bs"
    using rd_block_bytes_at [OF at refl] by (simp add: str_bytes_def)
  have blk: "rd_block (mapping db) p (length bs) = Some bs" using rd_block_bytes_at [OF at refl] .
  have scalar: "head_of v = H_scalar v" "\<not> is_container v"
    using v by (auto split: if_splits)
  show ?thesis
    using ty v floats scalar
    by (elim insertE emptyE)
      (simp_all add: one decode_payload_def Let_def p reads n cmp entry_for_def entry_head_def
        ucast_word_of_nat str blk split: if_splits)
qed

lemma word_of_nat_type: "ty < 263 \<Longrightarrow> (word_of_nat ty :: u32) = word_of_nat ty' \<longleftrightarrow> ty = ty'"
  if "ty' < 263"
  using that by (simp add: word_unat_eq_iff unat_of_nat_u32)

lemma decode_boolean:
  assumes "entry_header db a 14 k c"
  shows "\<exists>e'. decode_one db (word_of_nat a) e = Some (MMDB_SUCCESS, e') \<and>
    entry_for db a (V_bool (k \<noteq> 0)) c e'"
proof -
  have "unat (word_of_nat k :: u32) = k"
    using assms by (intro unat_of_nat_u32) (simp add: entry_header_def size_limit_def)
  then have "(word_of_nat k :: u32) \<noteq> 0 \<longleftrightarrow> k \<noteq> 0" by (simp add: word_unat_eq_iff)
  then show ?thesis
    using decode_one_header [OF assms, of e]
    by (simp add: decode_sized_def entry_for_def entry_head_def)
qed

lemma decode_container:
  assumes hd: "entry_header db a ty n c" and ty: "ty = 7 \<or> ty = 11"
  shows "\<exists>e'. decode_one db (word_of_nat a) e = Some (MMDB_SUCCESS, e') \<and>
    has_data e' \<and> ed_offset e' = word_of_nat a \<and> offset_to_next e' = word_of_nat c \<and>
    ed_type e' = word_of_nat ty \<and> unat (data_size e') = n"
proof -
  have "unat (word_of_nat n :: u32) = n"
    using hd by (intro unat_of_nat_u32) (simp add: entry_header_def size_limit_def)
  then show ?thesis
    using decode_one_header [OF hd, of e] ty by (auto simp: decode_sized_def)
qed

lemma decode_stored:
  assumes "stored db a v c n h"
  shows "\<exists>e'. decode_one db (word_of_nat a) e = Some (MMDB_SUCCESS, e') \<and>
    entry_for db a v (if is_container v then c else n) e'"
  using assms
proof (cases rule: stored.cases)
  case (scalar ty bs h)
  then show ?thesis using decode_scalar [of db a ty bs c v e] by auto
next
  case (boolean k h)
  then show ?thesis using decode_boolean [of db a k c e] by auto
next
  case (array vs h)
  then show ?thesis
    using decode_container [of db a 11 "length vs" c e]
    by (fastforce simp: entry_for_def entry_head_def)
next
  case (map kvs h)
  then show ?thesis
    using decode_container [of db a 7 "length kvs" c e]
    by (fastforce simp: entry_for_def entry_head_def)
qed

text \<open>A pointer entry: the four encodings of the target.\<close>

lemma ptr_ctrl_arith:
  assumes "x < 8" and "k < (4 :: nat)"
  shows "(32 + 8 * k + x) mod 8 = x" and "(32 + 8 * k + x) div 8 mod 4 = k"
    and "(32 + 8 * k + x) div 32 = 1"
proof -
  have e: "32 + 8 * k + x = x + (4 + k) * 8" by simp
  show "(32 + 8 * k + x) mod 8 = x" using assms(1) by (simp only: e mod_mult_self1 mod_less)
  have d: "(32 + 8 * k + x) div 8 = 4 + k"
    using assms(1) by (simp only: e) simp
  show "(32 + 8 * k + x) div 8 mod 4 = k" using assms(2) by (simp only: d) simp
  have "(32 + 8 * k + x) div 32 = (32 + 8 * k + x) div 8 div 4"
    using div_mult2_eq [of "32 + 8 * k + x" 8 4] by simp
  then show "(32 + 8 * k + x) div 32 = 1" using assms(2) by (simp add: d)
qed

lemma unat_ptr_ctrl: "x < 8 \<Longrightarrow> k < 4 \<Longrightarrow> unat (word_of_nat (32 + 8 * k + x) :: u8) = 32 + 8 * k + x"
  by (simp del: of_nat_add)

text \<open>The bits of a pointer's control byte: two for the size, three for the target.\<close>

lemma pointer_bytes_parts:
  assumes bs: "bs = word_of_nat (32 + 8 * k + x) # ext" and x: "x < 8" and k: "k < 4"
    and len: "length ext = k + 1"
    and val: "\<And>ctrl :: u8. \<And>m p. unat ctrl mod 8 = x \<Longrightarrow> bytes_at m p ext \<Longrightarrow>
      get_ptr_from ctrl m p (k + 1) = Some (word_of_nat t)"
  shows "\<exists>ctrl ext. bs = ctrl # ext \<and> unat ctrl div 32 = 1 \<and>
    unat ctrl div 8 mod 4 + 1 = length ext \<and>
    (\<forall>m p. bytes_at m p ext \<longrightarrow> get_ptr_from ctrl m p (length ext) = Some (word_of_nat t))"
proof -
  let ?ctrl = "word_of_nat (32 + 8 * k + x) :: u8"
  have u: "unat ?ctrl = 32 + 8 * k + x" using x k by (rule unat_ptr_ctrl)
  have "unat ?ctrl mod 8 = x" "unat ?ctrl div 8 mod 4 = k" "unat ?ctrl div 32 = 1"
    unfolding u using ptr_ctrl_arith [OF x k] by simp_all
  then show ?thesis using bs len val by (intro exI [of _ ?ctrl] exI [of _ ext]) simp
qed

lemma pointer_code_parts:
  assumes "pointer_code t bs"
  shows "\<exists>ctrl ext. bs = ctrl # ext \<and> unat ctrl div 32 = 1 \<and>
    unat ctrl div 8 mod 4 + 1 = length ext \<and>
    (\<forall>m p. bytes_at m p ext \<longrightarrow> get_ptr_from ctrl m p (length ext) = Some (word_of_nat t))"
  using assms unfolding pointer_code_def
proof (elim disjE conjE, goal_cases)
  case 1
  have b: "be (be_bytes 1 (t mod 256)) = t mod 256" by (rule be_be_bytes) simp
  show ?case
  proof (rule pointer_bytes_parts [of _ 0 "t div 256" "be_bytes 1 (t mod 256)"])
    fix ctrl :: u8 and m p
    assume "unat ctrl mod 8 = t div 256" and at: "bytes_at m p (be_bytes 1 (t mod 256))"
    then have "(unat ctrl mod 8) * 2 ^ 8 + be (be_bytes 1 (t mod 256)) = t"
      unfolding b using div_mult_mod_eq [of t 256] by simp
    with get_ptr_from_1 [OF at length_be_bytes, of ctrl]
    show "get_ptr_from ctrl m p (0 + 1) = Some (word_of_nat t)" by (simp only: add_0)
  qed (use 1 in \<open>auto simp: div_less_iff_less_mult\<close>)
next
  case 2
  let ?q = "t - 2048"
  have b: "be (be_bytes 2 (?q mod 65536)) = ?q mod 65536" by (rule be_be_bytes) simp
  show ?case
  proof (rule pointer_bytes_parts [of _ 1 "?q div 65536" "be_bytes 2 (?q mod 65536)"])
    fix ctrl :: u8 and m p
    assume "unat ctrl mod 8 = ?q div 65536" and at: "bytes_at m p (be_bytes 2 (?q mod 65536))"
    then have "2048 + (unat ctrl mod 8) * 2 ^ 16 + be (be_bytes 2 (?q mod 65536)) = t"
      unfolding b using div_mult_mod_eq [of ?q 65536] 2 by simp
    with get_ptr_from_2 [OF at length_be_bytes, of ctrl]
    show "get_ptr_from ctrl m p (1 + 1) = Some (word_of_nat t)" by (simp only: one_add_one)
  qed (use 2 in \<open>auto simp: div_less_iff_less_mult\<close>)
next
  case 3
  let ?q = "t - 526336"
  have b: "be (be_bytes 3 (?q mod 2 ^ 24)) = ?q mod 2 ^ 24" by (rule be_be_bytes) simp
  show ?case
  proof (rule pointer_bytes_parts [of _ 2 "?q div 2 ^ 24" "be_bytes 3 (?q mod 2 ^ 24)"])
    fix ctrl :: u8 and m p
    assume "unat ctrl mod 8 = ?q div 2 ^ 24" and at: "bytes_at m p (be_bytes 3 (?q mod 2 ^ 24))"
    then have "526336 + (unat ctrl mod 8) * 2 ^ 24 + be (be_bytes 3 (?q mod 2 ^ 24)) = t"
      unfolding b using div_mult_mod_eq [of ?q "2 ^ 24"] 3 by simp
    moreover have "(2 :: nat) + 1 = 3" by simp
    ultimately show "get_ptr_from ctrl m p (2 + 1) = Some (word_of_nat t)"
      using get_ptr_from_3 [OF at length_be_bytes, of ctrl] by (simp only:)
  qed (use 3 in \<open>auto simp: div_less_iff_less_mult\<close>)
next
  case 4
  have "get_ptr_from ctrl m p 4 = Some (word_of_nat t)" if "bytes_at m p (be_bytes 4 t)" for ctrl m p
    using get_ptr_from_4 [OF that, of ctrl] 4 by (simp add: be_be_bytes)
  with 4 show ?case by (intro pointer_bytes_parts [of _ 3 0 "be_bytes 4 t"]) simp_all
qed

lemma decode_pointer:
  assumes bytes: "section_bytes db a bs" and code: "pointer_code t bs"
  shows "\<exists>e'. decode_one db (word_of_nat a) e = Some (MMDB_SUCCESS, e') \<and>
    has_data e' \<and> ed_type e' = MMDB_DATA_TYPE_POINTER \<and> ed_value e' = Pointer_val (word_of_nat t) \<and>
    offset_to_next e' = word_of_nat (a + length bs)"
proof -
  obtain ctrl ext where bs: "bs = ctrl # ext" and ty: "unat ctrl div 32 = 1"
    and k: "unat ctrl div 8 mod 4 + 1 = length ext"
    and val: "\<And>m p. bytes_at m p ext \<Longrightarrow> get_ptr_from ctrl m p (length ext) = Some (word_of_nat t)"
    using pointer_code_parts [OF code] by metis
  let ?psize = "(drop_bit 3 (ucast ctrl) AND 3) + 1 :: u32"
  have psize: "unat ?psize = length ext" using k by (simp add: unat_psize)
  have "?psize = word_of_nat (unat ?psize)" by simp
  then have psize': "?psize = word_of_nat (length ext)" by (simp only: psize)
  have ext: "section_bytes db (Suc a) ext" and c: "section_bytes db a [ctrl]"
    using section_bytes_Cons bytes unfolding bs by blast+
  obtain p where p: "section_ptr db (word_of_nat (Suc a)) = Some p" and at: "bytes_at (mapping db) p ext"
    using section_bytes_ptr [OF ext] by blast
  have "\<not> (word_of_nat (Suc a) > data_section_size db - ?psize \<or> data_section_size db < ?psize)"
    using fits_offset [of "Suc a" ?psize db] section_bytes_le [OF ext] by (simp only: psize) simp
  then show ?thesis
    using decode_one_ctrl [OF c, of e] ty p val [OF at] psize
    by (simp add: decode_typed_def Let_def psize' bs)
qed

section \<open>Bounds of represented values\<close>

lemma header_bytes_length: "0 < length (header_bytes ty n)"
  by (simp add: header_bytes_def split: prod.split)

lemma entry_header_bounds:
  "entry_header db a ty n c \<Longrightarrow> a < c \<and> c \<le> unat (data_section_size db)"
  using header_bytes_length [of ty n] by (auto simp: entry_header_def section_bytes_def)

lemma pointer_code_length: "pointer_code t bs \<Longrightarrow> 0 < length bs"
  by (auto simp: pointer_code_def)

lemma represents_bounds:
  "stored db a v c n h \<Longrightarrow> a < c \<and> c \<le> n \<and> n \<le> unat (data_section_size db) \<and> 0 < h"
  "represents db a v n h \<Longrightarrow> a < n \<and> n \<le> unat (data_section_size db) \<and> 0 < h"
  "represents_seq db a vs n h \<Longrightarrow> a + length vs \<le> n \<and>
     (a \<le> unat (data_section_size db) \<longrightarrow> n \<le> unat (data_section_size db))"
  "represents_pairs db a kvs n h \<Longrightarrow> a + 2 * length kvs \<le> n \<and>
     (a \<le> unat (data_section_size db) \<longrightarrow> n \<le> unat (data_section_size db))"
proof (induction rule: stored_represents_represents_seq_represents_pairs.inducts)
  case (pointer a bs t v c m h)
  then show ?case using pointer_code_length [of t bs] by (auto dest: section_bytes_le)
qed (auto dest: entry_header_bounds section_bytes_le)

lemma stored_target: "stored db a v c n h \<Longrightarrow> a < 2 ^ 32"
proof -
  assume "stored db a v c n h"
  moreover have "unat (data_section_size db) < 2 ^ 32"
    using unsigned_less [of "data_section_size db"] by simp
  ultimately show ?thesis using represents_bounds(1) [of db a v c n h] by simp
qed

section \<open>Decoding represented values\<close>

lemma scalar_value_head:
  "scalar_value db t n ev = Some v \<Longrightarrow> head_of v = H_scalar v \<and> \<not> is_container v"
  by (cases ev) (auto split: if_splits)

lemma entry_head_cases:
  assumes "entry_head db e = Some (head_of v)"
  shows "(if ed_type e = MMDB_DATA_TYPE_MAP then \<exists>kvs. v = V_map kvs \<and> unat (data_size e) = length kvs
    else if ed_type e = MMDB_DATA_TYPE_ARRAY then \<exists>vs. v = V_array vs \<and> unat (data_size e) = length vs
    else \<not> is_container v \<and> scalar_value db (ed_type e) (data_size e) (ed_value e) = Some v)"
  using assms
  by (cases v) (auto simp: entry_head_def split: if_splits dest: scalar_value_head)

lemma entry_for_container:
  assumes "entry_for db a v n e"
  shows "ed_type e = MMDB_DATA_TYPE_MAP \<longleftrightarrow> (\<exists>kvs. v = V_map kvs)"
    and "ed_type e = MMDB_DATA_TYPE_ARRAY \<longleftrightarrow> (\<exists>vs. v = V_array vs)"
    and "ed_type e = MMDB_DATA_TYPE_MAP \<or> ed_type e = MMDB_DATA_TYPE_ARRAY \<longleftrightarrow> is_container v"
  using entry_head_cases [of db e v] assms
  by (auto simp: entry_for_def split: if_splits)

lemma entry_for_map: "entry_for db a (V_map kvs) n e \<Longrightarrow> unat (data_size e) = length kvs"
  using entry_head_cases [of db e "V_map kvs"] by (auto simp: entry_for_def split: if_splits)

lemma entry_for_array: "entry_for db a (V_array vs) n e \<Longrightarrow> unat (data_size e) = length vs"
  using entry_head_cases [of db e "V_array vs"] by (auto simp: entry_for_def split: if_splits)

lemma scalar_value_string:
  "scalar_value db t n ev = Some (V_string k) \<longleftrightarrow>
     (\<exists>s. ev = Utf8_string_val s \<and> t = MMDB_DATA_TYPE_UTF8_STRING \<and> str_bytes db s (unat n) = Some k)"
  by (cases ev) auto

lemma str_bytes_length: "str_bytes db s n = Some k \<Longrightarrow> length k = n"
  by (auto simp: str_bytes_def rd_block_def split: c_str.splits if_splits)

lemma entry_for_string:
  assumes "entry_for db a (V_string k) n e"
  obtains s where "ed_type e = MMDB_DATA_TYPE_UTF8_STRING" and "ed_value e = Utf8_string_val s"
    and "str_bytes db s (length k) = Some k" and "unat (data_size e) = length k"
proof -
  have "scalar_value db (ed_type e) (data_size e) (ed_value e) = Some (V_string k)"
    using entry_head_cases [of db e "V_string k"] assms by (auto simp: entry_for_def split: if_splits)
  then show ?thesis
    using that str_bytes_length [of db _ "unat (data_size e)" k] by (auto simp: scalar_value_string)
qed

text \<open>Without following: the successor of the entry, or of the pointer, is known.\<close>

lemma decode_one_represents:
  assumes "represents db a v n h"
  shows "\<exists>e'. decode_one db (word_of_nat a) e = Some (MMDB_SUCCESS, e') \<and>
    (ed_type e' = MMDB_DATA_TYPE_POINTER \<and> offset_to_next e' = word_of_nat n \<or>
     (\<exists>c. stored db a v c n h \<and> entry_for db a v (if is_container v then c else n) e'))"
  using assms
proof (cases rule: represents.cases)
  case (direct c)
  then show ?thesis using decode_stored [of db a v c n h e] by blast
next
  case (pointer bs t c m h')
  then show ?thesis using decode_pointer [of db a bs t e] by auto
qed

lemma decode_one_follow_represents:
  assumes "represents db a v n h"
  shows "\<exists>e' t c m h'. decode_one_follow db (word_of_nat a) e = Some (MMDB_SUCCESS, e') \<and>
    stored db t v c m h' \<and> h' \<le> h \<and> entry_for db t v (if is_container v then c else n) e'"
  using assms
proof (cases rule: represents.cases)
  case (direct c)
  then obtain e' where "decode_one db (word_of_nat a) e = Some (MMDB_SUCCESS, e')"
    and "entry_for db a v (if is_container v then c else n) e'"
    using decode_stored [of db a v c n h e] by auto
  with direct show ?thesis
    by (intro exI [of _ e'] exI [of _ a] exI [of _ c] exI [of _ n] exI [of _ h])
      (auto simp: decode_one_follow_def entry_for_def)
next
  case (pointer bs t c m h')
  obtain e1 where e1: "decode_one db (word_of_nat a) e = Some (MMDB_SUCCESS, e1)"
    "ed_type e1 = MMDB_DATA_TYPE_POINTER" "ed_value e1 = Pointer_val (word_of_nat t)"
    "offset_to_next e1 = word_of_nat n"
    using decode_pointer [of db a bs t e] pointer by auto
  obtain e2 where e2: "decode_one db (word_of_nat t) e1 = Some (MMDB_SUCCESS, e2)"
    and for_e2: "entry_for db t v (if is_container v then c else m) e2"
    using decode_stored [of db t v c m h' e1] pointer by auto
  note cont = entry_for_container(3) [OF for_e2]
  have np: "ed_type e2 \<noteq> MMDB_DATA_TYPE_POINTER" using for_e2 by (simp add: entry_for_def)
  let ?e' = "if is_container v then e2 else e2\<lparr>offset_to_next := word_of_nat n\<rparr>"
  have "decode_one_follow db (word_of_nat a) e = Some (MMDB_SUCCESS, ?e')"
    using e1 e2 np cont by (auto simp: decode_one_follow_def)
  moreover have "entry_for db t v (if is_container v then c else n) ?e'"
    using for_e2 by (auto simp: entry_for_def)
  moreover have "h' \<le> h" using pointer by (auto split: if_splits)
  moreover have "stored db t v c m h'" using pointer by simp
  ultimately show ?thesis by blast
qed

end
