(* ===== verification/Lookup_Path.thy ===== *)
theory Lookup_Path
  imports Data_Format
begin

text \<open>
  The lookup of a value by a path of keys and indexes: \<open>MMDB_get_value\<close>, \<open>MMDB_vget_value\<close>,
  \<open>MMDB_aget_value\<close>, \<open>lookup_path_in_array\<close>, \<open>lookup_path_in_map\<close> and \<open>skip_map_or_array\<close> of
  \<open>src/maxminddb.c\<close>. A C string is the list of its bytes before the terminator, and
  \<open>strtol\<close> is the one of a 64-bit platform in the C locale.

  The local variables \<open>key\<close> and \<open>value\<close> are not initialised in the code. The functions take
  the indeterminate content of the stack as an argument \<open>stack\<close>, one entry per declaration.
\<close>

section \<open>strtol\<close>

definition LONG_MAX :: int where "LONG_MAX = 9223372036854775807"
definition LONG_MIN :: int where "LONG_MIN = - 9223372036854775808"

definition is_space :: "u8 \<Rightarrow> bool" where
  "is_space c \<longleftrightarrow> c = 32 \<or> 9 \<le> c \<and> c \<le> 13"

definition is_digit :: "u8 \<Rightarrow> bool" where
  "is_digit c \<longleftrightarrow> 48 \<le> c \<and> c \<le> 57"

fun digits_value :: "int \<Rightarrow> bytes \<Rightarrow> int" where
  "digits_value acc [] = acc"
| "digits_value acc (c # cs) = digits_value (10 * acc + (uint c - 48)) cs"

text \<open>\<open>strtol(s, &end, 10)\<close>: the value, the rest \<open>end\<close> points to, and whether \<open>errno\<close> is \<open>ERANGE\<close>.\<close>

definition strtol10 :: "bytes \<Rightarrow> int \<times> bytes \<times> bool" where
  "strtol10 s =
    (let s1 = dropWhile is_space s;
         neg = (s1 \<noteq> [] \<and> hd s1 = 45);
         s2 = (if s1 \<noteq> [] \<and> (hd s1 = 45 \<or> hd s1 = 43) then tl s1 else s1);
         ds = takeWhile is_digit s2;
         rest = dropWhile is_digit s2;
         v = (if neg then - digits_value 0 ds else digits_value 0 ds)
     in if ds = [] then (0, s, False)
        else if v > LONG_MAX then (LONG_MAX, rest, True)
        else if v < LONG_MIN then (LONG_MIN, rest, True)
        else (v, rest, False))"

section \<open>skip_map_or_array\<close>

text \<open>The recursion is bounded by the depth, which every call increases up to the maximum.\<close>

function skip_map_or_array :: "MMDB_s \<Rightarrow> MMDB_entry_data_s \<Rightarrow> nat \<Rightarrow> MMDB_entry_data_s run" where
  "skip_map_or_array db entry_data depth =
    (if depth \<ge> MAXIMUM_DATA_STRUCTURE_DEPTH then Some (MMDB_INVALID_DATA_ERROR, entry_data)
     else if ed_type entry_data = MMDB_DATA_TYPE_MAP then
       c_repeat (unat (data_size entry_data)) (\<lambda>e.
         chk (decode_one db (offset_to_next e) e) (\<lambda>e.
         chk (decode_one db (offset_to_next e) e) (\<lambda>e.
         skip_map_or_array db e (depth + 1)))) entry_data
     else if ed_type entry_data = MMDB_DATA_TYPE_ARRAY then
       c_repeat (unat (data_size entry_data)) (\<lambda>e.
         chk (decode_one db (offset_to_next e) e) (\<lambda>e.
         skip_map_or_array db e (depth + 1))) entry_data
     else Some (MMDB_SUCCESS, entry_data))"
  by pat_completeness auto
termination by (relation "measure (\<lambda>(db, e, depth). MAXIMUM_DATA_STRUCTURE_DEPTH - depth)") auto

declare skip_map_or_array.simps [simp del]

section \<open>Lookup in a map and in an array\<close>

fun lookup_path_in_map_from ::
  "(nat \<Rightarrow> MMDB_entry_data_s) \<Rightarrow> bytes \<Rightarrow> MMDB_s \<Rightarrow> nat \<Rightarrow> u32 \<Rightarrow> MMDB_entry_data_s \<Rightarrow>
     MMDB_entry_data_s run" where
  "lookup_path_in_map_from stack path_elem db 0 offset entry_data =
     Some (MMDB_LOOKUP_PATH_DOES_NOT_MATCH_DATA_ERROR, zero_entry)"
| "lookup_path_in_map_from stack path_elem db (Suc n_left) offset entry_data =
    chk_with (\<lambda>_. entry_data) (decode_one_follow db offset (stack (2 * n_left))) (\<lambda>key.
      let offset_to_value = offset_to_next key in
      if ed_type key \<noteq> MMDB_DATA_TYPE_UTF8_STRING then Some (MMDB_INVALID_DATA_ERROR, entry_data)
      else do {
        matches \<leftarrow>
          (if unat (data_size key) = length path_elem then do {
             s \<leftarrow> union_utf8_string (ed_value key);
             bs \<leftarrow> str_bytes db s (length path_elem);
             Some (path_elem = bs) }
           else Some False);
        if matches then
          chk_with (\<lambda>_. entry_data) (decode_one_follow db offset_to_value (stack (2 * n_left + 1)))
            (\<lambda>value. Some (MMDB_SUCCESS, value))
        else
          chk_with (\<lambda>_. entry_data) (decode_one db offset_to_value (stack (2 * n_left + 1))) (\<lambda>value.
          chk_with (\<lambda>_. entry_data) (skip_map_or_array db value 0) (\<lambda>value.
          lookup_path_in_map_from stack path_elem db n_left (offset_to_next value) entry_data)) })"

definition lookup_path_in_map ::
  "(nat \<Rightarrow> MMDB_entry_data_s) \<Rightarrow> bytes \<Rightarrow> MMDB_s \<Rightarrow> MMDB_entry_data_s \<Rightarrow> MMDB_entry_data_s run" where
  "lookup_path_in_map stack path_elem db entry_data =
     lookup_path_in_map_from stack path_elem db (unat (data_size entry_data))
       (offset_to_next entry_data) entry_data"

definition lookup_path_in_array ::
  "(nat \<Rightarrow> MMDB_entry_data_s) \<Rightarrow> bytes \<Rightarrow> MMDB_s \<Rightarrow> MMDB_entry_data_s \<Rightarrow> MMDB_entry_data_s run" where
  "lookup_path_in_array stack path_elem db entry_data =
    (let n_elems = uint (data_size entry_data);
         (array_index, first_invalid, erange) = strtol10 path_elem
     in if erange then Some (MMDB_INVALID_LOOKUP_PATH_ERROR, entry_data)
        else
          let array_index' = (if array_index < 0 then array_index + n_elems else array_index) in
          if array_index' < 0 then Some (MMDB_LOOKUP_PATH_DOES_NOT_MATCH_DATA_ERROR, entry_data)
          else if first_invalid \<noteq> [] \<or> array_index' \<ge> n_elems then
            Some (MMDB_LOOKUP_PATH_DOES_NOT_MATCH_DATA_ERROR, entry_data)
          else
            chk (c_repeat (nat array_index') (\<lambda>e.
                   chk (decode_one db (offset_to_next e) e) (\<lambda>e.
                   skip_map_or_array db e 0)) entry_data) (\<lambda>e.
            chk_with (\<lambda>_. e) (decode_one_follow db (offset_to_next e) (stack 0)) (\<lambda>value.
            Some (MMDB_SUCCESS, value))))"

section \<open>MMDB_get_value\<close>

text \<open>\<open>stacks\<close> is the content of the stack at each of the calls of the loop.\<close>

fun aget_path ::
  "(nat \<Rightarrow> nat \<Rightarrow> MMDB_entry_data_s) \<Rightarrow> MMDB_s \<Rightarrow> bytes list \<Rightarrow> MMDB_entry_data_s \<Rightarrow>
     MMDB_entry_data_s run" where
  "aget_path stacks db [] entry_data = Some (MMDB_SUCCESS, entry_data)"
| "aget_path stacks db (path_elem # path) entry_data =
    (if ed_type entry_data = MMDB_DATA_TYPE_ARRAY then
       chk_with (\<lambda>_. zero_entry) (lookup_path_in_array (stacks (length path)) path_elem db entry_data)
         (aget_path stacks db path)
     else if ed_type entry_data = MMDB_DATA_TYPE_MAP then
       chk_with (\<lambda>_. zero_entry) (lookup_path_in_map (stacks (length path)) path_elem db entry_data)
         (aget_path stacks db path)
     else Some (MMDB_LOOKUP_PATH_DOES_NOT_MATCH_DATA_ERROR, zero_entry))"

definition MMDB_aget_value ::
  "(nat \<Rightarrow> nat \<Rightarrow> MMDB_entry_data_s) \<Rightarrow> MMDB_entry_s \<Rightarrow> bytes list \<Rightarrow> MMDB_entry_data_s run" where
  "MMDB_aget_value stacks start path =
    (let db = entry_mmdb start in
     chk (decode_one_follow db (entry_offset start) zero_entry) (\<lambda>entry_data.
       if \<not> has_data entry_data then Some (MMDB_INVALID_LOOKUP_PATH_ERROR, entry_data)
       else aget_path stacks db path entry_data))"

text \<open>The variable argument list is the list of its strings before the \<open>NULL\<close>.\<close>

definition path_length :: "bytes list \<Rightarrow> nat" where
  "path_length va_path = length va_path"

text \<open>
  The early errors leave the caller's \<open>entry_data\<close> as it is. \<open>calloc_ok\<close> says whether the
  allocation of the path array succeeds.
\<close>

definition MMDB_vget_value ::
  "bool \<Rightarrow> (nat \<Rightarrow> nat \<Rightarrow> MMDB_entry_data_s) \<Rightarrow> MMDB_entry_s \<Rightarrow> MMDB_entry_data_s \<Rightarrow> bytes list \<Rightarrow>
     MMDB_entry_data_s run" where
  "MMDB_vget_value calloc_ok stacks start entry_data va_path =
    (if path_length va_path = SIZE_MAX then Some (MMDB_INVALID_METADATA_ERROR, entry_data)
     else if \<not> calloc_ok then Some (MMDB_OUT_OF_MEMORY_ERROR, entry_data)
     else MMDB_aget_value stacks start va_path)"

definition MMDB_get_value ::
  "bool \<Rightarrow> (nat \<Rightarrow> nat \<Rightarrow> MMDB_entry_data_s) \<Rightarrow> MMDB_entry_s \<Rightarrow> MMDB_entry_data_s \<Rightarrow> bytes list \<Rightarrow>
     MMDB_entry_data_s run" where
  "MMDB_get_value calloc_ok stacks start entry_data path =
     MMDB_vget_value calloc_ok stacks start entry_data path"

section \<open>Memory safety\<close>

lemma decode_one_advances:
  assumes "wf_section db"
  shows "wp (decode_one db (offset_to_next e) e) (decode_post (\<lambda>e'. value_ok db e' \<and>
    unat (offset_to_next e) \<le> unat (offset_to_next e') \<and>
    unat (offset_to_next e') \<le> unat (data_section_size db)))"
  by (rule wp_mono [OF decode_one_wp [OF assms]]) (auto simp: decode_post_def decoded_at_def)

text \<open>Skipping a value never faults and leaves the cursor inside the section, not before its start.\<close>

abbreviation cursor_from :: "MMDB_s \<Rightarrow> nat \<Rightarrow> MMDB_entry_data_s \<Rightarrow> bool" where
  "cursor_from db a e \<equiv> a \<le> unat (offset_to_next e) \<and>
     unat (offset_to_next e) \<le> unat (data_section_size db)"

lemma decode_one_cursor:
  assumes "wf_section db" and "a \<le> unat (offset_to_next e)"
    and "\<And>e'. cursor_from db a e' \<Longrightarrow> wp (f e') (decode_post (cursor_from db a))"
  shows "wp (chk (decode_one db (offset_to_next e) e) f) (decode_post (cursor_from db a))"
  unfolding wp_chk_with
  by (rule wp_mono [OF decode_one_advances [OF assms(1)]])
    (use assms(2,3) in \<open>auto simp: decode_post_def intro: le_trans\<close>)

lemma wp_c_repeat_decode:
  assumes "\<And>e. I e \<Longrightarrow> wp (body e) (decode_post I)" and "I e"
  shows "wp (c_repeat n body e) (decode_post I)"
proof (rule wp_c_repeat [where I = I])
  fix e assume "I e"
  then have "wp (body e) (decode_post I)" by (rule assms(1))
  then show "wp (body e) (\<lambda>st y. if st = MMDB_SUCCESS then I y else decode_post I st y)"
    by (rule wp_mono) (auto simp: decode_post_def)
qed (use assms(2) in auto)

lemma skip_map_or_array_wp:
  assumes wf: "wf_section db"
  shows "cursor_from db a e \<Longrightarrow> wp (skip_map_or_array db e depth) (decode_post (cursor_from db a))"
  using wf
proof (induction db e depth rule: skip_map_or_array.induct)
  case (1 db e depth)
  note wf = \<open>wf_section db\<close>
  show ?case
    unfolding skip_map_or_array.simps [of db e depth]
    using 1 by (auto intro!: wp_c_repeat_decode decode_one_cursor)
qed

lemma value_ok_string:
  assumes "value_ok db e" and "ed_type e = MMDB_DATA_TYPE_UTF8_STRING" 
    and "unat (data_size e) = n"
  obtains s bs where "ed_value e = Utf8_string_val s" and "str_bytes db s n = Some bs"
proof -
  obtain s where s: "ed_value e = Utf8_string_val s" and "string_ok db s (data_size e)"
    using assms(1,2) by (auto simp: value_ok_def)
  then have "\<exists>bs. str_bytes db s n = Some bs"
    using assms(3) by (auto simp: string_ok_def str_bytes_def split: c_str.splits)
  with s that show ?thesis by blast
qed

text \<open>The statuses of a lookup.\<close>

definition lookup_post :: "(MMDB_entry_data_s \<Rightarrow> bool) \<Rightarrow> mmdb_status \<Rightarrow> MMDB_entry_data_s \<Rightarrow> bool" where
  "lookup_post P st e \<longleftrightarrow>
     (if st = MMDB_SUCCESS then P e
      else st \<in> {MMDB_INVALID_DATA_ERROR, MMDB_INVALID_LOOKUP_PATH_ERROR,
                 MMDB_LOOKUP_PATH_DOES_NOT_MATCH_DATA_ERROR})"

lemma lookup_post_simps [simp]:
  "lookup_post P MMDB_SUCCESS e = P e"
  "lookup_post P MMDB_INVALID_DATA_ERROR e"
  "lookup_post P MMDB_INVALID_LOOKUP_PATH_ERROR e"
  "lookup_post P MMDB_LOOKUP_PATH_DOES_NOT_MATCH_DATA_ERROR e"
  by (simp_all add: lookup_post_def)

lemma chk_decode_lookup:
  assumes "wp m (decode_post P)" and "\<And>x. P x \<Longrightarrow> wp (f x) (lookup_post Q)"
  shows "wp (chk_with g m f) (lookup_post Q)"
  unfolding wp_chk_with
  by (rule wp_mono [OF assms(1)]) (auto simp: decode_post_def intro: assms(2) split: if_splits)

lemma lookup_path_in_map_from_wp:
  assumes wf: "wf_section db"
  shows "wp (lookup_path_in_map_from stack k db n offset e) (lookup_post (followed db))"
proof (induction n arbitrary: offset)
  case 0
  then show ?case by simp
next
  case (Suc n)
  show ?case
    unfolding lookup_path_in_map_from.simps Let_def
  proof (rule chk_decode_lookup [OF decode_one_follow_wp [OF wf]])
    fix key
    assume key: "followed db key"
    have hit: "wp (chk_with (\<lambda>_. e) (decode_one_follow db off x) (\<lambda>value. Some (MMDB_SUCCESS, value)))
        (lookup_post (followed db))" for off x
      by (rule chk_decode_lookup [OF decode_one_follow_wp [OF wf]]) simp
    have miss: "wp (chk_with (\<lambda>_. e) (decode_one db off x) (\<lambda>value.
        chk_with (\<lambda>_. e) (skip_map_or_array db value 0) (\<lambda>value.
        lookup_path_in_map_from stack k db n (offset_to_next value) e))) (lookup_post (followed db))" for off x
      by (rule chk_decode_lookup [OF decode_one_wp [OF wf]],
          rule chk_decode_lookup [OF skip_map_or_array_wp [OF wf, where a = 0]])
        (auto simp: decoded_at_def intro: Suc.IH)
    show "wp (if ed_type key \<noteq> MMDB_DATA_TYPE_UTF8_STRING then Some (MMDB_INVALID_DATA_ERROR, e)
      else do {
        matches \<leftarrow>
          (if unat (data_size key) = length k then do {
             s \<leftarrow> union_utf8_string (ed_value key);
             bs \<leftarrow> str_bytes db s (length k);
             Some (k = bs) }
           else Some False);
        if matches then
          chk_with (\<lambda>_. e) (decode_one_follow db (offset_to_next key) (stack (2 * n + 1)))
            (\<lambda>value. Some (MMDB_SUCCESS, value))
        else
          chk_with (\<lambda>_. e) (decode_one db (offset_to_next key) (stack (2 * n + 1))) (\<lambda>value.
          chk_with (\<lambda>_. e) (skip_map_or_array db value 0) (\<lambda>value.
          lookup_path_in_map_from stack k db n (offset_to_next value) e)) }) (lookup_post (followed db))"
    proof (cases "ed_type key = MMDB_DATA_TYPE_UTF8_STRING \<and> unat (data_size key) = length k")
      case True
      then obtain s bs where "ed_value key = Utf8_string_val s" "str_bytes db s (length k) = Some bs"
        using value_ok_string [of db key "length k"] key by (auto simp: followed_def)
      with True show ?thesis using hit miss by simp
    next
      case False
      with miss show ?thesis by auto
    qed
  qed
qed

lemma lookup_path_in_array_wp:
  assumes wf: "wf_section db" and e: "unat (offset_to_next e) \<le> unat (data_section_size db)"
  shows "wp (lookup_path_in_array stack k db e) (lookup_post (followed db))"
proof -
  have "wp (c_repeat n (\<lambda>e. chk (decode_one db (offset_to_next e) e) (\<lambda>e. skip_map_or_array db e 0)) e)
      (decode_post (cursor_from db 0))" for n
    by (rule wp_c_repeat_decode [where I = "cursor_from db 0"],
        rule decode_one_cursor [OF wf, where a = 0], simp, rule skip_map_or_array_wp [OF wf], assumption)
      (use e in simp)
  then have "wp (chk (c_repeat n (\<lambda>e. chk (decode_one db (offset_to_next e) e) (\<lambda>e. skip_map_or_array db e 0)) e)
      (\<lambda>e. chk_with (\<lambda>_. e) (decode_one_follow db (offset_to_next e) (stack 0)) (\<lambda>value. Some (MMDB_SUCCESS, value))))
      (lookup_post (followed db))" for n
    by (rule chk_decode_lookup) (rule chk_decode_lookup [OF decode_one_follow_wp [OF wf]], simp)
  then show ?thesis
    by (simp add: lookup_path_in_array_def Let_def split: prod.split)
qed

lemma aget_path_wp:
  assumes wf: "wf_section db"
  shows "followed db e \<Longrightarrow> wp (aget_path stacks db path e)
    (\<lambda>st e'. lookup_post (followed db) st e' \<and> (st \<noteq> MMDB_SUCCESS \<longrightarrow> e' = zero_entry))"
proof (induction path arbitrary: e)
  case (Cons k path)
  have "unat (offset_to_next e) \<le> unat (data_section_size db)" using Cons.prems by (simp add: followed_def)
  note arr = lookup_path_in_array_wp [OF wf this, of "stacks (length path)" k]
  have map: "wp (lookup_path_in_map (stacks (length path)) k db e) (lookup_post (followed db))"
    unfolding lookup_path_in_map_def by (rule lookup_path_in_map_from_wp [OF wf])
  have step: "wp (chk_with (\<lambda>_. zero_entry) m (aget_path stacks db path))
      (\<lambda>st e'. lookup_post (followed db) st e' \<and> (st \<noteq> MMDB_SUCCESS \<longrightarrow> e' = zero_entry))"
    if "wp m (lookup_post (followed db))" for m
    unfolding wp_chk_with
  proof (rule wp_mono [OF that])
    fix st x
    assume "lookup_post (followed db) st x"
    then show "if st = MMDB_SUCCESS
      then wp (aget_path stacks db path x)
        (\<lambda>st e'. lookup_post (followed db) st e' \<and> (st \<noteq> MMDB_SUCCESS \<longrightarrow> e' = zero_entry))
      else lookup_post (followed db) st zero_entry \<and> (st \<noteq> MMDB_SUCCESS \<longrightarrow> zero_entry = zero_entry)"
      using Cons.IH [of x] by (auto simp: lookup_post_def [of _ st])
  qed
  show ?case using step [OF arr] step [OF map] by simp
qed simp

lemma MMDB_aget_value_wp:
  assumes "wf_section (entry_mmdb start)"
  shows "wp (MMDB_aget_value stacks start path) (lookup_post (followed (entry_mmdb start)))"
  unfolding MMDB_aget_value_def Let_def
proof (rule chk_decode_lookup [OF decode_one_follow_wp [OF assms]])
  fix e assume e: "followed (entry_mmdb start) e"
  have "wp (aget_path stacks (entry_mmdb start) path e) (lookup_post (followed (entry_mmdb start)))"
    by (rule wp_mono [OF aget_path_wp [OF assms e]]) simp
  then show "wp (if \<not> has_data e then Some (MMDB_INVALID_LOOKUP_PATH_ERROR, e)
      else aget_path stacks (entry_mmdb start) path e) (lookup_post (followed (entry_mmdb start)))"
    by simp
qed

section \<open>Skipping a stored value\<close>

text \<open>The successful results of a skip: the cursor stands behind the value.\<close>

abbreviation skips_to :: "nat \<Rightarrow> MMDB_entry_data_s run \<Rightarrow> bool" where
  "skips_to n m \<equiv> \<exists>e'. m = Some (MMDB_SUCCESS, e') \<and> offset_to_next e' = word_of_nat n"

lemma skip_stored:
  "stored db a v c n h \<Longrightarrow> (\<forall>e depth. entry_for db a v (if is_container v then c else n) e \<and>
     depth + h \<le> MAXIMUM_DATA_STRUCTURE_DEPTH \<longrightarrow> skips_to n (skip_map_or_array db e depth))"
  "represents db a v n h \<Longrightarrow> (\<forall>e depth. depth + h \<le> MAXIMUM_DATA_STRUCTURE_DEPTH \<longrightarrow>
     skips_to n (chk (decode_one db (word_of_nat a) e) (\<lambda>e. skip_map_or_array db e depth)))"
  "represents_seq db a vs n h \<Longrightarrow> (\<forall>e depth. offset_to_next e = word_of_nat a \<and>
     depth + h \<le> MAXIMUM_DATA_STRUCTURE_DEPTH \<longrightarrow>
     skips_to n (c_repeat (length vs) (\<lambda>e. chk (decode_one db (offset_to_next e) e)
       (\<lambda>e. skip_map_or_array db e depth)) e))"
  "represents_pairs db a kvs n h \<Longrightarrow> (\<forall>e depth. offset_to_next e = word_of_nat a \<and>
     depth + h \<le> MAXIMUM_DATA_STRUCTURE_DEPTH \<longrightarrow>
     skips_to n (c_repeat (length kvs) (\<lambda>e. chk (decode_one db (offset_to_next e) e) (\<lambda>e.
       chk (decode_one db (offset_to_next e) e) (\<lambda>e. skip_map_or_array db e depth))) e))"
proof (induction rule: stored_represents_represents_seq_represents_pairs.inducts)
  case (scalar a ty bs c v h)
  have "\<not> is_container v" using scalar(3) by (auto split: if_splits)
  then show ?case
    using entry_for_container [of db a v "c + length bs"]
    by (auto simp: skip_map_or_array.simps entry_for_def)
next
  case (boolean a k c h)
  then show ?case
    using entry_for_container [of db a "V_bool (k \<noteq> 0)" c]
    by (auto simp: skip_map_or_array.simps entry_for_def)
next
  case (array a vs c n h)
  show ?case
  proof (intro allI impI)
    fix e :: MMDB_entry_data_s and depth
    assume e: "entry_for db a (V_array vs) (if is_container (V_array vs) then c else n) e \<and>
      depth + Suc h \<le> MAXIMUM_DATA_STRUCTURE_DEPTH"
    then have "offset_to_next e = word_of_nat c" "unat (data_size e) = length vs"
      "ed_type e = MMDB_DATA_TYPE_ARRAY"
      using entry_for_array [of db a vs c e] entry_for_container(2) [of db a "V_array vs" c e]
      by (auto simp: entry_for_def)
    then show "skips_to n (skip_map_or_array db e depth)"
      using array(3) [rule_format, of e "depth + 1"] e
      by (simp add: skip_map_or_array.simps [of db e])
  qed
next
  case (map a kvs c n h)
  show ?case
  proof (intro allI impI)
    fix e :: MMDB_entry_data_s and depth
    assume e: "entry_for db a (V_map kvs) (if is_container (V_map kvs) then c else n) e \<and>
      depth + Suc h \<le> MAXIMUM_DATA_STRUCTURE_DEPTH"
    then have "offset_to_next e = word_of_nat c" "unat (data_size e) = length kvs"
      "ed_type e = MMDB_DATA_TYPE_MAP"
      using entry_for_map [of db a kvs c e] entry_for_container(1) [of db a "V_map kvs" c e]
      by (auto simp: entry_for_def)
    then show "skips_to n (skip_map_or_array db e depth)"
      using map(3) [rule_format, of e "depth + 1"] e
      by (simp add: skip_map_or_array.simps [of db e])
  qed
next
  case (direct a v c n h)
  show ?case
  proof (intro allI impI)
    fix e :: MMDB_entry_data_s and depth
    assume "depth + h \<le> MAXIMUM_DATA_STRUCTURE_DEPTH"
    moreover obtain e' where "decode_one db (word_of_nat a) e = Some (MMDB_SUCCESS, e')"
      "entry_for db a v (if is_container v then c else n) e'"
      using decode_stored [OF \<open>stored db a v c n h\<close>, of e] by blast
    ultimately show "skips_to n (chk (decode_one db (word_of_nat a) e) (\<lambda>e. skip_map_or_array db e depth))"
      using direct by auto
  qed
next
  case (pointer a bs t v c m h)
  have h: "0 < h" using represents_bounds(1) [OF \<open>stored db t v c m h\<close>] by simp
  show ?case
  proof (intro allI impI)
    fix e :: MMDB_entry_data_s and depth
    assume "depth + (if is_container v then Suc h else h) \<le> MAXIMUM_DATA_STRUCTURE_DEPTH"
    then have "depth < MAXIMUM_DATA_STRUCTURE_DEPTH" using h by (auto split: if_splits)
    then show "skips_to (a + length bs)
        (chk (decode_one db (word_of_nat a) e) (\<lambda>e. skip_map_or_array db e depth))"
      using decode_pointer [OF \<open>section_bytes db a bs\<close> \<open>pointer_code t bs\<close>, of e] by (auto simp: skip_map_or_array.simps)
  qed
next
  case (seq_Cons a v m h vs n)
  show ?case
  proof (intro allI impI)
    fix e :: MMDB_entry_data_s and depth
    assume e: "offset_to_next e = word_of_nat a \<and> depth + h \<le> MAXIMUM_DATA_STRUCTURE_DEPTH"
    then obtain e1 where "chk (decode_one db (word_of_nat a) e) (\<lambda>e. skip_map_or_array db e depth) =
        Some (MMDB_SUCCESS, e1)" and "offset_to_next e1 = word_of_nat m"
      using seq_Cons(2) [rule_format, of depth e] by blast
    then show "skips_to n (c_repeat (length (v # vs)) (\<lambda>e. chk (decode_one db (offset_to_next e) e)
        (\<lambda>e. skip_map_or_array db e depth)) e)"
      using e seq_Cons(4) [rule_format, of e1 depth] by simp
  qed
next
  case (pairs_Cons a k m h v m' kvs n)
  show ?case
  proof (intro allI impI)
    fix e :: MMDB_entry_data_s and depth
    assume e: "offset_to_next e = word_of_nat a \<and> depth + h \<le> MAXIMUM_DATA_STRUCTURE_DEPTH"
    obtain e1 where "decode_one db (word_of_nat a) e = Some (MMDB_SUCCESS, e1)"
      and "offset_to_next e1 = word_of_nat m"
      using decode_one_represents [OF \<open>represents db a (V_string k) m h\<close>, of e] by (auto simp: entry_for_def)
    moreover obtain e2 e3 where "decode_one db (word_of_nat m) e1 = Some (MMDB_SUCCESS, e2)"
      "skip_map_or_array db e2 depth = Some (MMDB_SUCCESS, e3)" "offset_to_next e3 = word_of_nat m'"
      using pairs_Cons(4) [rule_format, of depth e1] e by (auto simp: chk_with_def split: option.splits if_splits)
    moreover have "skips_to n (c_repeat (length kvs) (\<lambda>e. chk (decode_one db (offset_to_next e) e) (\<lambda>e.
       chk (decode_one db (offset_to_next e) e) (\<lambda>e. skip_map_or_array db e depth))) e3)"
      using pairs_Cons(6) e calculation by simp
    ultimately show "skips_to n (c_repeat (length ((k, v) # kvs)) (\<lambda>e. chk (decode_one db (offset_to_next e) e) (\<lambda>e.
       chk (decode_one db (offset_to_next e) e) (\<lambda>e. skip_map_or_array db e depth))) e)"
      using e by simp
  qed
qed auto

section \<open>The lookup implements its contract\<close>

text \<open>The position an index denotes in an array of \<open>n\<close> elements; negative ones count from its end.\<close>

definition array_position :: "bytes \<Rightarrow> nat \<Rightarrow> mmdb_status + nat" where
  "array_position p n =
    (let (i, rest, erange) = strtol10 p; j = (if i < 0 then i + int n else i)
     in if erange then Inl MMDB_INVALID_LOOKUP_PATH_ERROR
        else if j < 0 \<or> int n \<le> j \<or> rest \<noteq> [] then Inl MMDB_LOOKUP_PATH_DOES_NOT_MATCH_DATA_ERROR
        else Inr (nat j))"

text \<open>The value at a path: the first entry of a map with the key, the element of an array.\<close>

fun lookup_value :: "mmdb_value \<Rightarrow> bytes list \<Rightarrow> mmdb_status + mmdb_value" where
  "lookup_value v [] = Inr v"
| "lookup_value (V_array vs) (p # ps) =
    (case array_position p (length vs) of Inl st \<Rightarrow> Inl st | Inr j \<Rightarrow> lookup_value (vs ! j) ps)"
| "lookup_value (V_map kvs) (p # ps) =
    (case map_of kvs p of
       None \<Rightarrow> Inl MMDB_LOOKUP_PATH_DOES_NOT_MATCH_DATA_ERROR
     | Some v \<Rightarrow> lookup_value v ps)"
| "lookup_value _ (p # ps) = Inl MMDB_LOOKUP_PATH_DOES_NOT_MATCH_DATA_ERROR"

text \<open>The entry of a value that is stored somewhere in the section.\<close>

definition found_value :: "MMDB_s \<Rightarrow> nat \<Rightarrow> mmdb_value \<Rightarrow> MMDB_entry_data_s \<Rightarrow> bool" where
  "found_value db h v e \<longleftrightarrow>
     (\<exists>t c m h' n. stored db t v c m h' \<and> h' \<le> h \<and> entry_for db t v (if is_container v then c else n) e)"

lemma follow_finds:
  assumes "represents db a v n h"
  obtains e' where "decode_one_follow db (word_of_nat a) e = Some (MMDB_SUCCESS, e')"
    and "found_value db h v e'"
  using decode_one_follow_represents [OF assms, of e] unfolding found_value_def by blast

lemma found_value_mono: "found_value db h v e \<Longrightarrow> h \<le> h' \<Longrightarrow> found_value db h' v e"
  unfolding found_value_def by (meson le_trans)

lemma skip_elements:
  assumes "represents_seq db c vs n h" and "i \<le> length vs" and "offset_to_next e = word_of_nat c"
    and "h \<le> MAXIMUM_DATA_STRUCTURE_DEPTH"
  shows "\<exists>e' c'. c_repeat i (\<lambda>e. chk (decode_one db (offset_to_next e) e) (\<lambda>e. skip_map_or_array db e 0)) e =
      Some (MMDB_SUCCESS, e') \<and> offset_to_next e' = word_of_nat c' \<and> represents_seq db c' (drop i vs) n h"
  using assms
proof (induction i arbitrary: c vs e)
  case (Suc i)
  then obtain v vs' where vs: "vs = v # vs'" by (cases vs) auto
  then obtain m where v: "represents db c v m h" and vs': "represents_seq db m vs' n h"
    using Suc.prems(1) by (auto elim: represents_seq_ConsE)
  obtain e1 where "chk (decode_one db (word_of_nat c) e) (\<lambda>e. skip_map_or_array db e 0) =
      Some (MMDB_SUCCESS, e1)" and "offset_to_next e1 = word_of_nat m"
    using skip_stored(2) [OF v, rule_format, of 0 e] Suc.prems(4) by auto
  with Suc.IH [OF vs', of e1] Suc.prems vs show ?case by simp
qed auto

lemma represents_seq_drop:
  assumes "represents_seq db c (drop i vs) n h" and "i < length vs"
  obtains m where "represents db c (vs ! i) m h"
  using assms by (auto simp: Cons_nth_drop_Suc [symmetric] elim: represents_seq_ConsE)

lemma lookup_in_array:
  assumes seq: "represents_seq db c vs n h" and h: "h \<le> MAXIMUM_DATA_STRUCTURE_DEPTH"
    and e: "offset_to_next e = word_of_nat c" "unat (data_size e) = length vs"
  shows "wp (lookup_path_in_array stack p db e) (\<lambda>st e'.
    case array_position p (length vs) of
      Inl st' \<Rightarrow> st = st' \<and> st' \<noteq> MMDB_SUCCESS
    | Inr j \<Rightarrow> st = MMDB_SUCCESS \<and> found_value db h (vs ! j) e')"
proof -
  obtain i rest erange where s: "strtol10 p = (i, rest, erange)" by (metis prod_cases3)
  define j where "j = (if i < 0 then i + int (length vs) else i)"
  have size: "uint (data_size e) = int (length vs)" using e(2) by (metis uint_nat)
  show ?thesis
  proof (cases "erange \<or> j < 0 \<or> rest \<noteq> [] \<or> int (length vs) \<le> j")
    case True
    then show ?thesis
      by (auto simp: lookup_path_in_array_def array_position_def s size Let_def j_def)
  next
    case False
    then have pos: "array_position p (length vs) = Inr (nat j)" and lt: "nat j < length vs"
      by (auto simp: array_position_def s j_def Let_def)
    obtain e1 c1 where "c_repeat (nat j) (\<lambda>e. chk (decode_one db (offset_to_next e) e)
        (\<lambda>e. skip_map_or_array db e 0)) e = Some (MMDB_SUCCESS, e1)"
      and "offset_to_next e1 = word_of_nat c1" and rest: "represents_seq db c1 (drop (nat j) vs) n h"
      using skip_elements [OF seq _ e(1) h, of "nat j"] lt by auto
    moreover obtain m where "represents db c1 (vs ! nat j) m h"
      using represents_seq_drop [OF rest lt] .
    moreover from this obtain e2 where "decode_one_follow db (word_of_nat c1) (stack 0) = Some (MMDB_SUCCESS, e2)"
      and "found_value db h (vs ! nat j) e2" by (rule follow_finds)
    ultimately show ?thesis
      using False pos by (auto simp: lookup_path_in_array_def s size Let_def j_def [symmetric])
  qed
qed

lemma lookup_in_map:
  assumes "represents_pairs db c kvs n h" and h: "h \<le> MAXIMUM_DATA_STRUCTURE_DEPTH"
  shows "wp (lookup_path_in_map_from stack p db (length kvs) (word_of_nat c) e) (\<lambda>st e'.
    case map_of kvs p of
      None \<Rightarrow> st = MMDB_LOOKUP_PATH_DOES_NOT_MATCH_DATA_ERROR
    | Some v \<Rightarrow> st = MMDB_SUCCESS \<and> found_value db h v e')"
  using assms(1)
proof (induction kvs arbitrary: c)
  case (Cons kv kvs)
  obtain k v where kv: "kv = (k, v)" by fastforce
  obtain m m' where key: "represents db c (V_string k) m h" and val: "represents db m v m' h"
    and rest: "represents_pairs db m' kvs n h"
    using Cons.prems unfolding kv by (auto elim: represents_pairs_ConsE)
  let ?junk = "\<lambda>i. stack (2 * length kvs + i)"
  obtain e1 t where e1: "decode_one_follow db (word_of_nat c) (?junk 0) = Some (MMDB_SUCCESS, e1)"
    and for_e1: "entry_for db t (V_string k) m e1"
    using decode_one_follow_represents [OF key, of "?junk 0"] by auto
  obtain s where s: "ed_type e1 = MMDB_DATA_TYPE_UTF8_STRING" "ed_value e1 = Utf8_string_val s"
    "str_bytes db s (length k) = Some k" "unat (data_size e1) = length k"
    using for_e1 by (rule entry_for_string)
  have next1: "offset_to_next e1 = word_of_nat m" using for_e1 by (simp add: entry_for_def)
  show ?case
  proof (cases "k = p")
    case True
    obtain e2 where "decode_one_follow db (word_of_nat m) (?junk 1) = Some (MMDB_SUCCESS, e2)"
      and "found_value db h v e2" using val by (rule follow_finds)
    then show ?thesis using True e1 s next1 by (simp add: kv)
  next
    case False
    obtain e2 where "chk (decode_one db (word_of_nat m) (?junk 1)) (\<lambda>e. skip_map_or_array db e 0) =
        Some (MMDB_SUCCESS, e2)" and next2: "offset_to_next e2 = word_of_nat m'"
      using skip_stored(2) [OF val, rule_format, of 0 "?junk 1"] h by auto
    then obtain e3 where "decode_one db (word_of_nat m) (?junk 1) = Some (MMDB_SUCCESS, e3)"
      and "skip_map_or_array db e3 0 = Some (MMDB_SUCCESS, e2)"
      by (auto simp: chk_with_def split: option.splits if_splits)
    then show ?thesis using False e1 s next1 next2 Cons.IH [OF rest] by (auto simp: kv)
  qed
qed simp

lemma stored_arrayD: "stored db a (V_array vs) c n h \<Longrightarrow> \<exists>h'. h = Suc h' \<and> represents_seq db c vs n h'"
  by (erule stored.cases) (auto split: if_splits)

lemma stored_mapD: "stored db a (V_map kvs) c n h \<Longrightarrow> \<exists>h'. h = Suc h' \<and> represents_pairs db c kvs n h'"
  by (erule stored.cases) (auto split: if_splits)

lemma lookup_value_scalar: "\<not> is_container v \<Longrightarrow>
    lookup_value v (p # ps) = Inl MMDB_LOOKUP_PATH_DOES_NOT_MATCH_DATA_ERROR"
  by (cases v) simp_all

lemma aget_path_lookup:
  assumes "found_value db h v e" and "h \<le> MAXIMUM_DATA_STRUCTURE_DEPTH"
  shows "wp (aget_path stacks db path e) (\<lambda>st e'.
    case lookup_value v path of
      Inl st' \<Rightarrow> st = st' \<and> st' \<noteq> MMDB_SUCCESS \<and> e' = zero_entry
    | Inr v' \<Rightarrow> st = MMDB_SUCCESS \<and> found_value db h v' e')"
  using assms(1)
proof (induction path arbitrary: v e)
  case (Cons p path)
  obtain t c m h' n where st: "stored db t v c m h'" and h': "h' \<le> h"
    and e: "entry_for db t v (if is_container v then c else n) e"
    using Cons.prems by (auto simp: found_value_def)
  note cont = entry_for_container [OF e]
  let ?post = "\<lambda>path v st e'. case lookup_value v path of
      Inl st' \<Rightarrow> st = st' \<and> st' \<noteq> MMDB_SUCCESS \<and> e' = zero_entry
    | Inr v' \<Rightarrow> st = MMDB_SUCCESS \<and> found_value db h v' e'"
  have step: "wp (chk_with (\<lambda>_. zero_entry) m (aget_path stacks db path)) (?post (p # path) v)"
    if m: "wp m (\<lambda>st e'. case r of Inl st' \<Rightarrow> st = st' \<and> st' \<noteq> MMDB_SUCCESS
        | Inr w \<Rightarrow> st = MMDB_SUCCESS \<and> found_value db h w e')"
      and r: "lookup_value v (p # path) = (case r of Inl st \<Rightarrow> Inl st | Inr w \<Rightarrow> lookup_value w path)"
    for m r
  proof (cases r)
    case (Inl st')
    then show ?thesis
      unfolding wp_chk_with by (intro wp_mono [OF m]) (simp add: r)
  next
    case (Inr w)
    then show ?thesis
      unfolding wp_chk_with by (intro wp_mono [OF m]) (use Cons.IH in \<open>simp add: r\<close>)
  qed
  show ?case
  proof (cases "is_container v")
    case False
    then show ?thesis using cont by (auto simp: lookup_value_scalar)
  next
    case True
    then have e': "entry_for db t v c e" using e by simp
    then have nxt: "offset_to_next e = word_of_nat c" by (simp add: entry_for_def)
    from True consider vs where "v = V_array vs" | kvs where "v = V_map kvs" by (cases v) auto
    then show ?thesis
    proof cases
      case (1 vs)
      obtain h'' where "h' = Suc h''" and seq: "represents_seq db c vs m h''"
        using stored_arrayD st 1 by blast
      then have le: "h'' \<le> h" "h'' \<le> MAXIMUM_DATA_STRUCTURE_DEPTH" using h' assms(2) by auto
      have "unat (data_size e) = length vs" using entry_for_array e' 1 by blast
      note arr = lookup_in_array [OF seq le(2) nxt this, of "stacks (length path)" p]
      have "wp (chk_with (\<lambda>_. zero_entry) (lookup_path_in_array (stacks (length path)) p db e)
          (aget_path stacks db path)) (?post (p # path) v)"
        by (rule step [of _ "case array_position p (length vs) of Inl st \<Rightarrow> Inl st | Inr j \<Rightarrow> Inr (vs ! j)"],
            rule wp_mono [OF arr])
          (auto simp: 1 split: sum.splits intro: found_value_mono [OF _ le(1)])
      then show ?thesis using cont 1 by simp
    next
      case (2 kvs)
      obtain h'' where "h' = Suc h''" and pairs: "represents_pairs db c kvs m h''"
        using stored_mapD st 2 by blast
      then have le: "h'' \<le> h" "h'' \<le> MAXIMUM_DATA_STRUCTURE_DEPTH" using h' assms(2) by auto
      have size: "unat (data_size e) = length kvs" using entry_for_map e' 2 by blast
      note map = lookup_in_map [OF pairs le(2), of "stacks (length path)" p e]
      have "wp (chk_with (\<lambda>_. zero_entry) (lookup_path_in_map (stacks (length path)) p db e)
          (aget_path stacks db path)) (?post (p # path) v)"
        unfolding lookup_path_in_map_def size nxt
        by (rule step [of _ "case map_of kvs p of None \<Rightarrow> Inl MMDB_LOOKUP_PATH_DOES_NOT_MATCH_DATA_ERROR
              | Some w \<Rightarrow> Inr w"], rule wp_mono [OF map])
          (auto simp: 2 split: option.splits intro: found_value_mono [OF _ le(1)])
      then show ?thesis using cont 2 by simp
    qed
  qed
qed simp

lemma MMDB_aget_value_lookup:
  assumes v: "represents (entry_mmdb start) a v n h" and a: "entry_offset start = word_of_nat a"
    and h: "h \<le> MAXIMUM_DATA_STRUCTURE_DEPTH"
  shows "wp (MMDB_aget_value stacks start path) (\<lambda>st e.
    case lookup_value v path of
      Inl st' \<Rightarrow> st = st' \<and> st' \<noteq> MMDB_SUCCESS \<and> e = zero_entry
    | Inr v' \<Rightarrow> st = MMDB_SUCCESS \<and> found_value (entry_mmdb start) h v' e)"
proof -
  obtain e where e: "decode_one_follow (entry_mmdb start) (word_of_nat a) zero_entry = Some (MMDB_SUCCESS, e)"
    and found: "found_value (entry_mmdb start) h v e"
    using v by (rule follow_finds)
  moreover have "has_data e" using found by (auto simp: found_value_def entry_for_def)
  ultimately show ?thesis
    using aget_path_lookup [OF found h] by (simp add: MMDB_aget_value_def a)
qed

end
