(* ===== verification/Unique_Values.thy ===== *)
theory Unique_Values
  imports Data_Format
begin

text \<open>
  Unique decodability of the data format, and its nesting limit: at an offset of a section at most
  one value is stored, with at most one successor, and the levels of recursion it needs are those
  of its parts. The traversals use this to tell exactly when a value is nested too deeply.
\<close>

lemmas represents_induct = stored_represents_represents_seq_represents_pairs.inducts
lemmas represents_intros = stored_represents_represents_seq_represents_pairs.intros

section \<open>More levels of recursion\<close>

lemma Suc_le_parts: "Suc h \<le> k \<Longrightarrow> \<exists>k'. k = Suc k' \<and> h \<le> k'"
  by (cases k) auto

lemma represents_mono:
  "stored db a v c n h \<Longrightarrow> \<forall>h'. h \<le> h' \<longrightarrow> stored db a v c n h'"
  "represents db a v n h \<Longrightarrow> \<forall>h'. h \<le> h' \<longrightarrow> represents db a v n h'"
  "represents_seq db a vs n h \<Longrightarrow> \<forall>h'. h \<le> h' \<longrightarrow> represents_seq db a vs n h'"
  "represents_pairs db a kvs n h \<Longrightarrow> \<forall>h'. h \<le> h' \<longrightarrow> represents_pairs db a kvs n h'"
proof (induction rule: represents_induct)
  case (pointer a bs t v c m h)
  note code = \<open>section_bytes db a bs\<close> \<open>pointer_code t bs\<close>
  show ?case
  proof (intro allI impI)
    fix h'
    assume le: "(if is_container v then Suc h else h) \<le> h'"
    show "represents db a v (a + length bs) h'"
    proof (cases "is_container v")
      case True
      with le obtain k where k: "h' = Suc k" "h \<le> k" using Suc_le_parts by auto
      then have "stored db t v c m k" using pointer by blast
      from represents_intros(6) [OF code this] k True show ?thesis by simp
    next
      case False
      with le have "stored db t v c m h'" using pointer by simp
      from represents_intros(6) [OF code this] False show ?thesis by simp
    qed
  qed
qed (auto simp del: scalar_of.simps neq0_conv dest!: Suc_le_parts intro: represents_intros)

section \<open>At most one value\<close>

lemma scalar_of_container: "scalar_of ty bs = Some v \<Longrightarrow> \<not> is_container v"
  by (auto split: if_splits)

lemma entry_for_unique:
  assumes "entry_for db a v m e" and "entry_for db a v' m' e"
  shows "head_of v = head_of v'" and "(word_of_nat m :: u32) = word_of_nat m'"
  using assms by (auto simp: entry_for_def)

lemma head_of_eq:
  "head_of v = head_of v' \<Longrightarrow> is_container v = is_container v'"
  "head_of v = head_of v' \<Longrightarrow> \<not> is_container v \<Longrightarrow> v = v'"
  by (cases v; cases v'; simp)+

lemma offset_unique:
  assumes "(word_of_nat m :: u32) = word_of_nat m'"
    and "m \<le> unat (data_section_size db)" and "m' \<le> unat (data_section_size db)"
  shows "m = m'"
  using assms unat_offset [of m db] unat_offset [of m' db] by metis

lemma stored_head_unique:
  assumes st: "stored db a v c n h" and st': "stored db a v' c' n' h'"
  shows "head_of v = head_of v'" and "if is_container v then c = c' else v = v' \<and> n = n'"
proof -
  obtain e where e: "entry_for db a v (if is_container v then c else n) e"
    and e': "entry_for db a v' (if is_container v' then c' else n') e"
    using decode_stored [OF st, of zero_entry] decode_stored [OF st', of zero_entry] by auto
  show head: "head_of v = head_of v'" by (rule entry_for_unique(1) [OF e e'])
  have "(if is_container v then c else n) = (if is_container v' then c' else n')"
    using offset_unique [OF entry_for_unique(2) [OF e e'], of db]
      represents_bounds(1) [OF st] represents_bounds(1) [OF st'] by auto
  then show "if is_container v then c = c' else v = v' \<and> n = n'"
    using head_of_eq [OF head] by (auto split: if_splits)
qed

text \<open>What is stored at an offset is either a value or a pointer.\<close>

lemma pointer_unique:
  assumes "section_bytes db a bs" "pointer_code t bs" and "section_bytes db a bs'" "pointer_code t' bs'"
    and "t < 2 ^ 32" "t' < 2 ^ 32"
  shows "t = t'" and "length bs = length bs'"
proof -
  obtain e where dec: "decode_one db (word_of_nat a) zero_entry = Some (MMDB_SUCCESS, e)"
    and e: "ed_value e = Pointer_val (word_of_nat t)" "offset_to_next e = word_of_nat (a + length bs)"
    using decode_pointer [OF assms(1,2), of zero_entry] by blast
  have "ed_value e = Pointer_val (word_of_nat t')" "offset_to_next e = word_of_nat (a + length bs')"
    using decode_pointer [OF assms(3,4), of zero_entry] dec by auto
  with e have t: "(word_of_nat t :: u32) = word_of_nat t'"
    and n: "(word_of_nat (a + length bs) :: u32) = word_of_nat (a + length bs')" by simp_all
  show "t = t'" using arg_cong [OF t, of unat] assms(5,6) by (simp add: unat_of_nat_u32)
  show "length bs = length bs'"
    using offset_unique [OF n] section_bytes_le [OF assms(1)] section_bytes_le [OF assms(3)] by simp
qed

lemma stored_not_pointer:
  assumes "stored db a v c n h" and "section_bytes db a bs" and "pointer_code t bs"
  shows False
  using decode_stored [OF assms(1), of zero_entry] decode_pointer [OF assms(2,3), of zero_entry]
  by (auto simp: entry_for_def)

lemma represents_cases_stored:
  assumes "stored db a v c n h" and "represents db a v' n' h'"
  shows "\<exists>c'. stored db a v' c' n' h'"
  using assms(2) by (cases rule: represents.cases) (use stored_not_pointer [OF assms(1)] in blast)+

lemma represents_cases_pointer:
  assumes "section_bytes db a bs" and "pointer_code t bs" and "t < 2 ^ 32" and "represents db a v' n' h'"
  shows "\<exists>c' m' k. stored db t v' c' m' k \<and> n' = a + length bs \<and> h' = (if is_container v' then Suc k else k)"
  using assms(4)
proof (cases rule: represents.cases)
  case (direct c)
  then show ?thesis using stored_not_pointer assms by blast
next
  case (pointer bs' t' c m h)
  note u = pointer_unique [OF assms(1,2) \<open>section_bytes db a bs'\<close> \<open>pointer_code t' bs'\<close> assms(3)
      stored_target [OF \<open>stored db t' v' c m h\<close>]]
  with pointer show ?thesis by auto
qed

text \<open>Inversion for containers.\<close>

lemma stored_array_iff:
  "stored db a (V_array vs) c n h \<longleftrightarrow>
     (\<exists>h'. h = Suc h' \<and> entry_header db a 11 (length vs) c \<and> represents_seq db c vs n h')"
  by (auto elim: stored.cases intro: represents_intros split: if_splits)

lemma stored_map_iff:
  "stored db a (V_map kvs) c n h \<longleftrightarrow>
     (\<exists>h'. h = Suc h' \<and> entry_header db a 7 (length kvs) c \<and> represents_pairs db c kvs n h')"
  by (auto elim: stored.cases intro: represents_intros split: if_splits)

lemma represents_unique:
  "stored db a v c n h \<Longrightarrow> \<forall>v' c' n' h'. stored db a v' c' n' h' \<longrightarrow> v = v' \<and> n = n'"
  "represents db a v n h \<Longrightarrow> \<forall>v' n' h'. represents db a v' n' h' \<longrightarrow> v = v' \<and> n = n'"
  "represents_seq db a vs n h \<Longrightarrow> \<forall>vs' n' h'. length vs = length vs' \<longrightarrow> represents_seq db a vs' n' h' \<longrightarrow>
     vs = vs' \<and> n = n'"
  "represents_pairs db a kvs n h \<Longrightarrow> \<forall>kvs' n' h'. length kvs = length kvs' \<longrightarrow>
     represents_pairs db a kvs' n' h' \<longrightarrow> kvs = kvs' \<and> n = n'"
proof (induction rule: represents_induct)
  case (scalar a ty bs c v h)
  then have "\<not> is_container v" by (intro scalar_of_container)
  then show ?case using stored_head_unique(2) [OF represents_intros(1) [OF scalar]] by simp
next
  case (boolean a k c h)
  show ?case using stored_head_unique(2) [OF represents_intros(2) [OF boolean]] by simp
next
  case (array a vs c n h)
  show ?case
  proof (intro allI impI)
    fix v' c' n' h'
    assume st: "stored db a v' c' n' h'"
    note u = stored_head_unique [OF represents_intros(3) [OF array(1,2)] st]
    then obtain vs' where "v' = V_array vs'" "length vs = length vs'" "c = c'" by (cases v') auto
    with st array(3) show "V_array vs = v' \<and> n = n'" by (auto simp: stored_array_iff)
  qed
next
  case (map a kvs c n h)
  show ?case
  proof (intro allI impI)
    fix v' c' n' h'
    assume st: "stored db a v' c' n' h'"
    note u = stored_head_unique [OF represents_intros(4) [OF map(1,2)] st]
    then obtain kvs' where "v' = V_map kvs'" "length kvs = length kvs'" "c = c'" by (cases v') auto
    with st map(3) show "V_map kvs = v' \<and> n = n'" by (auto simp: stored_map_iff)
  qed
next
  case (direct a v c n h)
  then show ?case using represents_cases_stored [OF direct(1)] by blast
next
  case (pointer a bs t v c m h)
  note code = \<open>section_bytes db a bs\<close> \<open>pointer_code t bs\<close> and target = stored_target [OF \<open>stored db t v c m h\<close>]
  from pointer show ?case using represents_cases_pointer [OF code target] by blast
next
  case (seq_Cons a v m h vs n)
  show ?case
  proof (intro allI impI)
    fix vs' n' h'
    assume len: "length (v # vs) = length vs'" and seq: "represents_seq db a vs' n' h'"
    then obtain w ws where vs': "vs' = w # ws" by (cases vs') auto
    then obtain m' where "represents db a w m' h'" "represents_seq db m' ws n' h'"
      using seq by (blast elim: represents_seq_ConsE)
    with seq_Cons len vs' show "v # vs = vs' \<and> n = n'" by fastforce
  qed
next
  case (pairs_Cons a k m h v m' kvs n)
  show ?case
  proof (intro allI impI)
    fix kvs' n' h'
    assume len: "length ((k, v) # kvs) = length kvs'" and pairs: "represents_pairs db a kvs' n' h'"
    then obtain kw kws where kvs': "kvs' = kw # kws" by (cases kvs') auto
    with pairs obtain k' w b b' where "kw = (k', w)" "represents db a (V_string k') b h'"
      "represents db b w b' h'" "represents_pairs db b' kws n' h'"
      by (auto elim: represents_pairs_ConsE)
    with pairs_Cons len kvs' show "(k, v) # kvs = kvs' \<and> n = n'" by fastforce
  qed
qed (auto elim: represents_seq_NilE represents_pairs_NilE)

section \<open>The levels a value needs\<close>

lemma stored_array_levels: "stored db a (V_array vs) c n h \<Longrightarrow>
    stored db a (V_array vs) c n (Suc k) \<longleftrightarrow> represents_seq db c vs n k"
  by (auto simp: stored_array_iff)

lemma stored_map_levels: "stored db a (V_map kvs) c n h \<Longrightarrow>
    stored db a (V_map kvs) c n (Suc k) \<longleftrightarrow> represents_pairs db c kvs n k"
  by (auto simp: stored_map_iff)

lemma stored_scalar_levels: "stored db a v c n h \<Longrightarrow> \<not> is_container v \<Longrightarrow> stored db a v c n (Suc k)"
  by (auto elim!: stored.cases intro: represents_intros)

lemma stored_levels_pos: "\<not> stored db a v c n 0"
  using represents_bounds(1) by blast

lemma represents_stored_levels:
  assumes st: "stored db a v c n h"
  shows "represents db a v n k \<longleftrightarrow> stored db a v c n k"
proof
  assume "represents db a v n k"
  then obtain c' where st': "stored db a v c' n k" using represents_cases_stored [OF st] by blast
  show "stored db a v c n k"
  proof (cases "is_container v")
    case True
    then show ?thesis using stored_head_unique(2) [OF st st'] st' by simp
  next
    case False
    then show ?thesis using stored_scalar_levels [OF st False] st' stored_levels_pos by (cases k) auto
  qed
qed (rule represents_intros)

lemma represents_pointer_levels:
  assumes bytes: "section_bytes db a bs" "pointer_code t bs" and st: "stored db t v c m h"
  shows "represents db a v (a + length bs) (Suc k) \<longleftrightarrow> \<not> is_container v \<or> stored db t v c m k"
proof
  assume "represents db a v (a + length bs) (Suc k)"
  then obtain c' m' k' where st': "stored db t v c' m' k'" "Suc k = (if is_container v then Suc k' else k')"
    using represents_cases_pointer [OF bytes stored_target [OF st]] by blast
  have "m = m'" using represents_unique(1) [OF st] st'(1) by blast
  then show "\<not> is_container v \<or> stored db t v c m k"
    using stored_head_unique(2) [OF st st'(1)] st' by auto
next
  assume "\<not> is_container v \<or> stored db t v c m k"
  then show "represents db a v (a + length bs) (Suc k)"
    using represents_intros(6) [OF bytes] stored_scalar_levels [OF st, of k] by (cases "is_container v") fastforce+
qed

lemma represents_seq_levels:
  "represents db a v m h \<Longrightarrow>
     represents_seq db a (v # vs) n k \<longleftrightarrow> represents db a v m k \<and> represents_seq db m vs n k"
  using represents_unique(2) by (blast elim: represents_seq_ConsE intro: represents_intros)

lemma represents_pairs_levels:
  assumes "represents db a (V_string s) m h" and "represents db m v m' h'"
  shows "represents_pairs db a ((s, v) # kvs) n k \<longleftrightarrow>
     (represents db a (V_string s) m k \<and> represents db m v m' k) \<and> represents_pairs db m' kvs n k"
proof
  assume "represents_pairs db a ((s, v) # kvs) n k"
  then obtain b b' where b: "represents db a (V_string s) b k" "represents db b v b' k"
    "represents_pairs db b' kvs n k" by (auto elim: represents_pairs_ConsE)
  moreover have "m = b" using represents_unique(2) [OF assms(1)] b(1) by blast
  moreover from this have "m' = b'" using represents_unique(2) [OF assms(2)] b(2) by blast
  ultimately show "(represents db a (V_string s) m k \<and> represents db m v m' k) \<and> represents_pairs db m' kvs n k"
    by simp
qed (auto intro: represents_intros)

end
