(* ===== verification/Data_Pool.thy ===== *)
theory Data_Pool
  imports Database
begin

text \<open>
  \<open>src/data-pool.c\<close> and \<open>src/data-pool.h\<close>: the pool from which the elements of an entry data
  list are taken. The pool owns up to 32 blocks, each twice as long as the one before; a
  pointer to an element is a block number and an index, and an access to an element that does
  not exist is \<^term>\<open>None\<close>. Sizes are \<open>size_t\<close> values of 64 bits with the wrap-around of the
  C arithmetic written out. The answers of \<open>calloc\<close> are the parameter \<open>calloc_ok\<close>: whether the
  pool's allocation number \<open>k\<close> succeeds (0 is the pool itself, \<open>k + 1\<close> its block number \<open>k\<close>).
  The functions get the pool their pointer argument points to; the tests of that pointer
  against NULL have no counterpart.
\<close>

section \<open>The pool\<close>

type_synonym elem_ptr = "nat \<times> nat"
type_synonym calloc_env = "nat \<Rightarrow> bool"

record MMDB_entry_data_list_s =
  entry_data :: MMDB_entry_data_s
  next_elem :: "elem_ptr option"
  elem_pool :: bool

record MMDB_data_pool_s =
  pool_index :: nat
  pool_size :: nat
  pool_used :: nat
  pool_block :: "nat option"
  pool_sizes :: "nat list"
  pool_blocks :: "MMDB_entry_data_list_s list option list"

abbreviation (input) DATA_POOL_NUM_BLOCKS :: nat where "DATA_POOL_NUM_BLOCKS \<equiv> 32"

text \<open>\<open>sizeof(MMDB_entry_data_list_s)\<close> on an LP64 platform.\<close>

abbreviation (input) sizeof_elem :: nat where "sizeof_elem \<equiv> 64"

definition can_multiply :: "nat \<Rightarrow> nat \<Rightarrow> nat \<Rightarrow> bool" where
  "can_multiply lim m n = (if m = 0 then False else n \<le> lim div m)"

lemma can_multiply_iff: "can_multiply lim m n \<longleftrightarrow> m \<noteq> 0 \<and> m * n \<le> lim"
  by (auto simp: can_multiply_def less_eq_div_iff_mult_less_eq mult.commute)

text \<open>What \<open>calloc(n, sizeof(MMDB_entry_data_list_s))\<close> returns: elements of zero bytes.\<close>

definition zero_elem :: MMDB_entry_data_list_s where
  "zero_elem = \<lparr>entry_data = zero_entry, next_elem = None, elem_pool = False\<rparr>"

definition set_elem_pool :: "MMDB_entry_data_list_s list \<Rightarrow> MMDB_entry_data_list_s list" where
  "set_elem_pool block = (case block of [] \<Rightarrow> [] | e # es \<Rightarrow> e\<lparr>elem_pool := True\<rparr> # es)"

definition data_pool_new :: "calloc_env \<Rightarrow> nat \<Rightarrow> MMDB_data_pool_s option" where
  "data_pool_new calloc_ok size0 =
    (if \<not> calloc_ok 0 then None
     else if size0 = 0 \<or> \<not> can_multiply SIZE_MAX size0 sizeof_elem then None
     else if \<not> calloc_ok 1 then None
     else Some \<lparr>pool_index = 0, pool_size = size0, pool_used = 0, pool_block = Some 0,
       pool_sizes = size0 # replicate (DATA_POOL_NUM_BLOCKS - 1) 0,
       pool_blocks = Some (set_elem_pool (replicate size0 zero_elem)) #
         replicate (DATA_POOL_NUM_BLOCKS - 1) None\<rparr>)"

text \<open>\<open>data_pool_destroy\<close>: the blocks that it hands to \<open>free\<close>.\<close>

definition data_pool_destroy :: "MMDB_data_pool_s \<Rightarrow> nat list" where
  "data_pool_destroy pool =
     filter (\<lambda>i. pool_blocks pool ! i \<noteq> None) [0..<pool_index pool + 1]"

definition data_pool_alloc ::
  "calloc_env \<Rightarrow> MMDB_data_pool_s \<Rightarrow> elem_ptr option \<times> MMDB_data_pool_s" where
  "data_pool_alloc calloc_ok pool =
    (if pool_used pool < pool_size pool then
       (map_option (\<lambda>b. (b, pool_used pool)) (pool_block pool),
        pool\<lparr>pool_used := pool_used pool + 1\<rparr>)
     else
       let new_index = pool_index pool + 1 in
       if new_index = DATA_POOL_NUM_BLOCKS then (None, pool)
       else if \<not> can_multiply SIZE_MAX (pool_size pool) 2 then (None, pool)
       else
         let new_size = (pool_size pool * 2) mod 2 ^ 64 in
         if \<not> can_multiply SIZE_MAX new_size sizeof_elem then (None, pool)
         else if \<not> calloc_ok (new_index + 1) then
           (None, pool\<lparr>pool_blocks := (pool_blocks pool)[new_index := None]\<rparr>)
         else
           (Some (new_index, 0),
            pool\<lparr>pool_blocks := (pool_blocks pool)
                   [new_index := Some (set_elem_pool (replicate new_size zero_elem))],
                 pool_index := new_index,
                 pool_block := Some new_index,
                 pool_size := new_size,
                 pool_sizes := (pool_sizes pool)[new_index := new_size],
                 pool_used := 1\<rparr>))"

section \<open>Access through element pointers\<close>

definition pool_get :: "MMDB_data_pool_s \<Rightarrow> elem_ptr \<Rightarrow> MMDB_entry_data_list_s option" where
  "pool_get pool p =
    (if fst p < length (pool_blocks pool) then
       (case pool_blocks pool ! fst p of
          None \<Rightarrow> None
        | Some block \<Rightarrow> if snd p < length block then Some (block ! snd p) else None)
     else None)"

definition pool_put ::
  "MMDB_data_pool_s \<Rightarrow> elem_ptr \<Rightarrow> MMDB_entry_data_list_s \<Rightarrow> MMDB_data_pool_s option" where
  "pool_put pool p el =
    (if fst p < length (pool_blocks pool) then
       (case pool_blocks pool ! fst p of
          None \<Rightarrow> None
        | Some block \<Rightarrow>
            if snd p < length block then
              Some (pool\<lparr>pool_blocks := (pool_blocks pool)[fst p := Some (block[snd p := el])]\<rparr>)
            else None)
     else None)"

text \<open>\<open>cur->next = target\<close>\<close>

definition set_next ::
  "elem_ptr \<Rightarrow> elem_ptr option \<Rightarrow> MMDB_data_pool_s \<Rightarrow> MMDB_data_pool_s option" where
  "set_next p target pool = do {
     el \<leftarrow> pool_get pool p;
     pool_put pool p (el\<lparr>next_elem := target\<rparr>) }"

section \<open>Turning the pool into a list\<close>

text \<open>
  The body of the loop over the blocks. \<open>size - 1\<close> is computed in \<open>size_t\<close>: were a block
  empty, the inner loop would run to \<open>SIZE_MAX\<close>.
\<close>

definition link_block :: "nat \<Rightarrow> MMDB_data_pool_s \<Rightarrow> MMDB_data_pool_s option" where
  "link_block i pool =
    (let size1 = (if i = pool_index pool then pool_used pool else pool_sizes pool ! i);
         last_j = (size1 + 2 ^ 64 - 1) mod 2 ^ 64
     in do {
       pool' \<leftarrow> for_each [0..<last_j] (\<lambda>j. set_next (i, j) (Some (i, j + 1))) pool;
       if i < pool_index pool'
       then set_next (i, last_j) (map_option (\<lambda>_. (i + 1, 0)) (pool_blocks pool' ! (i + 1))) pool'
       else Some pool' })"

definition data_pool_to_list ::
  "MMDB_data_pool_s \<Rightarrow> (elem_ptr option \<times> MMDB_data_pool_s) option" where
  "data_pool_to_list pool =
    (if pool_index pool = 0 \<and> pool_used pool = 0 then Some (None, pool)
     else do {
       pool' \<leftarrow> for_each [0..<pool_index pool + 1] link_block pool;
       Some (map_option (\<lambda>_. (0, 0)) (pool_blocks pool' ! 0), pool') })"

text \<open>Reading a linked list: the entries from a pointer on, following \<open>next\<close>.\<close>

fun list_entries ::
  "MMDB_data_pool_s \<Rightarrow> nat \<Rightarrow> elem_ptr option \<Rightarrow> MMDB_entry_data_s list option" where
  "list_entries pool fuel None = Some []"
| "list_entries pool 0 (Some p) = None"
| "list_entries pool (Suc fuel) (Some p) =
    (case pool_get pool p of
       None \<Rightarrow> None
     | Some el \<Rightarrow> map_option ((#) (entry_data el)) (list_entries pool fuel (next_elem el)))"

section \<open>Invariant and abstraction\<close>

text \<open>
  \<open>pool_blks\<close> are the blocks in use, \<open>pool_cells\<close> all their elements in order, and
  \<open>pool_items\<close> the entries of the elements handed out so far, in the order of allocation.
  \<open>elem_pos\<close> is the place of an element pointer in that order; it depends only on the size
  \<open>s0\<close> of the first block, so it stays the same while the pool grows.
\<close>

definition pool_blks :: "MMDB_data_pool_s \<Rightarrow> MMDB_entry_data_list_s list list" where
  "pool_blks pool = map the (take (pool_index pool + 1) (pool_blocks pool))"

definition pool_cells :: "MMDB_data_pool_s \<Rightarrow> MMDB_entry_data_list_s list" where
  "pool_cells pool = concat (pool_blks pool)"

definition elem_pos :: "nat \<Rightarrow> elem_ptr \<Rightarrow> nat" where
  "elem_pos s0 p = s0 * (2 ^ fst p - 1) + snd p"

definition pool_count :: "nat \<Rightarrow> MMDB_data_pool_s \<Rightarrow> nat" where
  "pool_count s0 pool = elem_pos s0 (pool_index pool, pool_used pool)"

definition pool_items :: "nat \<Rightarrow> MMDB_data_pool_s \<Rightarrow> MMDB_entry_data_s list" where
  "pool_items s0 pool = map entry_data (take (pool_count s0 pool) (pool_cells pool))"

definition pool_shape :: "nat \<Rightarrow> MMDB_data_pool_s \<Rightarrow> bool" where
  "pool_shape s0 pool \<longleftrightarrow>
     0 < s0 \<and> pool_index pool < DATA_POOL_NUM_BLOCKS \<and>
     length (pool_blocks pool) = DATA_POOL_NUM_BLOCKS \<and>
     length (pool_sizes pool) = DATA_POOL_NUM_BLOCKS \<and>
     (\<forall>i \<le> pool_index pool. pool_sizes pool ! i = s0 * 2 ^ i \<and>
        (\<exists>bl. pool_blocks pool ! i = Some bl \<and> length bl = s0 * 2 ^ i)) \<and>
     (\<forall>i < DATA_POOL_NUM_BLOCKS. pool_index pool < i \<longrightarrow> pool_blocks pool ! i = None) \<and>
     pool_block pool = Some (pool_index pool) \<and>
     pool_size pool = s0 * 2 ^ pool_index pool \<and>
     pool_used pool \<le> pool_size pool \<and>
     (0 < pool_index pool \<longrightarrow> 0 < pool_used pool) \<and>
     pool_size pool * sizeof_elem \<le> SIZE_MAX"

definition pool_inv :: "nat \<Rightarrow> MMDB_data_pool_s \<Rightarrow> bool" where
  "pool_inv s0 pool \<longleftrightarrow> pool_shape s0 pool \<and>
     (\<forall>el \<in> set (pool_cells pool). next_elem el = None) \<and>
     (\<forall>el \<in> set (drop (pool_count s0 pool) (pool_cells pool)). entry_data el = zero_entry)"

definition elem_valid :: "nat \<Rightarrow> MMDB_data_pool_s \<Rightarrow> elem_ptr \<Rightarrow> bool" where
  "elem_valid s0 pool p \<longleftrightarrow> fst p \<le> pool_index pool \<and>
     snd p < (if fst p = pool_index pool then pool_used pool else s0 * 2 ^ fst p)"

text \<open>Lists of blocks of doubling length.\<close>

definition doubling :: "nat \<Rightarrow> 'a list list \<Rightarrow> bool" where
  "doubling s0 bls \<longleftrightarrow> (\<forall>i < length bls. length (bls ! i) = s0 * 2 ^ i)"

lemma doubling_snoc:
  "doubling s0 (bls @ [bl]) \<longleftrightarrow> doubling s0 bls \<and> length bl = s0 * 2 ^ length bls"
  by (auto simp: doubling_def nth_append less_Suc_eq)

lemma length_concat_doubling:
  "doubling s0 bls \<Longrightarrow> length (concat bls) = s0 * (2 ^ length bls - 1)"
proof (induction bls rule: rev_induct)
  case (snoc bl bls)
  then have "length (concat (bls @ [bl])) = s0 * (2 ^ length bls - 1) + s0 * 2 ^ length bls"
    by (simp add: doubling_snoc)
  also have "\<dots> = s0 * (2 ^ length (bls @ [bl]) - 1)"
    by (simp add: mult_2 flip: add_mult_distrib2)
  finally show ?case .
qed simp

lemma doubling_take: "doubling s0 bls \<Longrightarrow> doubling s0 (take n bls)"
  by (simp add: doubling_def)

lemma doubling_split:
  assumes "doubling s0 bls" and "b < length bls"
  shows "bls = take b bls @ bls ! b # drop (Suc b) bls"
    and "length (concat (take b bls)) = s0 * (2 ^ b - 1)"
  using assms length_concat_doubling [OF doubling_take [OF assms(1)], of b]
  by (simp_all add: id_take_nth_drop)

lemma concat_doubling_nth:
  assumes "doubling s0 bls" and "fst p < length bls" and "snd p < length (bls ! fst p)"
  shows "concat bls ! elem_pos s0 p = bls ! fst p ! snd p"
    and "elem_pos s0 p < length (concat bls)"
proof -
  note split = doubling_split [OF assms(1,2)]
  have c: "concat bls = concat (take (fst p) bls) @ bls ! fst p @ concat (drop (Suc (fst p)) bls)"
    by (subst split(1)) simp
  show "concat bls ! elem_pos s0 p = bls ! fst p ! snd p"
    using split(2) assms(3) by (simp add: c elem_pos_def nth_append)
  show "elem_pos s0 p < length (concat bls)"
    using split(2) assms(3) by (simp add: c elem_pos_def)
qed

lemma concat_doubling_update:
  assumes "doubling s0 bls" and "fst p < length bls" and "snd p < length (bls ! fst p)"
  shows "concat (bls[fst p := (bls ! fst p)[snd p := x]]) = (concat bls)[elem_pos s0 p := x]"
proof -
  note split = doubling_split [OF assms(1,2)]
  have l: "length (take (fst p) bls) = fst p" using assms(2) by simp
  have c: "concat bls = concat (take (fst p) bls) @ bls ! fst p @ concat (drop (Suc (fst p)) bls)"
    by (subst split(1)) simp
  have "bls[fst p := y] = take (fst p) bls @ y # drop (Suc (fst p)) bls" for y
    using assms(2) by (simp add: upd_conv_take_nth_drop)
  then have "concat (bls[fst p := (bls ! fst p)[snd p := x]]) =
      concat (take (fst p) bls) @ (bls ! fst p)[snd p := x] @ concat (drop (Suc (fst p)) bls)"
    by simp
  then show ?thesis
    using split(2) assms(3) by (simp add: c elem_pos_def list_update_append)
qed

lemma pool_blks_doubling: "pool_shape s0 pool \<Longrightarrow> doubling s0 (pool_blks pool)"
  by (auto simp: pool_shape_def doubling_def pool_blks_def less_Suc_eq_le)

lemma length_pool_blks: "pool_shape s0 pool \<Longrightarrow> length (pool_blks pool) = pool_index pool + 1"
  by (auto simp: pool_shape_def pool_blks_def)

lemma pool_blks_nth:
  "pool_shape s0 pool \<Longrightarrow> b \<le> pool_index pool \<Longrightarrow> pool_blocks pool ! b = Some (pool_blks pool ! b)
     \<and> length (pool_blks pool ! b) = s0 * 2 ^ b"
  by (auto simp: pool_shape_def pool_blks_def)

lemma length_pool_cells:
  "pool_shape s0 pool \<Longrightarrow> length (pool_cells pool) = s0 * (2 ^ (pool_index pool + 1) - 1)"
  using length_concat_doubling [OF pool_blks_doubling]
  by (simp add: pool_cells_def length_pool_blks)

lemma elem_pos_next: "0 < s0 \<Longrightarrow> elem_pos s0 (b, s0 * 2 ^ b) = elem_pos s0 (Suc b, 0)"
proof -
  have "s0 * (2 ^ b - 1) + s0 * 2 ^ b = s0 * (2 ^ b - 1 + 2 ^ b)" by (simp only: add_mult_distrib2)
  also have "\<dots> = s0 * (2 ^ Suc b - 1)" by (simp add: mult_2)
  finally show ?thesis by (simp add: elem_pos_def)
qed

lemma pool_count_le: "pool_shape s0 pool \<Longrightarrow> pool_count s0 pool \<le> length (pool_cells pool)"
  using elem_pos_next [of s0 "pool_index pool"] length_pool_cells [of s0 pool]
  by (auto simp: pool_count_def elem_pos_def pool_shape_def)

lemma elem_valid_cell:
  assumes "pool_shape s0 pool" and "elem_valid s0 pool p"
  shows "pool_get pool p = Some (pool_cells pool ! elem_pos s0 p)"
    and "elem_pos s0 p < pool_count s0 pool"
proof -
  have b: "fst p \<le> pool_index pool" and i: "snd p < s0 * 2 ^ fst p"
    using assms by (auto simp: elem_valid_def pool_shape_def split: if_splits)
  note nth = pool_blks_nth [OF assms(1) b]
  have "fst p < length (pool_blks pool)" using b length_pool_blks [OF assms(1)] by simp
  moreover have "snd p < length (pool_blks pool ! fst p)" using nth i by simp
  ultimately show "pool_get pool p = Some (pool_cells pool ! elem_pos s0 p)"
    using concat_doubling_nth(1) [OF pool_blks_doubling [OF assms(1)]] nth b assms(1)
    by (auto simp: pool_get_def pool_cells_def pool_shape_def)
  show "elem_pos s0 p < pool_count s0 pool"
  proof (cases "fst p = pool_index pool")
    case True
    then show ?thesis using assms(2) by (auto simp: elem_valid_def pool_count_def elem_pos_def)
  next
    case False
    with b have "Suc (fst p) \<le> pool_index pool" by simp
    then have "s0 * (2 ^ Suc (fst p) - 1) \<le> s0 * (2 ^ pool_index pool - 1)"
      by (intro mult_le_mono2 diff_le_mono power_increasing) auto
    then have "elem_pos s0 (Suc (fst p), 0) \<le> pool_count s0 pool"
      unfolding elem_pos_def pool_count_def fst_conv snd_conv by linarith
    moreover have "elem_pos s0 p < elem_pos s0 (fst p, s0 * 2 ^ fst p)"
      using i by (simp add: elem_pos_def)
    moreover have "0 < s0" using assms(1) by (simp add: pool_shape_def)
    ultimately show ?thesis
      using elem_pos_next [of s0 "fst p"] by simp
  qed
qed

lemma pool_put_valid:
  assumes "pool_shape s0 pool" and "elem_valid s0 pool p"
  obtains pool' where "pool_put pool p el = Some pool'" and "pool_shape s0 pool'"
    and "pool_cells pool' = (pool_cells pool)[elem_pos s0 p := el]"
    and "pool_index pool' = pool_index pool" and "pool_used pool' = pool_used pool"
proof -
  have b: "fst p \<le> pool_index pool" and i: "snd p < s0 * 2 ^ fst p"
    using assms by (auto simp: elem_valid_def pool_shape_def split: if_splits)
  note nth = pool_blks_nth [OF assms(1) b]
  have fl: "fst p < length (pool_blks pool)" using b length_pool_blks [OF assms(1)] by simp
  have sl: "snd p < length (pool_blks pool ! fst p)" using nth i by simp
  let ?new = "(pool_blks pool ! fst p)[snd p := el]"
  let ?pool' = "pool\<lparr>pool_blocks := (pool_blocks pool)[fst p := Some ?new]\<rparr>"
  have "pool_put pool p el = Some ?pool'"
    using nth b i assms(1) by (auto simp: pool_put_def pool_shape_def)
  moreover have "pool_shape s0 ?pool'"
    using assms(1) nth b by (auto simp: pool_shape_def nth_list_update)
  moreover have "pool_blks ?pool' = (pool_blks pool)[fst p := ?new]"
    using fl by (simp add: pool_blks_def take_update_swap map_update)
  then have "pool_cells ?pool' = (pool_cells pool)[elem_pos s0 p := el]"
    using concat_doubling_update [OF pool_blks_doubling [OF assms(1)] fl sl]
    by (simp add: pool_cells_def)
  ultimately show ?thesis by (intro that [of ?pool']) simp_all
qed

lemma set_elem_pool_simps [simp]:
  "length (set_elem_pool bl) = length bl"
  "map entry_data (set_elem_pool bl) = map entry_data bl"
  "map next_elem (set_elem_pool bl) = map next_elem bl"
  by (cases bl; simp add: set_elem_pool_def)+

lemma set_elem_pool_replicate:
  "el \<in> set (set_elem_pool (replicate n zero_elem)) \<Longrightarrow>
     entry_data el = zero_entry \<and> next_elem el = None"
  by (cases n) (auto simp: set_elem_pool_def zero_elem_def split: if_splits)

text \<open>What one allocation does to the elements of the pool.\<close>

definition alloc_grows :: "nat \<Rightarrow> MMDB_data_pool_s \<Rightarrow> elem_ptr \<Rightarrow> MMDB_data_pool_s \<Rightarrow> bool" where
  "alloc_grows s0 pool r pool' \<longleftrightarrow>
     pool_shape s0 pool' \<and> elem_valid s0 pool' r \<and> elem_pos s0 r = pool_count s0 pool \<and>
     pool_count s0 pool' = pool_count s0 pool + 1 \<and>
     pool_count s0 pool < length (pool_cells pool') \<and>
     (\<exists>more. pool_cells pool' = pool_cells pool @ more \<and>
        (\<forall>el \<in> set more. entry_data el = zero_entry \<and> next_elem el = None))"

lemma alloc_in_block:
  assumes shape: "pool_shape s0 pool" and alloc: "data_pool_alloc calloc_ok pool = (Some r, pool')"
    and room: "pool_used pool < pool_size pool"
  shows "alloc_grows s0 pool r pool'"
proof -
  from alloc shape room have r: "r = (pool_index pool, pool_used pool)"
    and p': "pool' = pool\<lparr>pool_used := pool_used pool + 1\<rparr>"
    by (auto simp: data_pool_alloc_def pool_shape_def)
  have cells: "pool_cells pool' = pool_cells pool" by (simp add: p' pool_cells_def pool_blks_def)
  have shape': "pool_shape s0 pool'" using shape room by (auto simp: p' pool_shape_def)
  have cnt: "pool_count s0 pool' = pool_count s0 pool + 1"
    by (simp add: p' pool_count_def elem_pos_def)
  show ?thesis
    using pool_count_le [OF shape'] shape' cells cnt
    by (auto simp: alloc_grows_def r p' elem_valid_def pool_count_def)
qed

lemma alloc_new_block:
  assumes shape: "pool_shape s0 pool" and alloc: "data_pool_alloc calloc_ok pool = (Some r, pool')"
    and full: "\<not> pool_used pool < pool_size pool"
  shows "alloc_grows s0 pool r pool'"
proof -
  let ?n = "pool_index pool + 1" and ?sz = "pool_size pool * 2"
  let ?bl = "set_elem_pool (replicate ?sz zero_elem)"
  have used: "pool_used pool = pool_size pool" using full shape by (simp add: pool_shape_def)
  have sz: "?sz < 2 ^ 64" if "can_multiply SIZE_MAX (pool_size pool) 2"
    using that by (simp add: can_multiply_iff)
  from full alloc have new: "?n < DATA_POOL_NUM_BLOCKS" "?sz * sizeof_elem \<le> SIZE_MAX" "r = (?n, 0)"
    and p': "pool' = pool\<lparr>pool_blocks := (pool_blocks pool)[?n := Some ?bl], pool_index := ?n,
      pool_block := Some ?n, pool_size := ?sz, pool_sizes := (pool_sizes pool)[?n := ?sz],
      pool_used := 1\<rparr>"
    using sz shape
    by (auto simp: data_pool_alloc_def Let_def can_multiply_iff pool_shape_def split: if_splits)
  have shape': "pool_shape s0 pool'"
    using shape new by (auto simp: p' pool_shape_def nth_list_update le_Suc_eq)
  have "pool_blks pool' = pool_blks pool @ [?bl]"
    using shape new(1) by (simp add: p' pool_blks_def pool_shape_def take_Suc_conv_app_nth)
  then have cells: "pool_cells pool' = pool_cells pool @ ?bl" by (simp add: pool_cells_def)
  have "pool_count s0 pool = length (pool_cells pool)"
    using elem_pos_next [of s0 "pool_index pool"] length_pool_cells [OF shape] shape
    by (simp add: pool_count_def used pool_shape_def elem_pos_def)
  moreover have "elem_pos s0 r = pool_count s0 pool"
    using elem_pos_next [of s0 "pool_index pool"] shape
    by (simp add: new(3) pool_count_def used pool_shape_def)
  ultimately show ?thesis
    using shape' cells set_elem_pool_replicate [of _ ?sz] shape
    by (auto simp: alloc_grows_def new(3) p' elem_valid_def pool_count_def elem_pos_def
        pool_shape_def)
qed

lemma data_pool_alloc_grows:
  "pool_shape s0 pool \<Longrightarrow> data_pool_alloc calloc_ok pool = (Some r, pool') \<Longrightarrow>
     alloc_grows s0 pool r pool'"
  by (cases "pool_used pool < pool_size pool") (simp_all add: alloc_in_block alloc_new_block)

lemma data_pool_alloc_inv:
  assumes inv: "pool_inv s0 pool" and alloc: "data_pool_alloc calloc_ok pool = (Some r, pool')"
  shows "pool_inv s0 pool'"
    and "pool_items s0 pool' = pool_items s0 pool @ [zero_entry]"
proof -
  have shape: "pool_shape s0 pool" using inv by (simp add: pool_inv_def)
  note grows = data_pool_alloc_grows [OF shape alloc]
  then obtain more where cells: "pool_cells pool' = pool_cells pool @ more"
    and more: "\<forall>el \<in> set more. entry_data el = zero_entry \<and> next_elem el = None"
    by (auto simp: alloc_grows_def)
  let ?n = "pool_count s0 pool"
  have zero: "entry_data el = zero_entry" if "el \<in> set (drop ?n (pool_cells pool'))" for el
    using that inv more by (auto simp: cells pool_inv_def dest: in_set_dropD)
  have "entry_data el = zero_entry" if "el \<in> set (drop (Suc ?n) (pool_cells pool'))" for el
    using that set_drop_subset_set_drop [of ?n "Suc ?n" "pool_cells pool'"] by (auto intro: zero)
  moreover have "next_elem el = None" if "el \<in> set (pool_cells pool')" for el
    using that inv more by (auto simp: cells pool_inv_def)
  ultimately show "pool_inv s0 pool'"
    using grows by (simp add: pool_inv_def alloc_grows_def)
  have "take (Suc ?n) (pool_cells pool') = take ?n (pool_cells pool') @ [pool_cells pool' ! ?n]"
    using grows by (simp add: take_Suc_conv_app_nth alloc_grows_def)
  moreover have "take ?n (pool_cells pool') = take ?n (pool_cells pool)"
    using pool_count_le [OF shape] by (simp add: cells)
  moreover have "entry_data (pool_cells pool' ! ?n) = zero_entry"
    using zero grows unfolding alloc_grows_def by (metis Cons_nth_drop_Suc list.set_intros(1))
  ultimately show "pool_items s0 pool' = pool_items s0 pool @ [zero_entry]"
    using grows by (simp add: pool_items_def alloc_grows_def)
qed

lemma data_pool_alloc_full:
  assumes "data_pool_alloc calloc_ok pool = (r, pool')" and "\<not> pool_used pool < pool_size pool"
  shows "pool_index pool' = pool_index pool \<and> pool_used pool' = pool_used pool \<or>
      pool_index pool' = pool_index pool + 1"
proof -
  have p': "pool' = snd (data_pool_alloc calloc_ok pool)" using assms(1) by simp
  show ?thesis unfolding p' using assms(2) by (simp add: data_pool_alloc_def Let_def)
qed

lemma elem_valid_alloc:
  assumes shape: "pool_shape s0 pool" and alloc: "data_pool_alloc calloc_ok pool = (r, pool')"
    and p: "elem_valid s0 pool p"
  shows "elem_valid s0 pool' p"
proof (cases "pool_used pool < pool_size pool")
  case True
  with alloc p show ?thesis by (auto simp: data_pool_alloc_def elem_valid_def)
next
  case False
  then have used: "pool_used pool = s0 * 2 ^ pool_index pool"
    using shape by (simp add: pool_shape_def)
  have b: "fst p \<le> pool_index pool" and i: "snd p < s0 * 2 ^ fst p"
    using p used by (auto simp: elem_valid_def split: if_splits)
  from data_pool_alloc_full [OF alloc False] show ?thesis
  proof
    assume "pool_index pool' = pool_index pool \<and> pool_used pool' = pool_used pool"
    with p show ?thesis by (simp only: elem_valid_def)
  next
    assume "pool_index pool' = pool_index pool + 1"
    with b i show ?thesis by (simp add: elem_valid_def)
  qed
qed

lemma data_pool_alloc_None:
  assumes "pool_shape s0 pool" and alloc: "data_pool_alloc calloc_ok pool = (None, pool')"
  shows "pool' = pool"
proof -
  let ?n = "pool_index pool + 1"
  have "pool_blocks pool ! ?n = None" if "?n \<noteq> DATA_POOL_NUM_BLOCKS"
    using assms(1) that by (simp add: pool_shape_def)
  then have "pool\<lparr>pool_blocks := (pool_blocks pool)[?n := None]\<rparr> = pool"
    if "?n \<noteq> DATA_POOL_NUM_BLOCKS"
    using that list_update_id [of "pool_blocks pool" ?n] by simp
  moreover have "pool_block pool \<noteq> None" using assms(1) by (simp add: pool_shape_def)
  ultimately show ?thesis
    using alloc by (simp add: data_pool_alloc_def Let_def split: if_splits)
qed

lemma data_pool_new_inv:
  assumes "data_pool_new calloc_ok s0 = Some pool"
  shows "pool_inv s0 pool" and "pool_items s0 pool = []"
proof -
  have p: "pool = \<lparr>pool_index = 0, pool_size = s0, pool_used = 0, pool_block = Some 0,
       pool_sizes = s0 # replicate (DATA_POOL_NUM_BLOCKS - 1) 0,
       pool_blocks = Some (set_elem_pool (replicate s0 zero_elem)) #
         replicate (DATA_POOL_NUM_BLOCKS - 1) None\<rparr>" and s0: "0 < s0" "s0 * sizeof_elem \<le> SIZE_MAX"
    using assms by (auto simp: data_pool_new_def can_multiply_iff split: if_splits)
  have "pool_shape s0 pool" using s0 by (auto simp: p pool_shape_def nth_Cons')
  then show "pool_inv s0 pool"
    using set_elem_pool_replicate
    by (auto simp: pool_inv_def p pool_cells_def pool_blks_def pool_count_def elem_pos_def)
  show "pool_items s0 pool = []"
    by (simp add: p pool_items_def pool_count_def elem_pos_def)
qed

text \<open>Entries are read and written through element pointers.\<close>

definition pool_entry :: "MMDB_data_pool_s \<Rightarrow> elem_ptr \<Rightarrow> MMDB_entry_data_s option" where
  "pool_entry pool p = map_option entry_data (pool_get pool p)"

definition pool_set_entry ::
  "MMDB_data_pool_s \<Rightarrow> elem_ptr \<Rightarrow> MMDB_entry_data_s \<Rightarrow> MMDB_data_pool_s option" where
  "pool_set_entry pool p e = do {
     el \<leftarrow> pool_get pool p;
     pool_put pool p (el\<lparr>entry_data := e\<rparr>) }"

lemma length_pool_items: "pool_shape s0 pool \<Longrightarrow> length (pool_items s0 pool) = pool_count s0 pool"
  using pool_count_le by (simp add: pool_items_def)

lemma pool_entry_valid:
  assumes "pool_inv s0 pool" and "elem_valid s0 pool p"
  shows "pool_entry pool p = Some (pool_items s0 pool ! elem_pos s0 p)"
    and "elem_pos s0 p < length (pool_items s0 pool)"
proof -
  have shape: "pool_shape s0 pool" using assms(1) by (simp add: pool_inv_def)
  note cell = elem_valid_cell [OF shape assms(2)]
  show "elem_pos s0 p < length (pool_items s0 pool)"
    using cell(2) by (simp add: length_pool_items [OF shape])
  then show "pool_entry pool p = Some (pool_items s0 pool ! elem_pos s0 p)"
    using cell pool_count_le [OF shape] by (simp add: pool_entry_def pool_items_def)
qed

lemma pool_set_entry_valid:
  assumes inv: "pool_inv s0 pool" and valid: "elem_valid s0 pool p"
  shows "\<exists>pool'. pool_set_entry pool p e = Some pool' \<and> pool_inv s0 pool' \<and>
    pool_items s0 pool' = (pool_items s0 pool)[elem_pos s0 p := e] \<and>
    (\<forall>q. elem_valid s0 pool' q = elem_valid s0 pool q)"
proof -
  have shape: "pool_shape s0 pool" using inv by (simp add: pool_inv_def)
  let ?k = "elem_pos s0 p"
  let ?el = "(pool_cells pool ! ?k)\<lparr>entry_data := e\<rparr>"
  note cell = elem_valid_cell [OF shape valid]
  obtain pool' where put: "pool_put pool p ?el = Some pool'" and shape': "pool_shape s0 pool'"
    and cells: "pool_cells pool' = (pool_cells pool)[?k := ?el]"
    and same: "pool_index pool' = pool_index pool" "pool_used pool' = pool_used pool"
    using pool_put_valid [OF shape valid] by blast
  have cnt: "pool_count s0 pool' = pool_count s0 pool" by (simp add: pool_count_def same)
  have k: "?k < length (pool_cells pool)" using cell(2) pool_count_le [OF shape] by simp
  have "pool_inv s0 pool'"
    using inv shape' k cell(2) by (auto simp: pool_inv_def cells cnt drop_update_cancel
        dest!: set_update_subset_insert [THEN subsetD] intro: nth_mem)
  moreover have "pool_items s0 pool' = (pool_items s0 pool)[?k := e]"
    by (simp add: pool_items_def cells cnt take_update_swap map_update)
  moreover have "pool_set_entry pool p e = Some pool'"
    using put by (simp add: pool_set_entry_def cell(1))
  ultimately show ?thesis using same by (simp add: elem_valid_def)
qed

section \<open>The interface of the pool\<close>

text \<open>
  What the traversal of the data section relies on: allocation appends a zero entry to the
  items and returns its pointer, pointers stay valid and keep their position, and an entry
  written through a valid pointer replaces exactly the item at its position.
\<close>

locale entry_pool =
  fixes alloc :: "'p \<Rightarrow> 'r option \<times> 'p"
    and read_entry :: "'p \<Rightarrow> 'r \<Rightarrow> 'e option"
    and write_entry :: "'p \<Rightarrow> 'r \<Rightarrow> 'e \<Rightarrow> 'p option"
    and inv :: "'p \<Rightarrow> bool"
    and items :: "'p \<Rightarrow> 'e list"
    and valid :: "'p \<Rightarrow> 'r \<Rightarrow> bool"
    and pos :: "'r \<Rightarrow> nat"
    and fresh :: 'e
  assumes alloc_Some: "inv p \<Longrightarrow> alloc p = (Some r, p') \<Longrightarrow>
      inv p' \<and> items p' = items p @ [fresh] \<and> valid p' r \<and> pos r = length (items p)"
    and alloc_None: "inv p \<Longrightarrow> alloc p = (None, p') \<Longrightarrow> p' = p"
    and alloc_valid: "inv p \<Longrightarrow> alloc p = (ro, p') \<Longrightarrow> valid p q \<Longrightarrow> valid p' q"
    and read_valid: "inv p \<Longrightarrow> valid p r \<Longrightarrow> read_entry p r = Some (items p ! pos r)"
    and valid_pos: "inv p \<Longrightarrow> valid p r \<Longrightarrow> pos r < length (items p)"
    and write_valid: "inv p \<Longrightarrow> valid p r \<Longrightarrow> \<exists>p'. write_entry p r e = Some p' \<and> inv p' \<and>
      items p' = (items p)[pos r := e] \<and> (\<forall>q. valid p' q = valid p q)"
begin

text \<open>A read-modify-write of one item.\<close>

lemma write_read:
  assumes "inv p" and "valid p r" and "write_entry p r e = Some p'"
  shows "read_entry p' r = Some e"
  using assms write_valid [of p r e] read_valid [of p' r] valid_pos [of p r] by auto

lemma write_items:
  assumes "inv p" and "valid p r" and "items p = xs @ y # ys" and "pos r = length xs"
  shows "\<exists>p'. write_entry p r e = Some p' \<and> inv p' \<and> items p' = xs @ e # ys \<and>
    (\<forall>q. valid p' q = valid p q)"
  using write_valid [of p r e] assms by auto

text \<open>Allocating an element and filling it appends the entry.\<close>

lemma alloc_write:
  assumes "inv p" and "alloc p = (Some r, p1)"
  shows "\<exists>p2. write_entry p1 r e = Some p2 \<and> inv p2 \<and> items p2 = items p @ [e] \<and> valid p2 r"
proof -
  have "inv p1" "items p1 = items p @ [fresh]" "valid p1 r" "pos r = length (items p)"
    using alloc_Some [OF assms] by auto
  then show ?thesis using write_items [of p1 r "items p" fresh "[]" e] by auto
qed

lemma alloc_length:
  "inv p \<Longrightarrow> alloc p = (Some r, p') \<Longrightarrow> length (items p') = Suc (length (items p))"
  using alloc_Some by fastforce

end

interpretation dp: entry_pool
  "data_pool_alloc calloc_ok" pool_entry pool_set_entry
  "pool_inv s0" "pool_items s0" "elem_valid s0" "elem_pos s0" zero_entry
  for calloc_ok :: calloc_env and s0 :: nat
proof (unfold_locales, goal_cases)
  case (1 p r p')
  then show ?case
    using data_pool_alloc_inv [OF 1] data_pool_alloc_grows [of s0 p calloc_ok r p']
      length_pool_items [of s0 p]
    by (simp add: pool_inv_def alloc_grows_def)
next
  case (2 p p')
  then show ?case using data_pool_alloc_None [of s0 p calloc_ok p'] by (simp add: pool_inv_def)
next
  case (3 p r p' q)
  then show ?case using elem_valid_alloc [of s0 p calloc_ok r p' q] by (simp add: pool_inv_def)
next
  case (4 p r)
  then show ?case by (rule pool_entry_valid)
next
  case (5 p r)
  then show ?case by (rule pool_entry_valid)
next
  case (6 p r e)
  then show ?case by (rule pool_set_entry_valid)
qed

section \<open>The finished list\<close>

definition elem_succ :: "nat \<Rightarrow> elem_ptr \<Rightarrow> elem_ptr" where
  "elem_succ s0 p = (if snd p + 1 < s0 * 2 ^ fst p then (fst p, snd p + 1) else (fst p + 1, 0))"

lemma elem_valid_bound:
  "pool_shape s0 pool \<Longrightarrow> elem_valid s0 pool p \<Longrightarrow> fst p \<le> pool_index pool \<and> snd p < s0 * 2 ^ fst p"
  by (auto simp: elem_valid_def pool_shape_def split: if_splits)

lemma elem_pos_block_mono:
  assumes "0 < s0" and "b < b'" and "i < s0 * 2 ^ b"
  shows "elem_pos s0 (b, i) < elem_pos s0 (b', i')"
proof -
  have "s0 * (2 ^ Suc b - 1) \<le> s0 * (2 ^ b' - 1)"
    using assms(2) by (intro mult_le_mono2 diff_le_mono power_increasing) auto
  then have "elem_pos s0 (Suc b, 0) \<le> elem_pos s0 (b', i')"
    unfolding elem_pos_def fst_conv snd_conv by linarith
  moreover have "elem_pos s0 (b, i) < elem_pos s0 (b, s0 * 2 ^ b)"
    using assms(3) by (simp add: elem_pos_def)
  ultimately show ?thesis using elem_pos_next [OF assms(1), of b] by simp
qed

lemma elem_pos_inj:
  assumes "pool_shape s0 pool" and "elem_valid s0 pool p" and "elem_valid s0 pool q"
    and eq: "elem_pos s0 p = elem_pos s0 q"
  shows "p = q"
proof -
  have s0: "0 < s0" using assms(1) by (simp add: pool_shape_def)
  have "snd p < s0 * 2 ^ fst p" "snd q < s0 * 2 ^ fst q"
    using elem_valid_bound assms by blast+
  then have "fst p = fst q"
    using elem_pos_block_mono [OF s0, of "fst p" "fst q" "snd p" "snd q"]
      elem_pos_block_mono [OF s0, of "fst q" "fst p" "snd q" "snd p"] eq
    by (cases "fst p" "fst q" rule: linorder_cases) simp_all
  with eq show ?thesis by (simp add: elem_pos_def prod_eq_iff)
qed

lemma elem_pos_succ:
  assumes "0 < s0" and "snd p < s0 * 2 ^ fst p"
  shows "elem_pos s0 (elem_succ s0 p) = elem_pos s0 p + 1"
proof (cases "snd p + 1 < s0 * 2 ^ fst p")
  case True
  then show ?thesis by (simp add: elem_succ_def elem_pos_def)
next
  case False
  with assms(2) have "s0 * 2 ^ fst p = snd p + 1" by simp
  then have "elem_pos s0 (Suc (fst p), 0) = elem_pos s0 (fst p, snd p + 1)"
    using elem_pos_next [OF assms(1), of "fst p"] by simp
  with False show ?thesis by (simp add: elem_succ_def elem_pos_def)
qed

text \<open>The state of the linking loops: the first \<open>K\<close> elements point to their successors.\<close>

definition linked_to :: "nat \<Rightarrow> MMDB_data_pool_s \<Rightarrow> nat \<Rightarrow> MMDB_data_pool_s \<Rightarrow> bool" where
  "linked_to s0 pool K s \<longleftrightarrow>
     pool_shape s0 s \<and> pool_index s = pool_index pool \<and> pool_used s = pool_used pool \<and>
     map entry_data (pool_cells s) = map entry_data (pool_cells pool) \<and>
     (\<forall>q. elem_valid s0 pool q \<longrightarrow> next_elem (pool_cells s ! elem_pos s0 q) =
        (if elem_pos s0 q < K then Some (elem_succ s0 q) else None))"

lemma elem_valid_cong:
  "pool_index s = pool_index pool \<Longrightarrow> pool_used s = pool_used pool \<Longrightarrow>
     elem_valid s0 s q = elem_valid s0 pool q"
  by (simp add: elem_valid_def)

lemma set_next_linked:
  assumes lk: "linked_to s0 pool K s" and shape: "pool_shape s0 pool"
    and q: "elem_valid s0 pool q" and pos: "elem_pos s0 q = K"
  shows "\<exists>s'. set_next q (Some (elem_succ s0 q)) s = Some s' \<and> linked_to s0 pool (Suc K) s'"
proof -
  have shape_s: "pool_shape s0 s" and same: "pool_index s = pool_index pool" "pool_used s = pool_used pool"
    using lk by (simp_all add: linked_to_def)
  have q': "elem_valid s0 s q" using q elem_valid_cong [OF same] by simp
  note cell = elem_valid_cell [OF shape_s q']
  let ?el = "(pool_cells s ! K)\<lparr>next_elem := Some (elem_succ s0 q)\<rparr>"
  obtain s' where put: "pool_put s q ?el = Some s'" and shape': "pool_shape s0 s'"
    and cells: "pool_cells s' = (pool_cells s)[K := ?el]"
    and same': "pool_index s' = pool_index s" "pool_used s' = pool_used s"
    using pool_put_valid [OF shape_s q', of ?el] pos by metis
  have K: "K < length (pool_cells s)" using cell(2) pool_count_le [OF shape_s] pos by simp
  have "map entry_data (pool_cells s') = map entry_data (pool_cells s)"
    using K by (simp add: cells map_update list_update_same_conv)
  moreover have "next_elem (pool_cells s' ! elem_pos s0 r) =
      (if elem_pos s0 r < Suc K then Some (elem_succ s0 r) else None)" if "elem_valid s0 pool r" for r
  proof (cases "r = q")
    case True
    then show ?thesis using K pos by (simp add: cells)
  next
    case False
    then have "elem_pos s0 r \<noteq> K" using elem_pos_inj [OF shape that q] pos by auto
    then show ?thesis
      using lk that by (simp add: cells linked_to_def less_Suc_eq del: split_paired_All)
  qed
  ultimately have "linked_to s0 pool (Suc K) s'"
    using lk shape' same' by (simp add: linked_to_def)
  moreover have "set_next q (Some (elem_succ s0 q)) s = Some s'"
    using put cell(1) pos by (simp add: set_next_def)
  ultimately show ?thesis by blast
qed

definition block_len :: "nat \<Rightarrow> MMDB_data_pool_s \<Rightarrow> nat \<Rightarrow> nat" where
  "block_len s0 pool i = (if i = pool_index pool then pool_used pool else s0 * 2 ^ i)"

lemma link_inner:
  assumes lk: "linked_to s0 pool (elem_pos s0 (i, 0)) s" and shape: "pool_shape s0 pool"
    and i: "i \<le> pool_index pool" and n: "n < block_len s0 pool i"
  shows "\<exists>s'. for_each [0..<n] (\<lambda>j. set_next (i, j) (Some (i, j + 1))) s = Some s' \<and>
    linked_to s0 pool (elem_pos s0 (i, n)) s'"
proof (rule for_each_upt [where I = "\<lambda>j. linked_to s0 pool (elem_pos s0 (i, j))"])
  fix j s assume j: "j < n" and lk: "linked_to s0 pool (elem_pos s0 (i, j)) s"
  have v: "elem_valid s0 pool (i, j)" "elem_valid s0 pool (i, j + 1)"
    using i j n by (auto simp: elem_valid_def block_len_def)
  have "elem_succ s0 (i, j) = (i, j + 1)"
    using elem_valid_bound [OF shape v(2)] by (simp add: elem_succ_def)
  moreover have "Suc (elem_pos s0 (i, j)) = elem_pos s0 (i, Suc j)" by (simp add: elem_pos_def)
  ultimately show "\<exists>s'. set_next (i, j) (Some (i, j + 1)) s = Some s' \<and>
      linked_to s0 pool (elem_pos s0 (i, Suc j)) s'"
    using set_next_linked [OF lk shape v(1) refl] by simp
qed (rule lk)

lemma block_len_pos:
  assumes "pool_inv s0 pool" and "0 < pool_used pool" and "i \<le> pool_index pool"
  shows "0 < block_len s0 pool i" and "(block_len s0 pool i + 2 ^ 64 - 1) mod 2 ^ 64 = block_len s0 pool i - 1"
proof -
  have shape: "pool_shape s0 pool" using assms(1) by (simp add: pool_inv_def)
  then show pos: "0 < block_len s0 pool i" using assms(2) by (simp add: block_len_def pool_shape_def)
  have "s0 * 2 ^ i \<le> s0 * 2 ^ pool_index pool" using assms(3) by simp
  moreover have "s0 * 2 ^ pool_index pool < 2 ^ 64" "pool_used pool \<le> s0 * 2 ^ pool_index pool"
    using shape by (auto simp: pool_shape_def)
  ultimately have lt: "block_len s0 pool i < 2 ^ 64" unfolding block_len_def by (simp only: split: if_split) linarith
  have "block_len s0 pool i + 2 ^ 64 - 1 = (block_len s0 pool i - 1) + 2 ^ 64" using pos by simp
  then have "(block_len s0 pool i + 2 ^ 64 - 1) mod 2 ^ 64 = (block_len s0 pool i - 1) mod 2 ^ 64" by (metis mod_add_self2)
  also have "\<dots> = block_len s0 pool i - 1" using lt by (intro mod_less) linarith
  finally show "(block_len s0 pool i + 2 ^ 64 - 1) mod 2 ^ 64 = block_len s0 pool i - 1" .
qed

lemma link_block_linked:
  assumes inv: "pool_inv s0 pool" and used: "0 < pool_used pool" and i: "i \<le> pool_index pool"
    and lk: "linked_to s0 pool (elem_pos s0 (i, 0)) s"
  shows "\<exists>s'. link_block i s = Some s' \<and> linked_to s0 pool
    (if i < pool_index pool then elem_pos s0 (Suc i, 0) else pool_count s0 pool - 1) s'"
proof -
  have shape: "pool_shape s0 pool" using inv by (simp add: pool_inv_def)
  let ?n = "block_len s0 pool i"
  note n = block_len_pos [OF inv used i]
  have size1: "(if i = pool_index s then pool_used s else pool_sizes s ! i) = ?n"
    using lk i by (auto simp: linked_to_def block_len_def pool_shape_def)
  obtain s1 where inner: "for_each [0..<?n - 1] (\<lambda>j. set_next (i, j) (Some (i, j + 1))) s = Some s1"
    and lk1: "linked_to s0 pool (elem_pos s0 (i, ?n - 1)) s1"
    using link_inner [OF lk shape i, of "?n - 1"] n(1) by auto
  have idx: "pool_index s1 = pool_index pool" using lk1 by (simp add: linked_to_def)
  have eq: "link_block i s = (if i < pool_index pool
      then set_next (i, ?n - 1) (map_option (\<lambda>_. (i + 1, 0)) (pool_blocks s1 ! (i + 1))) s1
      else Some s1)"
    by (simp only: link_block_def Let_def size1 n(2) inner idx Option.bind.bind_lunit)
  show ?thesis
  proof (cases "i < pool_index pool")
    case True
    have v: "elem_valid s0 pool (i, ?n - 1)" using i n(1) by (auto simp: elem_valid_def block_len_def)
    have "pool_blocks s1 ! Suc i \<noteq> None" using lk1 True pool_blks_nth [of s0 s1 "Suc i"] by (simp add: linked_to_def)
    moreover have "elem_succ s0 (i, ?n - 1) = (i + 1, 0)"
      using True n(1) by (simp add: elem_succ_def block_len_def)
    moreover have "Suc (elem_pos s0 (i, ?n - 1)) = elem_pos s0 (i, ?n)" using n(1) by (simp add: elem_pos_def)
    moreover have "elem_pos s0 (i, ?n) = elem_pos s0 (Suc i, 0)"
      using True elem_pos_next [of s0 i] shape by (simp add: block_len_def pool_shape_def)
    ultimately show ?thesis
      using set_next_linked [OF lk1 shape v refl] True
      by (auto simp: eq)
  next
    case False
    with i have "elem_pos s0 (i, ?n - 1) = pool_count s0 pool - 1"
      using n(1) by (simp add: block_len_def pool_count_def elem_pos_def)
    with lk1 False show ?thesis
      by (simp add: eq)
  qed
qed

lemma linked_to_start:
  assumes "pool_inv s0 pool"
  shows "linked_to s0 pool (elem_pos s0 (0, 0)) pool"
proof -
  have shape: "pool_shape s0 pool" using assms by (simp add: pool_inv_def)
  have "next_elem (pool_cells pool ! elem_pos s0 q) = None" if "elem_valid s0 pool q" for q
    using assms elem_valid_cell(2) [OF shape that] pool_count_le [OF shape]
    by (auto simp: pool_inv_def)
  with shape show ?thesis by (simp add: linked_to_def elem_pos_def del: split_paired_All)
qed

lemma data_pool_to_list_linked:
  assumes inv: "pool_inv s0 pool" and used: "0 < pool_used pool"
  shows "\<exists>pool'. data_pool_to_list pool = Some (Some (0, 0), pool') \<and>
    linked_to s0 pool (pool_count s0 pool - 1) pool'"
proof -
  let ?I = "\<lambda>i s. linked_to s0 pool
    (if i \<le> pool_index pool then elem_pos s0 (i, 0) else pool_count s0 pool - 1) s"
  have "\<exists>s'. for_each [0..<pool_index pool + 1] link_block pool = Some s' \<and> ?I (pool_index pool + 1) s'"
  proof (rule for_each_upt [where I = ?I])
    fix i s assume "i < pool_index pool + 1" and "?I i s"
    then show "\<exists>s'. link_block i s = Some s' \<and> ?I (Suc i) s'"
      using link_block_linked [OF inv used, of i s] by (auto simp: Suc_le_eq split: if_splits)
  qed (use linked_to_start [OF inv] in simp)
  then obtain s' where run: "for_each [0..<pool_index pool + 1] link_block pool = Some s'"
    and lk: "linked_to s0 pool (pool_count s0 pool - 1) s'" by auto
  have "pool_blocks s' ! 0 \<noteq> None"
    using lk pool_blks_nth [of s0 s' 0] by (simp add: linked_to_def)
  then show ?thesis
    using run lk used by (auto simp: data_pool_to_list_def simp del: upt_Suc)
qed

lemma elem_succ_valid:
  assumes shape: "pool_shape s0 pool" and used: "0 < pool_used pool" and q: "elem_valid s0 pool q"
    and pos: "elem_pos s0 q + 1 < pool_count s0 pool"
  shows "elem_valid s0 pool (elem_succ s0 q)"
proof (cases "fst q = pool_index pool")
  case True
  then have "snd q + 1 < pool_used pool" using pos by (simp add: pool_count_def elem_pos_def)
  moreover have "pool_used pool \<le> s0 * 2 ^ pool_index pool" using shape by (simp add: pool_shape_def)
  ultimately show ?thesis using True by (simp add: elem_succ_def elem_valid_def)
next
  case False
  then have b: "fst q < pool_index pool" using elem_valid_bound [OF shape q] by simp
  moreover have "0 < s0" using shape by (simp add: pool_shape_def)
  ultimately show ?thesis using used False by (auto simp: elem_succ_def elem_valid_def)
qed

lemma list_entries_linked:
  assumes lk: "linked_to s0 pool (pool_count s0 pool - 1) s" and inv: "pool_inv s0 pool"
    and used: "0 < pool_used pool"
    and q: "elem_valid s0 pool q" and fuel: "pool_count s0 pool \<le> elem_pos s0 q + fuel"
  shows "list_entries s fuel (Some q) = Some (drop (elem_pos s0 q) (pool_items s0 pool))"
  using q fuel
proof (induction fuel arbitrary: q)
  have shape: "pool_shape s0 pool" using inv by (simp add: pool_inv_def)
  {
    case 0
    then show ?case using elem_valid_cell(2) [OF shape 0(1)] by simp
  next
    case (Suc fuel)
    have shape_s: "pool_shape s0 s" and same: "pool_index s = pool_index pool" "pool_used s = pool_used pool"
      and data: "map entry_data (pool_cells s) = map entry_data (pool_cells pool)"
      using lk by (simp_all add: linked_to_def)
    have q': "elem_valid s0 s q" using Suc.prems(1) elem_valid_cong [OF same] by simp
    let ?k = "elem_pos s0 q"
    have k: "?k < pool_count s0 pool" using elem_valid_cell(2) [OF shape Suc.prems(1)] .
    have items: "pool_items s0 pool = take (pool_count s0 pool) (map entry_data (pool_cells s))"
      by (simp add: pool_items_def data take_map)
    have "entry_data (pool_cells s ! ?k) = pool_items s0 pool ! ?k"
      using k pool_count_le [OF shape_s] same by (simp add: items pool_count_def)
    moreover have "drop ?k (pool_items s0 pool) =
        pool_items s0 pool ! ?k # drop (Suc ?k) (pool_items s0 pool)"
      using k by (simp add: Cons_nth_drop_Suc length_pool_items [OF shape])
    moreover have nx: "next_elem (pool_cells s ! ?k) =
        (if ?k < pool_count s0 pool - 1 then Some (elem_succ s0 q) else None)"
      using lk Suc.prems(1) by (simp add: linked_to_def del: split_paired_All)
    moreover have "list_entries s fuel (next_elem (pool_cells s ! ?k)) =
        Some (drop (Suc ?k) (pool_items s0 pool))"
    proof (cases "?k < pool_count s0 pool - 1")
      case True
      then have "elem_valid s0 pool (elem_succ s0 q)"
        using elem_succ_valid [OF shape used Suc.prems(1)] by simp
      moreover have "elem_pos s0 (elem_succ s0 q) = Suc ?k"
        using elem_pos_succ [of s0 q] elem_valid_bound [OF shape Suc.prems(1)] shape
        by (simp add: pool_shape_def)
      ultimately show ?thesis using Suc.IH [of "elem_succ s0 q"] Suc.prems(2) True nx by simp
    next
      case False
      then show ?thesis using nx k by (simp add: length_pool_items [OF shape])
    qed
    ultimately show ?case using elem_valid_cell(1) [OF shape_s q'] by simp
  }
qed

lemma data_pool_to_list_items:
  assumes inv: "pool_inv s0 pool" and ne: "pool_items s0 pool \<noteq> []"
  shows "\<exists>pool'. data_pool_to_list pool = Some (Some (0, 0), pool') \<and>
    list_entries pool' (length (pool_items s0 pool)) (Some (0, 0)) = Some (pool_items s0 pool)"
proof -
  have shape: "pool_shape s0 pool" using inv by (simp add: pool_inv_def)
  have "pool_count s0 pool \<noteq> 0" using ne by (simp flip: length_pool_items [OF shape])
  then have used: "0 < pool_used pool"
    using shape by (cases "pool_index pool") (auto simp: pool_count_def elem_pos_def pool_shape_def)
  have v: "elem_valid s0 pool (0, 0)" using shape used by (simp add: elem_valid_def pool_shape_def)
  obtain pool' where "data_pool_to_list pool = Some (Some (0, 0), pool')"
    and "linked_to s0 pool (pool_count s0 pool - 1) pool'"
    using data_pool_to_list_linked [OF inv used] by blast
  with list_entries_linked [OF _ inv used v, of pool' "length (pool_items s0 pool)"]
  show ?thesis by (simp add: elem_pos_def length_pool_items [OF shape])
qed

lemma data_pool_to_list_empty:
  "pool_inv s0 pool \<Longrightarrow> pool_items s0 pool = [] \<Longrightarrow> data_pool_to_list pool = Some (None, pool)"
  using length_pool_items [of s0 pool]
  by (cases "pool_index pool")
    (auto simp: data_pool_to_list_def pool_inv_def pool_count_def elem_pos_def pool_shape_def)

section \<open>Executable forms\<close>

text \<open>Code equations that compute with \<open>size_t\<close> values as integers instead of unary numbers.\<close>

lemma can_multiply_int:
  "can_multiply SIZE_MAX m n \<longleftrightarrow> m \<noteq> 0 \<and> int n \<le> 18446744073709551615 div int m"
  "can_multiply (nat SSIZE_MAX) m n \<longleftrightarrow> m \<noteq> 0 \<and> int n \<le> 9223372036854775807 div int m"
  using zdiv_int [of SIZE_MAX m] zdiv_int [of "nat SSIZE_MAX" m] by (auto simp: can_multiply_def)

lemma size_t_double: "(n * 2) mod 2 ^ 64 = nat (int n * 2 mod 18446744073709551616)"
proof -
  have "int (n * 2 mod 2 ^ 64) = int n * 2 mod 18446744073709551616" by (simp only: zmod_int of_nat_mult) simp
  then show ?thesis by (metis nat_int)
qed

lemma size_t_pred: "(n + 2 ^ 64 - 1) mod 2 ^ 64 = nat ((int n - 1) mod 18446744073709551616)"
proof -
  have "int (n + 2 ^ 64 - 1) = int n - 1 + 18446744073709551616" by (simp add: of_nat_diff)
  then have "int ((n + 2 ^ 64 - 1) mod 2 ^ 64) = (int n - 1 + 18446744073709551616) mod 18446744073709551616"
    by (simp only: zmod_int) simp
  then have "int ((n + 2 ^ 64 - 1) mod 2 ^ 64) = (int n - 1) mod 18446744073709551616"
    by (simp only: mod_add_self2)
  then show ?thesis by (metis nat_int)
qed

lemmas data_pool_code [code] =
  data_pool_new_def [unfolded can_multiply_int]
  data_pool_alloc_def [unfolded can_multiply_int size_t_double]
  link_block_def [unfolded size_t_pred]

end
