(* ===== verification/Entry_List.thy ===== *)
theory Entry_List
  imports Unique_Values Data_Pool
begin

text \<open>
  \<open>MMDB_get_entry_data_list\<close>, \<open>MMDB_get_metadata_as_entry_data_list\<close> and the recursive
  \<open>get_entry_data_list\<close> of \<open>src/maxminddb.c\<close>: a value is unfolded into a linked list of its
  entries in preorder. The list elements live in a data pool that the functions pass along;
  an element is named by its pointer, and its entry is decoded in place.
\<close>

abbreviation (input) MMDB_POOL_INIT_SIZE :: nat where "MMDB_POOL_INIT_SIZE \<equiv> 64"

section \<open>get_entry_data_list\<close>

text \<open>\<open>decode_one(mmdb, offset, &entry_data_list->entry_data)\<close>\<close>

definition decode_into :: "MMDB_s \<Rightarrow> u32 \<Rightarrow> elem_ptr \<Rightarrow> MMDB_data_pool_s \<Rightarrow> MMDB_data_pool_s run" where
  "decode_into db offset p pool = do {
     e0 \<leftarrow> pool_entry pool p;
     (st, e) \<leftarrow> decode_one db offset e0;
     pool \<leftarrow> pool_set_entry pool p e;
     Some (st, pool) }"

text \<open>\<open>entry_data_list->entry_data.offset_to_next = next\<close>\<close>

definition set_entry_next :: "elem_ptr \<Rightarrow> u32 \<Rightarrow> MMDB_data_pool_s \<Rightarrow> MMDB_data_pool_s run" where
  "set_entry_next p nxt pool = do {
     e \<leftarrow> pool_entry pool p;
     pool \<leftarrow> pool_set_entry pool p (e\<lparr>offset_to_next := nxt\<rparr>);
     Some (MMDB_SUCCESS, pool) }"

text \<open>
  One element of a container: an element is allocated, the value at the offset is unfolded
  into it with the recursive call \<open>get\<close>, and its successor is the next offset.
\<close>

definition list_element ::
  "calloc_env \<Rightarrow> (u32 \<Rightarrow> elem_ptr \<Rightarrow> MMDB_data_pool_s \<Rightarrow> MMDB_data_pool_s run) \<Rightarrow>
     u32 \<times> MMDB_data_pool_s \<Rightarrow> (u32 \<times> MMDB_data_pool_s) run" where
  "list_element calloc_ok get s =
    (case s of (offset, pool) \<Rightarrow>
     case data_pool_alloc calloc_ok pool of
       (None, pool) \<Rightarrow> Some (MMDB_OUT_OF_MEMORY_ERROR, (offset, pool))
     | (Some q, pool) \<Rightarrow>
         chk_with (\<lambda>pool. (offset, pool)) (get offset q pool) (\<lambda>pool. do {
           e \<leftarrow> pool_entry pool q;
           Some (MMDB_SUCCESS, (offset_to_next e, pool)) }))"

text \<open>The three cases of the switch, over the recursive call \<open>get\<close>; \<open>e\<close> is the decoded entry.\<close>

definition list_of_pointer ::
  "MMDB_s \<Rightarrow> (u32 \<Rightarrow> elem_ptr \<Rightarrow> MMDB_data_pool_s \<Rightarrow> MMDB_data_pool_s run) \<Rightarrow> elem_ptr \<Rightarrow>
     MMDB_entry_data_s \<Rightarrow> MMDB_data_pool_s \<Rightarrow> MMDB_data_pool_s run" where
  "list_of_pointer db get p e pool = do {
     last_offset \<leftarrow> union_pointer (ed_value e);
     chk (decode_into db last_offset p pool) (\<lambda>pool. do {
       e' \<leftarrow> pool_entry pool p;
       if ed_type e' = MMDB_DATA_TYPE_POINTER then Some (MMDB_INVALID_DATA_ERROR, pool)
       else
         chk (if ed_type e' = MMDB_DATA_TYPE_ARRAY \<or> ed_type e' = MMDB_DATA_TYPE_MAP
              then get last_offset p pool
              else Some (MMDB_SUCCESS, pool))
           (set_entry_next p (offset_to_next e)) }) }"

definition list_of_array ::
  "calloc_env \<Rightarrow> MMDB_s \<Rightarrow> (u32 \<Rightarrow> elem_ptr \<Rightarrow> MMDB_data_pool_s \<Rightarrow> MMDB_data_pool_s run) \<Rightarrow>
     elem_ptr \<Rightarrow> MMDB_entry_data_s \<Rightarrow> MMDB_data_pool_s \<Rightarrow> MMDB_data_pool_s run" where
  "list_of_array calloc_ok db get p e pool =
    (let array_offset = offset_to_next e in
     if array_offset > data_section_size db \<or> data_size e > data_section_size db - array_offset
     then Some (MMDB_INVALID_DATA_ERROR, pool)
     else
       chk_with snd
         (c_repeat (unat (data_size e)) (list_element calloc_ok get) (array_offset, pool))
         (\<lambda>(array_offset, pool). set_entry_next p array_offset pool))"

definition list_of_map ::
  "calloc_env \<Rightarrow> MMDB_s \<Rightarrow> (u32 \<Rightarrow> elem_ptr \<Rightarrow> MMDB_data_pool_s \<Rightarrow> MMDB_data_pool_s run) \<Rightarrow>
     elem_ptr \<Rightarrow> MMDB_entry_data_s \<Rightarrow> MMDB_data_pool_s \<Rightarrow> MMDB_data_pool_s run" where
  "list_of_map calloc_ok db get p e pool =
    (let map_offset = offset_to_next e in
     if map_offset > data_section_size db \<or> data_size e > (data_section_size db - map_offset) div 2
     then Some (MMDB_INVALID_DATA_ERROR, pool)
     else
       chk_with snd
         (c_repeat (unat (data_size e))
           (\<lambda>s. chk (list_element calloc_ok get s) (list_element calloc_ok get)) (map_offset, pool))
         (\<lambda>(map_offset, pool). set_entry_next p map_offset pool))"

function get_entry_data_list ::
  "calloc_env \<Rightarrow> MMDB_s \<Rightarrow> u32 \<Rightarrow> elem_ptr \<Rightarrow> MMDB_data_pool_s \<Rightarrow> nat \<Rightarrow> MMDB_data_pool_s run" where
  "get_entry_data_list calloc_ok db offset p pool depth =
    (if depth \<ge> MAXIMUM_DATA_STRUCTURE_DEPTH then Some (MMDB_INVALID_DATA_ERROR, pool)
     else
       let get = (\<lambda>offset p pool. get_entry_data_list calloc_ok db offset p pool (depth + 1)) in
       chk (decode_into db offset p pool) (\<lambda>pool. do {
         e \<leftarrow> pool_entry pool p;
         if ed_type e = MMDB_DATA_TYPE_POINTER then list_of_pointer db get p e pool
         else if ed_type e = MMDB_DATA_TYPE_ARRAY then list_of_array calloc_ok db get p e pool
         else if ed_type e = MMDB_DATA_TYPE_MAP then list_of_map calloc_ok db get p e pool
         else Some (MMDB_SUCCESS, pool) }))"
  by pat_completeness auto
termination
  by (relation "measure (\<lambda>(ok, db, offset, p, pool, depth). MAXIMUM_DATA_STRUCTURE_DEPTH - depth)") auto

declare get_entry_data_list.simps [simp del]

section \<open>MMDB_get_entry_data_list\<close>

text \<open>
  The result is the pool with the pointer to its first element, or \<^term>\<open>None\<close> for a list
  pointer of \<open>NULL\<close> after the pool has been destroyed.
\<close>

definition MMDB_get_entry_data_list ::
  "calloc_env \<Rightarrow> MMDB_entry_s \<Rightarrow> (elem_ptr \<times> MMDB_data_pool_s) option run" where
  "MMDB_get_entry_data_list calloc_ok start =
    (case data_pool_new calloc_ok MMDB_POOL_INIT_SIZE of
       None \<Rightarrow> Some (MMDB_OUT_OF_MEMORY_ERROR, None)
     | Some pool \<Rightarrow>
       (case data_pool_alloc calloc_ok pool of
          (None, pool) \<Rightarrow> Some (MMDB_OUT_OF_MEMORY_ERROR, None)
        | (Some list, pool) \<Rightarrow>
            chk_with (\<lambda>_. None)
              (get_entry_data_list calloc_ok (entry_mmdb start) (entry_offset start) list pool 0)
              (\<lambda>pool. do {
                (first, pool) \<leftarrow> data_pool_to_list pool;
                case first of
                  None \<Rightarrow> Some (MMDB_OUT_OF_MEMORY_ERROR, None)
                | Some p \<Rightarrow> Some (MMDB_SUCCESS, Some (p, pool)) })))"

definition MMDB_get_metadata_as_entry_data_list ::
  "calloc_env \<Rightarrow> MMDB_s \<Rightarrow> (elem_ptr \<times> MMDB_data_pool_s) option run" where
  "MMDB_get_metadata_as_entry_data_list calloc_ok db =
     MMDB_get_entry_data_list calloc_ok
       \<lparr>entry_mmdb = make_fake_metadata_db db, entry_offset = 0\<rparr>"

text \<open>
  \<open>MMDB_free_entry_data_list\<close>: the blocks handed to \<open>free\<close>. The pool of a list is known to
  its first element; a pointer to another element is an invalid access here, where the C code
  would destroy a null pool and free nothing.
\<close>

definition MMDB_free_entry_data_list ::
  "MMDB_data_pool_s \<Rightarrow> elem_ptr option \<Rightarrow> nat list option" where
  "MMDB_free_entry_data_list pool list =
    (case list of
       None \<Rightarrow> Some []
     | Some p \<Rightarrow> do {
         el \<leftarrow> pool_get pool p;
         Some (if elem_pool el then data_pool_destroy pool else []) })"

section \<open>Memory safety and shape of the list\<close>

text \<open>An entry of a finished list, and the number of elements that must follow it.\<close>

definition entry_ok :: "MMDB_s \<Rightarrow> MMDB_entry_data_s \<Rightarrow> bool" where
  "entry_ok db e \<longleftrightarrow> value_ok db e \<and> ed_type e \<noteq> MMDB_DATA_TYPE_POINTER"

definition children :: "MMDB_entry_data_s \<Rightarrow> nat" where
  "children e =
    (if ed_type e = MMDB_DATA_TYPE_MAP then 2 * unat (data_size e)
     else if ed_type e = MMDB_DATA_TYPE_ARRAY then unat (data_size e) else 0)"

text \<open>
  \<open>pending k es\<close>: while \<open>k\<close> subtrees are still to come, the entries \<open>es\<close> are read; the result is
  the number of subtrees that remain. \<open>pending 1 es = Some 0\<close> says that \<open>es\<close> is one tree in preorder.
\<close>

fun pending :: "nat \<Rightarrow> MMDB_entry_data_s list \<Rightarrow> nat option" where
  "pending k [] = Some k"
| "pending 0 (e # es) = None"
| "pending (Suc k) (e # es) = pending (children e + k) es"

lemma pending_append: "pending k (xs @ ys) = Option.bind (pending k xs) (\<lambda>k. pending k ys)"
  by (induction k xs rule: pending.induct) auto

lemma pending_add: "pending k es = Some r \<Longrightarrow> pending (k + m) es = Some (r + m)"
proof (induction k es arbitrary: r rule: pending.induct)
  case (3 k e es)
  then show ?case by (simp add: add.assoc)
qed auto

lemma pending_length: "pending k es = Some 0 \<Longrightarrow> k \<le> length es"
  by (induction k es rule: pending.induct) auto

lemma pending_both: "pending k xs = Some 0 \<Longrightarrow> pending l ys = Some 0 \<Longrightarrow> pending (k + l) (xs @ ys) = Some 0"
  using pending_add [of k xs 0 l] by (simp add: pending_append)

lemma entry_ok_next [simp]:
  "entry_ok db (e\<lparr>offset_to_next := n\<rparr>) = entry_ok db e"
  "children (e\<lparr>offset_to_next := n\<rparr>) = children e"
  by (simp_all add: entry_ok_def children_def)

text \<open>
  The result of every step, also when it fails: the pool keeps its invariant, no element
  disappears, and the status is one of three. When it succeeds, at least \<open>k\<close> elements
  have been appended, or the element \<open>p\<close> has been filled with an entry
  whose type satisfies \<open>P\<close> and its children have been appended.
\<close>

definition list_safe :: "nat \<Rightarrow> MMDB_data_pool_s \<Rightarrow> mmdb_status \<Rightarrow> MMDB_data_pool_s \<Rightarrow> bool" where
  "list_safe s0 pool st pool' \<longleftrightarrow>
     pool_inv s0 pool' \<and> (\<forall>q. elem_valid s0 pool q \<longrightarrow> elem_valid s0 pool' q) \<and>
     st \<in> {MMDB_SUCCESS, MMDB_INVALID_DATA_ERROR, MMDB_OUT_OF_MEMORY_ERROR}"

definition list_grows ::
  "nat \<Rightarrow> MMDB_s \<Rightarrow> nat \<Rightarrow> MMDB_data_pool_s \<Rightarrow> mmdb_status \<Rightarrow> u32 \<times> MMDB_data_pool_s \<Rightarrow> bool" where
  "list_grows s0 db k pool st s' \<longleftrightarrow> list_safe s0 pool st (snd s') \<and>
     (st = MMDB_SUCCESS \<longrightarrow> (\<exists>more. pool_items s0 (snd s') = pool_items s0 pool @ more \<and>
        pending k more = Some 0 \<and> list_all (entry_ok db) more))"

definition list_fills ::
  "nat \<Rightarrow> MMDB_s \<Rightarrow> (u32 \<Rightarrow> bool) \<Rightarrow> elem_ptr \<Rightarrow> MMDB_data_pool_s \<Rightarrow> mmdb_status \<Rightarrow>
     MMDB_data_pool_s \<Rightarrow> bool" where
  "list_fills s0 db P p pool st pool' \<longleftrightarrow> list_safe s0 pool st pool' \<and>
     (st = MMDB_SUCCESS \<longrightarrow> (\<exists>e more. pool_items s0 pool' = (pool_items s0 pool)[elem_pos s0 p := e] @ more \<and>
        P (ed_type e) \<and> entry_ok db e \<and> pending (children e) more = Some 0 \<and> list_all (entry_ok db) more))"

lemma list_safe_trans:
  "list_safe s0 pool st pool' \<Longrightarrow> list_safe s0 pool' st' pool'' \<Longrightarrow> list_safe s0 pool st' pool''"
  by (auto simp: list_safe_def)

lemma list_safeD:
  "list_safe s0 pool st pool' \<Longrightarrow> pool_inv s0 pool'"
  "list_safe s0 pool st pool' \<Longrightarrow> elem_valid s0 pool q \<Longrightarrow> elem_valid s0 pool' q"
  unfolding list_safe_def by blast+

lemma list_safe_same:
  assumes "pool_inv s0 pool'" and "\<forall>q. elem_valid s0 pool' q = elem_valid s0 pool q"
    and "st \<in> {MMDB_SUCCESS, MMDB_INVALID_DATA_ERROR, MMDB_OUT_OF_MEMORY_ERROR}"
  shows "list_safe s0 pool st pool'"
  using assms unfolding list_safe_def by blast

lemma list_grows_trans:
  "list_grows s0 db k pool MMDB_SUCCESS s' \<Longrightarrow> list_grows s0 db l (snd s') st s'' \<Longrightarrow>
     list_grows s0 db (k + l) pool st s''"
  by (auto simp: list_grows_def pending_both simp del: split_paired_All intro: list_safe_trans)

text \<open>Decoding into an element, and setting its successor, replace its entry only.\<close>

lemma decode_into_wp:
  assumes wf: "wf_section db" and inv: "pool_inv s0 pool" and p: "elem_valid s0 pool p"
  obtains st pool' e e0 where "decode_into db offset p pool = Some (st, pool')"
    and "decode_one db offset e0 = Some (st, e)"
    and "decode_post (decoded_at db offset) st e" and "pool_entry pool' p = Some e"
    and "pool_inv s0 pool'" and "\<forall>q. elem_valid s0 pool' q = elem_valid s0 pool q"
    and "pool_items s0 pool' = (pool_items s0 pool)[elem_pos s0 p := e]"
proof -
  obtain e0 where e0: "pool_entry pool p = Some e0" using dp.read_valid [OF inv p] by blast
  obtain st e where dec: "decode_one db offset e0 = Some (st, e)"
    and post: "decode_post (decoded_at db offset) st e"
    using decode_one_wp [OF wf, of offset e0] by (auto simp: wp_iff_ex)
  obtain pool' where set: "pool_set_entry pool p e = Some pool'"
    and "pool_inv s0 pool'" "\<forall>q. elem_valid s0 pool' q = elem_valid s0 pool q"
    "pool_items s0 pool' = (pool_items s0 pool)[elem_pos s0 p := e]"
    using dp.write_valid [OF inv p, of e] by blast
  moreover have "pool_entry pool' p = Some e" by (rule dp.write_read [OF inv p set])
  ultimately show ?thesis
    using e0 dec post that by (simp add: decode_into_def del: split_paired_All)
qed

lemma set_entry_next_wp:
  assumes inv: "pool_inv s0 pool" and p: "elem_valid s0 pool p"
  obtains pool' where "set_entry_next p nxt pool = Some (MMDB_SUCCESS, pool')"
    and "pool_inv s0 pool'" and "\<forall>q. elem_valid s0 pool' q = elem_valid s0 pool q"
    and "pool_items s0 pool' = (pool_items s0 pool)
      [elem_pos s0 p := (pool_items s0 pool ! elem_pos s0 p)\<lparr>offset_to_next := nxt\<rparr>]"
proof -
  have e: "pool_entry pool p = Some (pool_items s0 pool ! elem_pos s0 p)" using dp.read_valid [OF inv p] .
  obtain pool' where "pool_set_entry pool p ((pool_items s0 pool ! elem_pos s0 p)\<lparr>offset_to_next := nxt\<rparr>) = Some pool'"
    and "pool_inv s0 pool'" "\<forall>q. elem_valid s0 pool' q = elem_valid s0 pool q"
    "pool_items s0 pool' = (pool_items s0 pool)
      [elem_pos s0 p := (pool_items s0 pool ! elem_pos s0 p)\<lparr>offset_to_next := nxt\<rparr>]"
    using dp.write_valid [OF inv p] by blast
  with e that show ?thesis by (simp add: set_entry_next_def del: split_paired_All)
qed

text \<open>The recursive call that the three cases may rely on.\<close>

definition get_safe ::
  "nat \<Rightarrow> MMDB_s \<Rightarrow> (u32 \<Rightarrow> elem_ptr \<Rightarrow> MMDB_data_pool_s \<Rightarrow> MMDB_data_pool_s run) \<Rightarrow> bool" where
  "get_safe s0 db get \<longleftrightarrow> (\<forall>offset q pool. pool_inv s0 pool \<longrightarrow> elem_valid s0 pool q \<longrightarrow>
     wp (get offset q pool) (list_fills s0 db (\<lambda>_. True) q pool))"

lemma get_safeD: "get_safe s0 db get \<Longrightarrow> pool_inv s0 pool \<Longrightarrow> elem_valid s0 pool q \<Longrightarrow>
    wp (get offset q pool) (list_fills s0 db (\<lambda>_. True) q pool)"
  unfolding get_safe_def by blast

lemma list_element_safe:
  assumes get: "get_safe s0 db get" and inv: "pool_inv s0 pool"
  shows "wp (list_element calloc_ok get (offset, pool)) (list_grows s0 db 1 pool)"
proof -
  obtain r pool1 where alloc: "data_pool_alloc calloc_ok pool = (r, pool1)" by fastforce
  show ?thesis
  proof (cases r)
    case None
    then show ?thesis
      using alloc inv dp.alloc_None [of s0 pool calloc_ok pool1]
      by (simp add: list_element_def list_safe_def list_grows_def)
  next
    case (Some q)
    have pool1: "pool_inv s0 pool1" "elem_valid s0 pool1 q"
      and items1: "pool_items s0 pool1 = pool_items s0 pool @ [zero_entry]"
        "elem_pos s0 q = length (pool_items s0 pool)"
      and keep: "list_safe s0 pool MMDB_SUCCESS pool1"
      using alloc inv Some dp.alloc_Some [of s0 pool calloc_ok q pool1] dp.alloc_valid [of s0 pool calloc_ok r pool1]
      by (auto simp: list_safe_def)
    have "wp (chk_with (\<lambda>pool. (offset, pool)) (get offset q pool1) (\<lambda>pool. do {
        e \<leftarrow> pool_entry pool q; Some (MMDB_SUCCESS, (offset_to_next e, pool)) }))
        (list_grows s0 db 1 pool)"
      unfolding wp_chk_with
    proof (rule wp_mono [OF get_safeD [OF get pool1]])
      fix st pool2
      assume fills: "list_fills s0 db (\<lambda>_. True) q pool1 st pool2"
      then have safe: "list_safe s0 pool st pool2"
        using list_safe_trans [OF keep] by (auto simp: list_fills_def)
      have "list_safe s0 pool1 st pool2" using fills by (simp add: list_fills_def)
      then have "elem_valid s0 pool2 q" and inv2: "pool_inv s0 pool2"
        using list_safeD pool1(2) by blast+
      then obtain e where "pool_entry pool2 q = Some e" using dp.read_valid by blast
      then show "if st = MMDB_SUCCESS
          then wp (do { e \<leftarrow> pool_entry pool2 q; Some (MMDB_SUCCESS, (offset_to_next e, pool2)) })
            (list_grows s0 db 1 pool)
          else list_grows s0 db 1 pool st (offset, pool2)"
        using safe fills items1 by (auto simp: list_grows_def list_fills_def)
    qed
    then show ?thesis using alloc Some by (simp add: list_element_def)
  qed
qed

lemma chk_list_grows:
  assumes m: "wp m (list_grows s0 db k pool)"
    and f: "\<And>s'. pool_inv s0 (snd s') \<Longrightarrow> wp (f s') (list_grows s0 db l (snd s'))"
  shows "wp (chk m f) (list_grows s0 db (k + l) pool)"
  unfolding wp_chk_with
proof (rule wp_mono [OF m])
  fix st and s' :: "u32 \<times> MMDB_data_pool_s"
  assume grows: "list_grows s0 db k pool st s'"
  then have "pool_inv s0 (snd s')" using list_safeD(1) by (auto simp: list_grows_def)
  note next_step = f [OF this]
  show "if st = MMDB_SUCCESS then wp (f s') (list_grows s0 db (k + l) pool)
    else list_grows s0 db (k + l) pool st s'"
  proof (cases "st = MMDB_SUCCESS")
    case True
    have "wp (f s') (list_grows s0 db (k + l) pool)"
      by (rule wp_mono [OF next_step]) (rule list_grows_trans [OF grows [unfolded True]])
    with True show ?thesis by simp
  qed (use grows in \<open>simp add: list_grows_def\<close>)
qed

lemma c_repeat_list_grows:
  assumes body: "\<And>s. pool_inv s0 (snd s) \<Longrightarrow> wp (body s) (list_grows s0 db k (snd s))"
    and inv: "pool_inv s0 (snd s)"
  shows "wp (c_repeat n body s) (list_grows s0 db (n * k) (snd s))"
  using inv
proof (induction n arbitrary: s)
  case 0
  then show ?case by (simp add: list_grows_def list_safe_def)
next
  case (Suc n)
  show ?case
    unfolding c_repeat.simps mult_Suc
    by (rule chk_list_grows [OF body [OF Suc.prems]]) (use Suc.IH in auto)
qed

lemma list_of_elements_safe:
  assumes run: "wp run (list_grows s0 db (children e) pool)"
    and inv: "pool_inv s0 pool" and p: "elem_valid s0 pool p"
    and e: "pool_entry pool p = Some e" "entry_ok db e" and P: "P (ed_type e)"
  shows "wp (chk_with snd run (\<lambda>(off, pool). set_entry_next p off pool)) (list_fills s0 db P p pool)"
  unfolding wp_chk_with
proof (rule wp_mono [OF run])
  fix st and s :: "u32 \<times> MMDB_data_pool_s"
  assume grows: "list_grows s0 db (children e) pool st s"
  then have safe: "list_safe s0 pool st (snd s)" by (simp add: list_grows_def)
  note inv' = list_safeD(1) [OF safe] and p' = list_safeD(2) [OF safe p]
  obtain pool' where set: "set_entry_next p (fst s) (snd s) = Some (MMDB_SUCCESS, pool')"
    and pool': "pool_inv s0 pool'" "\<forall>q. elem_valid s0 pool' q = elem_valid s0 (snd s) q"
      "pool_items s0 pool' = (pool_items s0 (snd s))
        [elem_pos s0 p := (pool_items s0 (snd s) ! elem_pos s0 p)\<lparr>offset_to_next := fst s\<rparr>]"
    using set_entry_next_wp [OF inv' p'] .
  have pos: "elem_pos s0 p < length (pool_items s0 pool)" by (rule dp.valid_pos [OF inv p])
  have e': "pool_items s0 pool ! elem_pos s0 p = e" using dp.read_valid [OF inv p] e by simp
  have "list_safe s0 pool MMDB_SUCCESS pool'"
    by (rule list_safe_trans [OF safe]) (rule list_safe_same [OF pool'(1,2)], simp)
  then have "list_fills s0 db P p pool MMDB_SUCCESS pool'" if st: "st = MMDB_SUCCESS"
  proof -
    obtain more where more: "pool_items s0 (snd s) = pool_items s0 pool @ more"
      "pending (children e) more = Some 0" "list_all (entry_ok db) more"
      using grows st by (auto simp: list_grows_def)
    then have "pool_items s0 pool' = (pool_items s0 pool)[elem_pos s0 p := e\<lparr>offset_to_next := fst s\<rparr>] @ more"
      using pool'(3) pos e' by (simp add: nth_append list_update_append)
    moreover have "entry_ok db (e\<lparr>offset_to_next := fst s\<rparr>)" using e(2) by simp
    moreover have "pending (children (e\<lparr>offset_to_next := fst s\<rparr>)) more = Some 0" using more by simp
    moreover have "P (ed_type (e\<lparr>offset_to_next := fst s\<rparr>))" using P by simp
    ultimately show ?thesis
      using \<open>list_safe s0 pool MMDB_SUCCESS pool'\<close> more(3) unfolding list_fills_def by blast
  qed
  then show "if st = MMDB_SUCCESS then wp (case s of (off, pool) \<Rightarrow> set_entry_next p off pool) (list_fills s0 db P p pool)
      else list_fills s0 db P p pool st (snd s)"
    using set safe by (auto simp: list_fills_def case_prod_beta)
qed

lemma list_fills_self:
  assumes "pool_inv s0 pool" and "elem_valid s0 pool p" and "pool_entry pool p = Some e"
    and "entry_ok db e" and "children e = 0" and "P (ed_type e)"
  shows "list_fills s0 db P p pool MMDB_SUCCESS pool"
proof -
  have "e = pool_items s0 pool ! elem_pos s0 p" using dp.read_valid [OF assms(1,2)] assms(3) by simp
  moreover have "elem_pos s0 p < length (pool_items s0 pool)" by (rule dp.valid_pos [OF assms(1,2)])
  ultimately have "pool_items s0 pool = (pool_items s0 pool)[elem_pos s0 p := e] @ []" by simp
  moreover have "list_safe s0 pool MMDB_SUCCESS pool" using assms(1) by (simp add: list_safe_def)
  ultimately show ?thesis
    using assms(4,5,6) unfolding list_fills_def
    by (intro conjI impI exI [of _ e] exI [of _ "[]"]) simp_all
qed

text \<open>Replacing the entry of \<open>p\<close> first does not change what is filled.\<close>

lemma list_fills_after:
  assumes "list_fills s0 db P p pool1 st pool'" and "list_safe s0 pool MMDB_SUCCESS pool1"
    and "pool_items s0 pool1 = (pool_items s0 pool)[elem_pos s0 p := e]"
  shows "list_fills s0 db P p pool st pool'"
  using assms list_safe_trans [OF assms(2)] by (auto simp: list_fills_def)

lemma list_of_array_safe:
  assumes get: "get_safe s0 db get" and inv: "pool_inv s0 pool" and p: "elem_valid s0 pool p"
    and e: "pool_entry pool p = Some e" "entry_ok db e" "ed_type e = MMDB_DATA_TYPE_ARRAY" and P: "P (ed_type e)"
  shows "wp (list_of_array calloc_ok db get p e pool) (list_fills s0 db P p pool)"
proof -
  have body: "wp (list_element calloc_ok get s) (list_grows s0 db 1 (snd s))" if "pool_inv s0 (snd s)" for s
    using list_element_safe [OF get that, of calloc_ok "fst s"] by simp
  have "wp (c_repeat (unat (data_size e)) (list_element calloc_ok get) (off, pool))
      (list_grows s0 db (children e) pool)" for off
    using c_repeat_list_grows [of s0 "list_element calloc_ok get" db 1 "(off, pool)" "unat (data_size e)", OF body]
      inv e(3) by (simp add: children_def)
  from list_of_elements_safe [where P = P, OF this inv p e(1,2) P] show ?thesis
    using inv by (simp add: list_of_array_def Let_def list_fills_def list_safe_def del: split_paired_All)
qed

lemma list_of_map_safe:
  assumes get: "get_safe s0 db get" and inv: "pool_inv s0 pool" and p: "elem_valid s0 pool p"
    and e: "pool_entry pool p = Some e" "entry_ok db e" "ed_type e = MMDB_DATA_TYPE_MAP" and P: "P (ed_type e)"
  shows "wp (list_of_map calloc_ok db get p e pool) (list_fills s0 db P p pool)"
proof -
  have el: "wp (list_element calloc_ok get s) (list_grows s0 db 1 (snd s))" if "pool_inv s0 (snd s)" for s
    using list_element_safe [OF get that, of calloc_ok "fst s"] by simp
  let ?body = "\<lambda>s. chk (list_element calloc_ok get s) (list_element calloc_ok get)"
  have body: "wp (?body s) (list_grows s0 db 2 (snd s))" if "pool_inv s0 (snd s)" for s
    using chk_list_grows [OF el [OF that] el] by (simp add: numeral_2_eq_2)
  have "wp (c_repeat (unat (data_size e)) ?body (off, pool)) (list_grows s0 db (children e) pool)" for off
    using c_repeat_list_grows [of s0 ?body db 2 "(off, pool)" "unat (data_size e)", OF body]
      inv e(3) by (simp add: children_def mult.commute)
  from list_of_elements_safe [where P = P, OF this inv p e(1,2) P] show ?thesis
    using inv by (simp add: list_of_map_def Let_def list_fills_def list_safe_def del: split_paired_All)
qed

lemma set_next_fills:
  assumes fills: "list_fills s0 db P p pool MMDB_SUCCESS pool1" and p: "elem_valid s0 pool p"
    and inv: "pool_inv s0 pool"
  shows "wp (set_entry_next p nxt pool1) (list_fills s0 db P p pool)"
proof -
  obtain e more where items: "pool_items s0 pool1 = (pool_items s0 pool)[elem_pos s0 p := e] @ more"
    and P: "P (ed_type e)" and e: "entry_ok db e" "pending (children e) more = Some 0" "list_all (entry_ok db) more"
    and safe: "list_safe s0 pool MMDB_SUCCESS pool1"
    using fills by (auto simp: list_fills_def)
  have pos: "elem_pos s0 p < length (pool_items s0 pool)" by (rule dp.valid_pos [OF inv p])
  obtain pool' where "set_entry_next p nxt pool1 = Some (MMDB_SUCCESS, pool')"
    and pool': "pool_inv s0 pool'" "\<forall>q. elem_valid s0 pool' q = elem_valid s0 pool1 q"
      "pool_items s0 pool' = (pool_items s0 pool1)
        [elem_pos s0 p := (pool_items s0 pool1 ! elem_pos s0 p)\<lparr>offset_to_next := nxt\<rparr>]"
    using set_entry_next_wp [OF list_safeD(1) [OF safe] list_safeD(2) [OF safe p]] .
  moreover have "pool_items s0 pool' = (pool_items s0 pool)[elem_pos s0 p := e\<lparr>offset_to_next := nxt\<rparr>] @ more"
    using pool'(3) pos by (simp add: items nth_append list_update_append)
  moreover have "list_safe s0 pool MMDB_SUCCESS pool'"
    by (rule list_safe_trans [OF safe]) (rule list_safe_same [OF pool'(1,2)], simp)
  moreover have "entry_ok db (e\<lparr>offset_to_next := nxt\<rparr>)" "pending (children (e\<lparr>offset_to_next := nxt\<rparr>)) more = Some 0"
    using e by simp_all
  moreover have "P (ed_type (e\<lparr>offset_to_next := nxt\<rparr>))" using P by simp
  ultimately show ?thesis using e(3) unfolding list_fills_def wp_iff_ex by blast
qed

lemma list_of_pointer_safe:
  assumes wf: "wf_section db" and get: "get_safe s0 db get"
    and inv: "pool_inv s0 pool" and p: "elem_valid s0 pool p"
    and e: "value_ok db e" "ed_type e = MMDB_DATA_TYPE_POINTER" and P: "\<And>t. P t"
  shows "wp (list_of_pointer db get p e pool) (list_fills s0 db P p pool)"
proof -
  obtain t where t: "ed_value e = Pointer_val t" using value_ok_pointer [OF e] by blast
  obtain st pool1 e' where dec: "decode_into db t p pool = Some (st, pool1)"
    and post: "decode_post (decoded_at db t) st e'" and e': "pool_entry pool1 p = Some e'"
    and pool1: "pool_inv s0 pool1" "\<forall>q. elem_valid s0 pool1 q = elem_valid s0 pool q"
    and items: "pool_items s0 pool1 = (pool_items s0 pool)[elem_pos s0 p := e']"
    using decode_into_wp [OF wf inv p, of t] .
  have p1: "elem_valid s0 pool1 p" using pool1 p by blast
  have safe1: "list_safe s0 pool st' pool1" if "st' \<in> {MMDB_SUCCESS, MMDB_INVALID_DATA_ERROR}" for st'
    by (rule list_safe_same [OF pool1]) (use that in auto)
  show ?thesis
  proof (cases "st = MMDB_SUCCESS \<and> ed_type e' \<noteq> MMDB_DATA_TYPE_POINTER")
    case False
    then show ?thesis
      using dec e' post safe1 by (auto simp: list_of_pointer_def t decode_post_def list_fills_def split: if_splits)
  next
    case True
    then have ok: "entry_ok db e'" using post by (simp add: entry_ok_def decoded_at_def)
    let ?m = "if ed_type e' = MMDB_DATA_TYPE_ARRAY \<or> ed_type e' = MMDB_DATA_TYPE_MAP
      then get t p pool1 else Some (MMDB_SUCCESS, pool1)"
    have "wp (get t p pool1) (list_fills s0 db P p pool1)"
      by (rule wp_mono [OF get_safeD [OF get pool1(1) p1]]) (auto simp: list_fills_def P)
    then have m: "wp ?m (list_fills s0 db P p pool1)"
      using list_fills_self [where P = P, OF pool1(1) p1 e' ok] by (simp add: children_def P)
    have "wp (chk ?m (set_entry_next p (offset_to_next e))) (list_fills s0 db P p pool)"
      unfolding wp_chk_with
    proof (rule wp_mono [OF m])
      fix st2 pool2
      assume "list_fills s0 db P p pool1 st2 pool2"
      then have fills: "list_fills s0 db P p pool st2 pool2"
        using list_fills_after safe1 items by blast
      then show "if st2 = MMDB_SUCCESS then wp (set_entry_next p (offset_to_next e) pool2) (list_fills s0 db P p pool)
          else list_fills s0 db P p pool st2 pool2"
        using set_next_fills [OF _ p inv, of db P pool2 "offset_to_next e"] by auto
    qed
    then show ?thesis using True dec e' by (simp add: list_of_pointer_def t)
  qed
qed

lemma get_entry_data_list_safe:
  assumes wf: "wf_section db"
  shows "pool_inv s0 pool \<Longrightarrow> elem_valid s0 pool p \<Longrightarrow>
    (\<And>e0 e'. decode_one db offset e0 = Some (MMDB_SUCCESS, e') \<Longrightarrow>
       if ed_type e' = MMDB_DATA_TYPE_POINTER then \<forall>t. P t else P (ed_type e')) \<Longrightarrow>
    wp (get_entry_data_list calloc_ok db offset p pool depth) (list_fills s0 db P p pool)"
proof (induction "MAXIMUM_DATA_STRUCTURE_DEPTH - depth" arbitrary: offset p pool depth P rule: less_induct)
  case less
  let ?get = "\<lambda>offset q pool. get_entry_data_list calloc_ok db offset q pool (depth + 1)"
  show ?case
  proof (cases "depth \<ge> MAXIMUM_DATA_STRUCTURE_DEPTH")
    case True
    then show ?thesis using less(2)
      by (simp add: get_entry_data_list.simps [of calloc_ok db offset p pool depth] list_fills_def list_safe_def)
  next
    case False
    then have get: "get_safe s0 db ?get" unfolding get_safe_def by (intro allI impI less(1)) auto
    obtain st pool1 e e0 where dec: "decode_into db offset p pool = Some (st, pool1)"
      and one: "decode_one db offset e0 = Some (st, e)"
      and post: "decode_post (decoded_at db offset) st e" and e: "pool_entry pool1 p = Some e"
      and pool1: "pool_inv s0 pool1" "\<forall>q. elem_valid s0 pool1 q = elem_valid s0 pool q"
      and items: "pool_items s0 pool1 = (pool_items s0 pool)[elem_pos s0 p := e]"
      using decode_into_wp [OF wf less(2,3), of offset] .
    have p1: "elem_valid s0 pool1 p" using pool1 less(3) by blast
    have safe1: "list_safe s0 pool st' pool1" if "st' \<in> {MMDB_SUCCESS, MMDB_INVALID_DATA_ERROR}" for st'
      by (rule list_safe_same [OF pool1]) (use that in auto)
    have lift: "wp m (list_fills s0 db P p pool1) \<Longrightarrow> wp m (list_fills s0 db P p pool)" for m
      by (erule wp_mono) (use list_fills_after safe1 items in blast)
    have unfold: "get_entry_data_list calloc_ok db offset p pool depth =
        (if st \<noteq> MMDB_SUCCESS then Some (st, pool1)
         else if ed_type e = MMDB_DATA_TYPE_POINTER then list_of_pointer db ?get p e pool1
         else if ed_type e = MMDB_DATA_TYPE_ARRAY then list_of_array calloc_ok db ?get p e pool1
         else if ed_type e = MMDB_DATA_TYPE_MAP then list_of_map calloc_ok db ?get p e pool1
         else Some (MMDB_SUCCESS, pool1))"
      using False dec e by (simp add: get_entry_data_list.simps [of calloc_ok db offset p pool depth] Let_def)
    show ?thesis
    proof (cases "st = MMDB_SUCCESS")
      case False
      then show ?thesis using post safe1 by (simp add: unfold list_fills_def decode_post_def)
    next
      case True
      then have v: "value_ok db e" using post by (simp add: decoded_at_def)
      have P: "if ed_type e = MMDB_DATA_TYPE_POINTER then \<forall>t. P t else P (ed_type e)"
        by (rule less(4)) (use one True in simp)
      have ok: "entry_ok db e" if "ed_type e \<noteq> MMDB_DATA_TYPE_POINTER" using that v by (simp add: entry_ok_def)
      consider "ed_type e = MMDB_DATA_TYPE_POINTER" | "ed_type e = MMDB_DATA_TYPE_ARRAY"
        | "ed_type e = MMDB_DATA_TYPE_MAP"
        | "ed_type e \<notin> {MMDB_DATA_TYPE_POINTER, MMDB_DATA_TYPE_ARRAY, MMDB_DATA_TYPE_MAP}" by blast
      then show ?thesis
      proof cases
        case 1
        then show ?thesis
          using True lift [OF list_of_pointer_safe [where P = P, OF wf get pool1(1) p1 v 1]] P 1 by (simp add: unfold)
      next
        case 2
        then show ?thesis
          using True lift [OF list_of_array_safe [where P = P, OF get pool1(1) p1 e ok 2]] P 2 by (simp add: unfold)
      next
        case 3
        then show ?thesis
          using True lift [OF list_of_map_safe [where P = P, OF get pool1(1) p1 e ok 3]] P 3 by (simp add: unfold)
      next
        case 4
        have "wp (Some (MMDB_SUCCESS, pool1)) (list_fills s0 db P p pool)"
          by (rule lift) (use list_fills_self [where P = P, OF pool1(1) p1 e ok] 4 P in \<open>simp add: children_def\<close>)
        then show ?thesis using True 4 by (simp add: unfold)
      qed
    qed
  qed
qed

text \<open>The type that is decoded depends on the section only.\<close>

lemma decode_one_type:
  assumes wf: "wf_section db" and e1: "decode_one db offset e = Some (MMDB_SUCCESS, e1)"
    and e2: "decode_one db offset e' = Some (MMDB_SUCCESS, e2)"
  shows "ed_type e1 = ed_type e2"
proof -
  have typed: "ed_type x = type"
    if "decode_typed db ctrl off type e0 = Some (MMDB_SUCCESS, x)" "has_data e0"
      "unat off \<le> unat (data_section_size db)" for ctrl off type e0 x
    using decode_typed_wp [OF wf that(3,2), of ctrl type] that(1) by (simp add: typed_post_def)
  have nonzero: "\<not> offset > data_section_size db - 1" "data_section_size db \<noteq> 0"
    using e1 by (auto simp: decode_one_def split: if_splits)
  then have fit: "unat offset + 1 \<le> unat (data_section_size db)"
    using fits_const_iff [of 1 "data_section_size db" offset] by (simp add: word_le_nat_alt word_unat_eq_iff)
  obtain ctrl where ctrl: "section_rd db offset = Some ctrl"
    using section_rd_ok [OF wf, of offset] fit by auto
  have next1: "unat (offset + 1) = unat offset + 1"
    using unat_plus_le [of offset 1 "data_section_size db"] fit by simp
  show ?thesis
  proof (cases "drop_bit 5 (ucast ctrl) AND 7 = MMDB_DATA_TYPE_EXTENDED")
    case False
    then show ?thesis
      using e1 e2 ctrl nonzero typed [of ctrl "offset + 1"] next1 fit
      by (fastforce simp: decode_one_def Let_def)
  next
    case True
    then have in2: "\<not> offset + 1 > data_section_size db - 1"
      using e1 ctrl nonzero by (auto simp: decode_one_def Let_def split: if_splits)
    then have fit2: "unat (offset + 1) + 1 \<le> unat (data_section_size db)"
      using fits_const_iff [of 1 "data_section_size db" "offset + 1"] nonzero
      by (simp add: word_le_nat_alt word_unat_eq_iff)
    obtain raw where raw: "section_rd db (offset + 1) = Some raw"
      using section_rd_ok [OF wf, of "offset + 1"] fit2 by auto
    have "unat (offset + 1 + 1) = unat (offset + 1) + 1"
      using unat_plus_le [of "offset + 1" 1 "data_section_size db"] fit2 by simp
    then show ?thesis
      using e1 e2 ctrl nonzero True in2 raw typed [of ctrl "offset + 1 + 1"] fit2
      by (fastforce simp: decode_one_def Let_def)
  qed
qed

lemma MMDB_get_entry_data_list_wp:
  assumes wf: "wf_section (entry_mmdb start)"
    and P: "\<And>e e'. decode_one (entry_mmdb start) (entry_offset start) e = Some (MMDB_SUCCESS, e') \<Longrightarrow>
      if ed_type e' = MMDB_DATA_TYPE_POINTER then \<forall>t. P t else P (ed_type e')"
  shows "wp (MMDB_get_entry_data_list calloc_ok start) (\<lambda>st r.
    if st = MMDB_SUCCESS
    then \<exists>pool e es. r = Some ((0, 0), pool) \<and>
      list_entries pool (Suc (length es)) (Some (0, 0)) = Some (e # es) \<and> P (ed_type e) \<and>
      pending (children e) es = Some 0 \<and> list_all (entry_ok (entry_mmdb start)) (e # es)
    else r = None \<and> st \<in> {MMDB_INVALID_DATA_ERROR, MMDB_OUT_OF_MEMORY_ERROR})"
proof (cases "data_pool_new calloc_ok MMDB_POOL_INIT_SIZE")
  case None
  then show ?thesis by (simp add: MMDB_get_entry_data_list_def)
next
  case (Some pool)
  note inv = data_pool_new_inv [OF Some]
  obtain r pool1 where alloc: "data_pool_alloc calloc_ok pool = (r, pool1)" by fastforce
  show ?thesis
  proof (cases r)
    case None
    then show ?thesis using Some alloc by (simp add: MMDB_get_entry_data_list_def)
  next
    case r: (Some p)
    have pool1: "pool_inv 64 pool1" "elem_valid 64 pool1 p"
      and items1: "pool_items 64 pool1 = [zero_entry]" "elem_pos 64 p = 0"
      using dp.alloc_Some [OF inv(1)] alloc r inv(2) by auto
    obtain st pool2 where get: "get_entry_data_list calloc_ok (entry_mmdb start) (entry_offset start) p pool1 0 =
        Some (st, pool2)" and fills: "list_fills 64 (entry_mmdb start) P p pool1 st pool2"
      using get_entry_data_list_safe [where P = P and offset = "entry_offset start" and depth = 0
          and calloc_ok = calloc_ok, OF wf pool1] P unfolding wp_iff_ex by blast
    then have safe: "list_safe 64 pool1 st pool2" by (simp add: list_fills_def)
    show ?thesis
    proof (cases "st = MMDB_SUCCESS")
      case False
      then show ?thesis
        using get safe Some alloc r by (auto simp: MMDB_get_entry_data_list_def list_safe_def)
    next
      case True
      then obtain e es where items: "pool_items 64 pool2 = e # es" and e: "P (ed_type e)"
        "pending (children e) es = Some 0" "list_all (entry_ok (entry_mmdb start)) (e # es)"
        using fills items1 by (auto simp: list_fills_def)
      obtain pool' where list: "data_pool_to_list pool2 = Some (Some (0, 0), pool')"
        and entries: "list_entries pool' (Suc (length es)) (Some (0, 0)) = Some (e # es)"
        using data_pool_to_list_items [OF list_safeD(1) [OF safe]] items by auto
      have "MMDB_get_entry_data_list calloc_ok start = Some (MMDB_SUCCESS, Some ((0, 0), pool'))"
        using get True Some alloc r list by (simp add: MMDB_get_entry_data_list_def)
      then show ?thesis
        unfolding wp_iff_ex using entries e by (fastforce simp del: list_entries.simps)
    qed
  qed
qed

text \<open>A list of entries of any type, for callers that do not know what they ask for.\<close>

lemma MMDB_get_entry_data_list_any:
  assumes "wf_section (entry_mmdb start)"
  shows "wp (MMDB_get_entry_data_list calloc_ok start) (\<lambda>st r.
    if st = MMDB_SUCCESS
    then \<exists>pool e es. r = Some ((0, 0), pool) \<and>
      list_entries pool (Suc (length es)) (Some (0, 0)) = Some (e # es) \<and>
      pending (children e) es = Some 0 \<and> list_all (entry_ok (entry_mmdb start)) (e # es)
    else r = None \<and> st \<in> {MMDB_INVALID_DATA_ERROR, MMDB_OUT_OF_MEMORY_ERROR})"
proof (rule wp_mono [OF MMDB_get_entry_data_list_wp [OF assms, where P = "\<lambda>t. True"]], goal_cases)
  case (2 st r)
  then show ?case by (simp only: simp_thms)
qed simp

section \<open>The list of a represented value\<close>

text \<open>The number of elements a pool with first block 64 can hand out.\<close>

definition pool_capacity :: nat where "pool_capacity = 64 * (2 ^ 32 - 1)"

lemma alloc_fails_full:
  assumes inv: "pool_inv 64 pool" and fail: "data_pool_alloc calloc_ok pool = (None, pool')"
    and ok: "\<forall>k. calloc_ok k"
  shows "pool_capacity \<le> length (pool_items 64 pool)"
proof -
  have shape: "pool_shape 64 pool" using inv by (simp add: pool_inv_def)
  let ?i = "pool_index pool"
  have sh: "pool_block pool = Some ?i" "pool_size pool = 64 * 2 ^ ?i" "?i < 32" "pool_used pool \<le> pool_size pool"
    using shape by (auto simp: pool_shape_def)
  have full: "pool_used pool = pool_size pool"
  proof (rule ccontr)
    assume "pool_used pool \<noteq> pool_size pool"
    then show False using fail sh by (simp add: data_pool_alloc_def)
  qed
  have "(2 :: nat) ^ ?i \<le> 2 ^ 31" using sh(3) by (intro power_increasing) auto
  then have le: "(2 :: nat) ^ ?i \<le> 2147483648" by simp
  have "?i + 1 = 32"
  proof (rule ccontr)
    assume ne: "?i + 1 \<noteq> 32"
    have "can_multiply SIZE_MAX (pool_size pool) 2" using le by (simp add: can_multiply_iff sh)
    moreover have "can_multiply SIZE_MAX ((pool_size pool * 2) mod 2 ^ 64) sizeof_elem"
      using le by (simp add: can_multiply_iff sh)
    ultimately show False using fail ok ne full by (simp add: data_pool_alloc_def Let_def)
  qed
  then have "?i = 31" by simp
  then show ?thesis
    using length_pool_items [OF shape] full sh
    by (simp add: pool_capacity_def pool_count_def elem_pos_def)
qed

text \<open>
  The result of appending the entries of \<open>hs\<close> to the pool: they are there on success. It fails
  when it runs out of memory, which needs a failed allocation or a full pool, or because the
  nesting is too deep. \<open>fit\<close> says that the nesting stays within the limit: it holds on success,
  and it does not hold when the data is called invalid.
\<close>

definition elements_post ::
  "calloc_env \<Rightarrow> MMDB_s \<Rightarrow> bool \<Rightarrow> MMDB_data_pool_s \<Rightarrow> head list \<Rightarrow> nat \<Rightarrow> mmdb_status \<Rightarrow>
     u32 \<times> MMDB_data_pool_s \<Rightarrow> bool" where
  "elements_post calloc_ok db fit pool hs n st s' \<longleftrightarrow>
     pool_inv 64 (snd s') \<and> (\<forall>q. elem_valid 64 pool q \<longrightarrow> elem_valid 64 (snd s') q) \<and>
     (if st = MMDB_SUCCESS
      then fit \<and> fst s' = word_of_nat n \<and> (\<exists>es. pool_items 64 (snd s') = pool_items 64 pool @ es \<and>
        map (entry_head db) es = map Some hs)
      else st = MMDB_INVALID_DATA_ERROR \<and> \<not> fit \<or> st = MMDB_OUT_OF_MEMORY_ERROR \<and>
        ((\<forall>k. calloc_ok k) \<longrightarrow> pool_capacity < length (pool_items 64 pool) + length hs))"

text \<open>The same for a call that fills the last element \<open>p\<close> of the pool with the first entry.\<close>

definition value_post ::
  "calloc_env \<Rightarrow> MMDB_s \<Rightarrow> bool \<Rightarrow> MMDB_data_pool_s \<Rightarrow> MMDB_entry_data_s list \<Rightarrow> head list \<Rightarrow> nat \<Rightarrow>
     mmdb_status \<Rightarrow> MMDB_data_pool_s \<Rightarrow> bool" where
  "value_post calloc_ok db fit pool xs hs n st pool' \<longleftrightarrow>
     pool_inv 64 pool' \<and> (\<forall>q. elem_valid 64 pool q \<longrightarrow> elem_valid 64 pool' q) \<and>
     (if st = MMDB_SUCCESS
      then fit \<and> (\<exists>e es. pool_items 64 pool' = xs @ e # es \<and> offset_to_next e = word_of_nat n \<and>
        map (entry_head db) (e # es) = map Some hs)
      else st = MMDB_INVALID_DATA_ERROR \<and> \<not> fit \<or> st = MMDB_OUT_OF_MEMORY_ERROR \<and>
        ((\<forall>k. calloc_ok k) \<longrightarrow> pool_capacity < length xs + length hs))"

definition fills ::
  "calloc_env \<Rightarrow> MMDB_s \<Rightarrow> bool \<Rightarrow> (elem_ptr \<Rightarrow> MMDB_data_pool_s \<Rightarrow> MMDB_data_pool_s run) \<Rightarrow>
     head list \<Rightarrow> nat \<Rightarrow> bool" where
  "fills calloc_ok db fit get hs n \<longleftrightarrow>
     (\<forall>p pool xs y. pool_inv 64 pool \<longrightarrow> elem_valid 64 pool p \<longrightarrow> pool_items 64 pool = xs @ [y] \<longrightarrow>
        elem_pos 64 p = length xs \<longrightarrow> wp (get p pool) (value_post calloc_ok db fit pool xs hs n))"

definition appends ::
  "calloc_env \<Rightarrow> MMDB_s \<Rightarrow> bool \<Rightarrow> (MMDB_data_pool_s \<Rightarrow> (u32 \<times> MMDB_data_pool_s) run) \<Rightarrow>
     head list \<Rightarrow> nat \<Rightarrow> bool" where
  "appends calloc_ok db fit run hs n \<longleftrightarrow>
     (\<forall>pool. pool_inv 64 pool \<longrightarrow> wp (run pool) (elements_post calloc_ok db fit pool hs n))"

lemma list_element_appends:
  assumes get: "fills calloc_ok db fit (get off) hs n" and hs: "hs \<noteq> []"
  shows "appends calloc_ok db fit (\<lambda>pool. list_element calloc_ok get (off, pool)) hs n"
  unfolding appends_def
proof (intro allI impI)
  fix pool
  assume inv: "pool_inv 64 pool"
  obtain r pool1 where alloc: "data_pool_alloc calloc_ok pool = (r, pool1)" by fastforce
  have len: "0 < length hs" using hs by simp
  show "wp (list_element calloc_ok get (off, pool)) (elements_post calloc_ok db fit pool hs n)"
  proof (cases r)
    case None
    then have "pool1 = pool" using alloc dp.alloc_None [OF inv] by blast
    moreover have "(\<forall>k. calloc_ok k) \<longrightarrow> pool_capacity < length (pool_items 64 pool) + length hs"
    proof
      assume "\<forall>k. calloc_ok k"
      then have "pool_capacity \<le> length (pool_items 64 pool)"
        using alloc_fails_full [OF inv, of calloc_ok pool1] alloc None by simp
      then show "pool_capacity < length (pool_items 64 pool) + length hs" using len by linarith
    qed
    ultimately show ?thesis
      using alloc inv None by (auto simp: list_element_def elements_post_def)
  next
    case (Some q)
    have pool1: "pool_inv 64 pool1" "elem_valid 64 pool1 q"
      and items1: "pool_items 64 pool1 = pool_items 64 pool @ [zero_entry]"
        "elem_pos 64 q = length (pool_items 64 pool)"
      using dp.alloc_Some [OF inv] alloc Some by auto
    have keep: "\<forall>q. elem_valid 64 pool q \<longrightarrow> elem_valid 64 pool1 q"
      using dp.alloc_valid [OF inv alloc] by blast
    note filled = get [unfolded fills_def, rule_format, OF pool1 items1]
    have "wp (chk_with (\<lambda>pool. (off, pool)) (get off q pool1) (\<lambda>pool. do {
        e \<leftarrow> pool_entry pool q; Some (MMDB_SUCCESS, (offset_to_next e, pool)) }))
        (elements_post calloc_ok db fit pool hs n)"
      unfolding wp_chk_with
    proof (rule wp_mono [OF filled])
      fix st pool2
      assume post: "value_post calloc_ok db fit pool1 (pool_items 64 pool) hs n st pool2"
      then have pool2: "pool_inv 64 pool2" "elem_valid 64 pool2 q"
        and keep2: "\<forall>q. elem_valid 64 pool q \<longrightarrow> elem_valid 64 pool2 q"
        using pool1 keep unfolding value_post_def by blast+
      show "if st = MMDB_SUCCESS
          then wp (do { e \<leftarrow> pool_entry pool2 q; Some (MMDB_SUCCESS, (offset_to_next e, pool2)) })
            (elements_post calloc_ok db fit pool hs n)
          else elements_post calloc_ok db fit pool hs n st (off, pool2)"
        using post pool2 keep2 dp.read_valid [OF pool2] items1(2)
        by (auto simp: value_post_def elements_post_def simp del: split_paired_All)
    qed
    then show ?thesis using alloc Some by (simp add: list_element_def)
  qed
qed

lemma appends_chk:
  assumes one: "appends calloc_ok db fit (\<lambda>pool. f (off, pool)) hs m"
    and two: "appends calloc_ok db fit' (\<lambda>pool. g (word_of_nat m, pool)) hs' n"
  shows "appends calloc_ok db (fit \<and> fit') (\<lambda>pool. chk (f (off, pool)) g) (hs @ hs') n"
  unfolding appends_def
proof (intro allI impI)
  fix pool
  assume inv: "pool_inv 64 pool"
  show "wp (chk (f (off, pool)) g) (elements_post calloc_ok db (fit \<and> fit') pool (hs @ hs') n)"
    unfolding wp_chk_with
  proof (rule wp_mono [OF one [unfolded appends_def, rule_format, OF inv]])
    fix st and s :: "u32 \<times> MMDB_data_pool_s"
    assume post: "elements_post calloc_ok db fit pool hs m st s"
    show "if st = MMDB_SUCCESS then wp (g s) (elements_post calloc_ok db (fit \<and> fit') pool (hs @ hs') n)
      else elements_post calloc_ok db (fit \<and> fit') pool (hs @ hs') n st s"
    proof (cases "st = MMDB_SUCCESS")
      case True
      then obtain es where fit: fit and s: "s = (word_of_nat m, snd s)" and inv': "pool_inv 64 (snd s)"
        and keep: "\<forall>q. elem_valid 64 pool q \<longrightarrow> elem_valid 64 (snd s) q"
        and items: "pool_items 64 (snd s) = pool_items 64 pool @ es"
        and heads: "map (entry_head db) es = map Some hs"
        using post by (cases s) (auto simp: elements_post_def simp del: split_paired_All)
      have len: "length es = length hs" using heads by (metis length_map)
      have "wp (g s) (elements_post calloc_ok db fit' (snd s) hs' n)"
        using two inv' by (subst s) (simp add: appends_def)
      then have "wp (g s) (elements_post calloc_ok db (fit \<and> fit') pool (hs @ hs') n)"
        by (rule wp_mono)
          (use fit keep items heads len in \<open>auto simp: elements_post_def simp del: split_paired_All split: if_splits\<close>)
      with True show ?thesis by simp
    qed (use post in \<open>auto simp: elements_post_def simp del: split_paired_All\<close>)
  qed
qed

lemma appends_Nil: "appends calloc_ok db True (\<lambda>pool. Some (MMDB_SUCCESS, (word_of_nat n, pool))) [] n"
  by (simp add: appends_def elements_post_def)


lemma decode_into_last:
  assumes inv: "pool_inv 64 pool" and p: "elem_valid 64 pool p"
    and items: "pool_items 64 pool = xs @ [y]" "elem_pos 64 p = length xs"
    and dec: "\<And>e. \<exists>e'. decode_one db off e = Some (MMDB_SUCCESS, e') \<and> Q e'"
  obtains pool' e where "decode_into db off p pool = Some (MMDB_SUCCESS, pool')" and "Q e"
    and "pool_inv 64 pool'" and "\<forall>q. elem_valid 64 pool' q = elem_valid 64 pool q"
    and "pool_items 64 pool' = xs @ [e]" and "pool_entry pool' p = Some e"
proof -
  obtain e where e: "decode_one db off y = Some (MMDB_SUCCESS, e)" "Q e" using dec by blast
  have y: "pool_entry pool p = Some y" using dp.read_valid [OF inv p] items by simp
  obtain pool' where set: "pool_set_entry pool p e = Some pool'" and pool': "pool_inv 64 pool'"
    "pool_items 64 pool' = xs @ [e]" "\<forall>q. elem_valid 64 pool' q = elem_valid 64 pool q"
    using dp.write_items [OF inv p items(1) items(2)] by blast
  moreover have "pool_entry pool' p = Some e" by (rule dp.write_read [OF inv p set])
  ultimately show ?thesis using e y that [of pool' e] by (simp add: decode_into_def del: split_paired_All)
qed

lemma set_entry_next_items:
  assumes inv: "pool_inv 64 pool" and p: "elem_valid 64 pool p"
    and items: "pool_items 64 pool = xs @ e # es" "elem_pos 64 p = length xs"
  shows "\<exists>pool'. set_entry_next p n pool = Some (MMDB_SUCCESS, pool') \<and> pool_inv 64 pool' \<and>
    pool_items 64 pool' = xs @ e\<lparr>offset_to_next := n\<rparr> # es \<and>
    (\<forall>q. elem_valid 64 pool' q = elem_valid 64 pool q)"
proof -
  have "pool_entry pool p = Some e" using dp.read_valid [OF inv p] items by simp
  moreover obtain pool' where "pool_set_entry pool p (e\<lparr>offset_to_next := n\<rparr>) = Some pool'"
    "pool_inv 64 pool'" "pool_items 64 pool' = xs @ e\<lparr>offset_to_next := n\<rparr> # es"
    "\<forall>q. elem_valid 64 pool' q = elem_valid 64 pool q"
    using dp.write_items [OF inv p items] by blast
  ultimately show ?thesis by (simp add: set_entry_next_def del: split_paired_All)
qed

text \<open>The elements of a container are appended, then the successor of its entry is set.\<close>

lemma container_fills:
  assumes run: "appends calloc_ok db fit run hs n"
    and inv: "pool_inv 64 pool" and p: "elem_valid 64 pool p"
    and items: "pool_items 64 pool = xs @ [e]" "elem_pos 64 p = length xs"
    and head: "entry_head db e = Some hd0"
  shows "wp (chk_with snd (run pool) (\<lambda>(off, pool). set_entry_next p off pool))
    (value_post calloc_ok db fit pool xs (hd0 # hs) n)"
  unfolding wp_chk_with
proof (rule wp_mono [OF run [unfolded appends_def, rule_format, OF inv]])
  fix st and s :: "u32 \<times> MMDB_data_pool_s"
  assume post: "elements_post calloc_ok db fit pool hs n st s"
  show "if st = MMDB_SUCCESS
      then wp (case s of (off, pool) \<Rightarrow> set_entry_next p off pool) (value_post calloc_ok db fit pool xs (hd0 # hs) n)
      else value_post calloc_ok db fit pool xs (hd0 # hs) n st (snd s)"
  proof (cases "st = MMDB_SUCCESS")
    case True
    then obtain es where fit: fit and s: "s = (word_of_nat n, snd s)" and inv': "pool_inv 64 (snd s)"
      and keep: "\<forall>q. elem_valid 64 pool q \<longrightarrow> elem_valid 64 (snd s) q"
      and items': "pool_items 64 (snd s) = xs @ e # es"
      and heads: "map (entry_head db) es = map Some hs"
      using post items by (cases s) (auto simp: elements_post_def simp del: split_paired_All)
    obtain pool' where "set_entry_next p (word_of_nat n) (snd s) = Some (MMDB_SUCCESS, pool')"
      "pool_inv 64 pool'" "pool_items 64 pool' = xs @ e\<lparr>offset_to_next := word_of_nat n\<rparr> # es"
      "\<forall>q. elem_valid 64 pool' q = elem_valid 64 (snd s) q"
      using set_entry_next_items [OF inv' _ items' items(2), of "word_of_nat n"] keep p by blast
    then have "wp (set_entry_next p (word_of_nat n) (snd s)) (value_post calloc_ok db fit pool xs (hd0 # hs) n)"
      using fit keep heads head by (simp add: value_post_def del: split_paired_All)
    then have "wp (case s of (off, pool) \<Rightarrow> set_entry_next p off pool) (value_post calloc_ok db fit pool xs (hd0 # hs) n)"
      by (subst s) simp
    then show ?thesis using True by simp
  qed (use post items in \<open>auto simp: value_post_def elements_post_def simp del: split_paired_All\<close>)
qed


lemma flatten_not_Nil: "flatten v \<noteq> []"
  by (cases v) simp_all

lemma entry_for_head:
  "entry_for db a v n e \<Longrightarrow> \<not> is_container v \<Longrightarrow> map (entry_head db) [e] = map Some (flatten v)"
  by (cases v) (auto simp: entry_for_def)

text \<open>A stored value that is not a container is one entry.\<close>

lemma stored_scalar_fills:
  assumes st: "stored db a v c n h" and v: "\<not> is_container v" and d: "depth < MAXIMUM_DATA_STRUCTURE_DEPTH"
  shows "fills calloc_ok db True (\<lambda>p pool. get_entry_data_list calloc_ok db (word_of_nat a) p pool depth)
    (flatten v) n"
  unfolding fills_def
proof (intro allI impI)
  fix p pool xs y
  assume pool: "pool_inv 64 pool" "elem_valid 64 pool p" "pool_items 64 pool = xs @ [y]"
    "elem_pos 64 p = length xs"
  obtain pool' e where dec: "decode_into db (word_of_nat a) p pool = Some (MMDB_SUCCESS, pool')"
    and e: "entry_for db a v (if is_container v then c else n) e"
    and pool': "pool_inv 64 pool'" "\<forall>q. elem_valid 64 pool' q = elem_valid 64 pool q"
      "pool_items 64 pool' = xs @ [e]" "pool_entry pool' p = Some e"
    using decode_into_last [OF pool decode_stored [OF st]] by blast
  have e': "entry_for db a v n e" using e v by simp
  note heads = entry_for_head [OF e' v] and cont = entry_for_container(3) [OF e']
  have "value_post calloc_ok db True pool xs (flatten v) n MMDB_SUCCESS pool'"
    using pool' heads e' by (auto simp: value_post_def entry_for_def simp del: split_paired_All)
  then show "wp (get_entry_data_list calloc_ok db (word_of_nat a) p pool depth)
      (value_post calloc_ok db True pool xs (flatten v) n)"
    using d dec pool'(4) cont v e'
    by (simp add: get_entry_data_list.simps [of _ _ _ p] Let_def entry_for_def)
qed

text \<open>A stored container: its own entry, then its elements, which \<open>run\<close> appends.\<close>

lemma stored_container_fills:
  assumes st: "stored db a v c n h" and v: "is_container v"
    and d: "depth < MAXIMUM_DATA_STRUCTURE_DEPTH"
    and flat: "flatten v = head_of v # hs"
    and run: "\<And>e. entry_for db a v c e \<Longrightarrow> appends calloc_ok db fit (run e) hs n"
    and body: "\<And>e p pool pool'. entry_for db a v c e \<Longrightarrow> pool_entry pool' p = Some e \<Longrightarrow>
      decode_into db (word_of_nat a) p pool = Some (MMDB_SUCCESS, pool') \<Longrightarrow>
      get_entry_data_list calloc_ok db (word_of_nat a) p pool depth =
        chk_with snd (run e pool') (\<lambda>(off, pool). set_entry_next p off pool)"
  shows "fills calloc_ok db fit (\<lambda>p pool. get_entry_data_list calloc_ok db (word_of_nat a) p pool depth)
    (flatten v) n"
  unfolding fills_def
proof (intro allI impI)
  fix p pool xs y
  assume pool: "pool_inv 64 pool" "elem_valid 64 pool p" "pool_items 64 pool = xs @ [y]"
    "elem_pos 64 p = length xs"
  obtain pool' e where dec: "decode_into db (word_of_nat a) p pool = Some (MMDB_SUCCESS, pool')"
    and e: "entry_for db a v (if is_container v then c else n) e"
    and pool': "pool_inv 64 pool'" "\<forall>q. elem_valid 64 pool' q = elem_valid 64 pool q"
      "pool_items 64 pool' = xs @ [e]" "pool_entry pool' p = Some e"
    using decode_into_last [OF pool decode_stored [OF st]] by blast
  have e': "entry_for db a v c e" using e v by simp
  then have hd: "entry_head db e = Some (head_of v)" by (simp add: entry_for_def)
  have p': "elem_valid 64 pool' p" using pool' pool by blast
  have "wp (get_entry_data_list calloc_ok db (word_of_nat a) p pool depth)
      (value_post calloc_ok db fit pool' xs (flatten v) n)"
    unfolding body [OF e' pool'(4) dec] flat
    by (rule container_fills [OF run [OF e'] pool'(1) p' pool'(3) pool(4) hd])
  then show "wp (get_entry_data_list calloc_ok db (word_of_nat a) p pool depth)
      (value_post calloc_ok db fit pool xs (flatten v) n)"
    using pool'(2) by (elim wp_mono) (auto simp: value_post_def simp del: split_paired_All)
qed

lemma stored_array_fills:
  assumes st: "stored db a (V_array vs) c n h" and seq: "represents_seq db c vs n h'"
    and d: "depth < MAXIMUM_DATA_STRUCTURE_DEPTH"
    and run: "appends calloc_ok db fit (\<lambda>pool. c_repeat (length vs) (list_element calloc_ok
      (\<lambda>off p pool. get_entry_data_list calloc_ok db off p pool (depth + 1))) (word_of_nat c, pool))
      (concat (map flatten vs)) n"
  shows "fills calloc_ok db fit (\<lambda>p pool. get_entry_data_list calloc_ok db (word_of_nat a) p pool depth)
    (flatten (V_array vs)) n"
proof (rule stored_container_fills [OF st _ d])
  let ?get = "\<lambda>off p pool. get_entry_data_list calloc_ok db off p pool (depth + 1)"
  show "appends calloc_ok db fit (\<lambda>pool. c_repeat (length vs) (list_element calloc_ok ?get) (word_of_nat c, pool))
      (concat (map flatten vs)) n" by (rule run)
  fix e p pool pool'
  assume e: "entry_for db a (V_array vs) c e" and "pool_entry pool' p = Some e"
    and "decode_into db (word_of_nat a) p pool = Some (MMDB_SUCCESS, pool')"
  moreover have ty: "ed_type e = MMDB_DATA_TYPE_ARRAY" using entry_for_container(2) [OF e] by blast
  moreover have sz: "unat (data_size e) = length vs" using e by (rule entry_for_array)
  moreover have "\<not> (word_of_nat c > data_section_size db) \<and>
      \<not> data_size e > data_section_size db - word_of_nat c"
    using represents_bounds(1) [OF st] represents_bounds(3) [OF seq] unat_offset [of c db] sz
    by (auto simp: word_less_nat_alt unat_sub word_le_nat_alt)
  ultimately show "get_entry_data_list calloc_ok db (word_of_nat a) p pool depth =
      chk_with snd (c_repeat (length vs) (list_element calloc_ok ?get) (word_of_nat c, pool'))
        (\<lambda>(off, pool). set_entry_next p off pool)"
    using d by (simp add: get_entry_data_list.simps [of _ _ _ p] Let_def list_of_array_def entry_for_def)
qed simp_all

lemma stored_map_fills:
  assumes st: "stored db a (V_map kvs) c n h" and pairs: "represents_pairs db c kvs n h'"
    and d: "depth < MAXIMUM_DATA_STRUCTURE_DEPTH"
    and run: "appends calloc_ok db fit (\<lambda>pool. c_repeat (length kvs) (\<lambda>s. chk (list_element calloc_ok
      (\<lambda>off p pool. get_entry_data_list calloc_ok db off p pool (depth + 1)) s) (list_element calloc_ok
      (\<lambda>off p pool. get_entry_data_list calloc_ok db off p pool (depth + 1)))) (word_of_nat c, pool))
      (concat (map (\<lambda>(k, v). H_scalar (V_string k) # flatten v) kvs)) n"
  shows "fills calloc_ok db fit (\<lambda>p pool. get_entry_data_list calloc_ok db (word_of_nat a) p pool depth)
    (flatten (V_map kvs)) n"
proof (rule stored_container_fills [OF st _ d])
  let ?get = "\<lambda>off p pool. get_entry_data_list calloc_ok db off p pool (depth + 1)"
  show "appends calloc_ok db fit (\<lambda>pool. c_repeat (length kvs)
      (\<lambda>s. chk (list_element calloc_ok ?get s) (list_element calloc_ok ?get)) (word_of_nat c, pool))
      (concat (map (\<lambda>(k, v). H_scalar (V_string k) # flatten v) kvs)) n" by (rule run)
  fix e p pool pool'
  assume e: "entry_for db a (V_map kvs) c e" and "pool_entry pool' p = Some e"
    and "decode_into db (word_of_nat a) p pool = Some (MMDB_SUCCESS, pool')"
  moreover have ty: "ed_type e = MMDB_DATA_TYPE_MAP" using entry_for_container(1) [OF e] by blast
  moreover have sz: "unat (data_size e) = length kvs" using e by (rule entry_for_map)
  moreover have "\<not> (word_of_nat c > data_section_size db) \<and>
      \<not> data_size e > (data_section_size db - word_of_nat c) div 2"
    using represents_bounds(1) [OF st] represents_bounds(4) [OF pairs] unat_offset [of c db] sz
    by (auto simp: word_less_nat_alt unat_sub word_le_nat_alt unat_div not_less
        less_eq_div_iff_mult_less_eq)
  ultimately show "get_entry_data_list calloc_ok db (word_of_nat a) p pool depth =
      chk_with snd (c_repeat (length kvs)
        (\<lambda>s. chk (list_element calloc_ok ?get s) (list_element calloc_ok ?get)) (word_of_nat c, pool'))
        (\<lambda>(off, pool). set_entry_next p off pool)"
    using d by (simp add: get_entry_data_list.simps [of _ _ _ p] Let_def list_of_map_def entry_for_def)
qed simp_all


lemma stored_pointer_fills:
  assumes bytes: "section_bytes db a bs" and code: "pointer_code t bs" and st: "stored db t v c m h"
    and d: "depth < MAXIMUM_DATA_STRUCTURE_DEPTH"
    and rec: "is_container v \<Longrightarrow> fills calloc_ok db fit
      (\<lambda>p pool. get_entry_data_list calloc_ok db (word_of_nat t) p pool (depth + 1)) (flatten v) m"
  shows "fills calloc_ok db (\<not> is_container v \<or> fit) (\<lambda>p pool. get_entry_data_list calloc_ok db (word_of_nat a) p pool depth)
    (flatten v) (a + length bs)"
  unfolding fills_def
proof (intro allI impI)
  fix p pool xs y
  let ?n = "a + length bs"
  let ?get = "\<lambda>off p pool. get_entry_data_list calloc_ok db off p pool (depth + 1)"
  assume pool: "pool_inv 64 pool" "elem_valid 64 pool p" "pool_items 64 pool = xs @ [y]"
    "elem_pos 64 p = length xs"
  obtain pool1 e1 where dec1: "decode_into db (word_of_nat a) p pool = Some (MMDB_SUCCESS, pool1)"
    and e1: "has_data e1 \<and> ed_type e1 = MMDB_DATA_TYPE_POINTER \<and> ed_value e1 = Pointer_val (word_of_nat t) \<and>
      offset_to_next e1 = word_of_nat ?n"
    and pool1: "pool_inv 64 pool1" "\<forall>q. elem_valid 64 pool1 q = elem_valid 64 pool q"
      "pool_items 64 pool1 = xs @ [e1]" "pool_entry pool1 p = Some e1"
    by (rule decode_into_last [OF pool decode_pointer [OF bytes code]])
  have p1: "elem_valid 64 pool1 p" using pool1 pool by blast
  obtain pool2 e2 where dec2: "decode_into db (word_of_nat t) p pool1 = Some (MMDB_SUCCESS, pool2)"
    and e2: "entry_for db t v (if is_container v then c else m) e2"
    and pool2: "pool_inv 64 pool2" "\<forall>q. elem_valid 64 pool2 q = elem_valid 64 pool1 q"
      "pool_items 64 pool2 = xs @ [e2]" "pool_entry pool2 p = Some e2"
    by (rule decode_into_last [OF pool1(1) p1 pool1(3) pool(4) decode_stored [OF st]])
  have p2: "elem_valid 64 pool2 p" using pool2 p1 by blast
  let ?m = "if is_container v then ?get (word_of_nat t) p pool2 else Some (MMDB_SUCCESS, pool2)"
  have run: "get_entry_data_list calloc_ok db (word_of_nat a) p pool depth =
      chk ?m (set_entry_next p (word_of_nat ?n))"
    using d dec1 dec2 pool1(4) pool2(4) e1 entry_for_container(3) [OF e2] e2
    by (auto simp: get_entry_data_list.simps [of _ _ _ p pool] Let_def list_of_pointer_def entry_for_def)
  have m: "wp ?m (value_post calloc_ok db (\<not> is_container v \<or> fit) pool xs (flatten v) m)"
  proof (cases "is_container v")
    case True
    have "wp (?get (word_of_nat t) p pool2) (value_post calloc_ok db fit pool2 xs (flatten v) m)"
      using rec [OF True, unfolded fills_def, rule_format, OF pool2(1) p2 pool2(3) pool(4)] .
    then have "wp (?get (word_of_nat t) p pool2) (value_post calloc_ok db (\<not> is_container v \<or> fit) pool xs (flatten v) m)"
      using pool1(2) pool2(2) True by (elim wp_mono) (auto simp: value_post_def simp del: split_paired_All)
    with True show ?thesis by simp
  next
    case False
    then have "entry_for db t v m e2" using e2 by simp
    with False entry_for_head [OF this False] pool2 pool1(2) show ?thesis
      by (auto simp: value_post_def entry_for_def simp del: split_paired_All)
  qed
  show "wp (get_entry_data_list calloc_ok db (word_of_nat a) p pool depth)
      (value_post calloc_ok db (\<not> is_container v \<or> fit) pool xs (flatten v) ?n)"
    unfolding run wp_chk_with
  proof (rule wp_mono [OF m])
    fix st pool3
    assume post: "value_post calloc_ok db (\<not> is_container v \<or> fit) pool xs (flatten v) m st pool3"
    show "if st = MMDB_SUCCESS
        then wp (set_entry_next p (word_of_nat ?n) pool3) (value_post calloc_ok db (\<not> is_container v \<or> fit) pool xs (flatten v) ?n)
        else value_post calloc_ok db (\<not> is_container v \<or> fit) pool xs (flatten v) ?n st pool3"
    proof (cases "st = MMDB_SUCCESS")
      case True
      then obtain e es where fit: "\<not> is_container v \<or> fit" and items: "pool_items 64 pool3 = xs @ e # es"
        and heads: "map (entry_head db) (e # es) = map Some (flatten v)"
        and inv: "pool_inv 64 pool3" and keep: "\<forall>q. elem_valid 64 pool q \<longrightarrow> elem_valid 64 pool3 q"
        using post by (auto simp: value_post_def simp del: split_paired_All)
      obtain pool4 where "set_entry_next p (word_of_nat ?n) pool3 = Some (MMDB_SUCCESS, pool4)"
        "pool_inv 64 pool4" "pool_items 64 pool4 = xs @ e\<lparr>offset_to_next := word_of_nat ?n\<rparr> # es"
        "\<forall>q. elem_valid 64 pool4 q = elem_valid 64 pool3 q"
        using set_entry_next_items [OF inv _ items pool(4)] keep pool(2) by blast
      then show ?thesis
        using True fit keep heads by (simp add: value_post_def del: split_paired_All)
    qed (use post in \<open>simp add: value_post_def del: split_paired_All\<close>)
  qed
qed

section \<open>The whole value\<close>

abbreviation get_at :: "calloc_env \<Rightarrow> MMDB_s \<Rightarrow> nat \<Rightarrow> u32 \<Rightarrow> elem_ptr \<Rightarrow> MMDB_data_pool_s \<Rightarrow>
    MMDB_data_pool_s run" where
  "get_at calloc_ok db depth \<equiv> \<lambda>off p pool. get_entry_data_list calloc_ok db off p pool depth"

abbreviation levels_at :: "nat \<Rightarrow> nat" where
  "levels_at depth \<equiv> MAXIMUM_DATA_STRUCTURE_DEPTH - depth"

lemma levels_at_Suc: "depth < MAXIMUM_DATA_STRUCTURE_DEPTH \<Longrightarrow> levels_at depth = Suc (levels_at (depth + 1))"
  by simp

text \<open>At the depth limit the traversal gives up before it looks at the data.\<close>

lemma too_deep_fills:
  "\<not> depth < MAXIMUM_DATA_STRUCTURE_DEPTH \<Longrightarrow> fills calloc_ok db False (get_at calloc_ok db depth off) hs n"
  by (simp add: fills_def value_post_def get_entry_data_list.simps)

lemma stored_fills:
  assumes "stored db a v c n h"
    and "depth < MAXIMUM_DATA_STRUCTURE_DEPTH \<Longrightarrow> fills calloc_ok db (stored db a v c n (Suc (levels_at (depth + 1))))
      (get_at calloc_ok db depth (word_of_nat a)) (flatten v) n"
  shows "fills calloc_ok db (stored db a v c n (levels_at depth)) (get_at calloc_ok db depth (word_of_nat a)) (flatten v) n"
proof (cases "depth < MAXIMUM_DATA_STRUCTURE_DEPTH")
  case True
  then show ?thesis using assms(2) levels_at_Suc by simp
next
  case False
  then show ?thesis using too_deep_fills [OF False, of calloc_ok db "word_of_nat a" "flatten v" n] stored_levels_pos by simp
qed

text \<open>
  For every depth: the traversal fills in the labels exactly when the value can be represented
  within the levels that are left.
\<close>

lemma get_entry_data_list_fills:
  "stored db a v c n h \<Longrightarrow> (\<forall>depth. fills calloc_ok db (stored db a v c n (levels_at depth))
     (get_at calloc_ok db depth (word_of_nat a)) (flatten v) n)"
  "represents db a v n h \<Longrightarrow> (\<forall>depth. fills calloc_ok db (represents db a v n (levels_at depth))
     (get_at calloc_ok db depth (word_of_nat a)) (flatten v) n)"
  "represents_seq db a vs n h \<Longrightarrow> (\<forall>depth. appends calloc_ok db (represents_seq db a vs n (levels_at depth))
     (\<lambda>pool. c_repeat (length vs) (list_element calloc_ok (get_at calloc_ok db depth))
       (word_of_nat a, pool)) (concat (map flatten vs)) n)"
  "represents_pairs db a kvs n h \<Longrightarrow> (\<forall>depth. appends calloc_ok db (represents_pairs db a kvs n (levels_at depth))
     (\<lambda>pool. c_repeat (length kvs)
       (\<lambda>s. chk (list_element calloc_ok (get_at calloc_ok db depth) s)
         (list_element calloc_ok (get_at calloc_ok db depth))) (word_of_nat a, pool))
       (concat (map (\<lambda>(k, v). H_scalar (V_string k) # flatten v) kvs)) n)"
proof (induction rule: represents_induct)
  case (scalar a ty bs c v h)
  note st = represents_intros(1) [OF scalar] and v = scalar_of_container [OF scalar(3)]
  show ?case
    using stored_fills [OF st] stored_scalar_fills [OF st v] stored_scalar_levels [OF st v] by simp
next
  case (boolean a k c h)
  note st = represents_intros(2) [OF boolean]
  show ?case
    using stored_fills [OF st] stored_scalar_fills [OF st] stored_scalar_levels [OF st] by simp
next
  case (array a vs c n h)
  note st = represents_intros(3) [OF array(1,2)]
  show ?case
  proof (intro allI stored_fills [OF st])
    fix depth
    assume d: "depth < MAXIMUM_DATA_STRUCTURE_DEPTH"
    show "fills calloc_ok db (stored db a (V_array vs) c n (Suc (levels_at (depth + 1))))
      (get_at calloc_ok db depth (word_of_nat a)) (flatten (V_array vs)) n"
      unfolding stored_array_levels [OF st] by (rule stored_array_fills [OF st array(2) d array(3) [rule_format]])
  qed
next
  case (map a kvs c n h)
  note st = represents_intros(4) [OF map(1,2)]
  show ?case
  proof (intro allI stored_fills [OF st])
    fix depth
    assume d: "depth < MAXIMUM_DATA_STRUCTURE_DEPTH"
    show "fills calloc_ok db (stored db a (V_map kvs) c n (Suc (levels_at (depth + 1))))
      (get_at calloc_ok db depth (word_of_nat a)) (flatten (V_map kvs)) n"
      unfolding stored_map_levels [OF st] by (rule stored_map_fills [OF st map(2) d map(3) [rule_format]])
  qed
next
  case (direct a v c n h)
  then show ?case using represents_stored_levels [OF direct(1)] by simp
next
  case (pointer a bs t v c m h)
  note code = \<open>section_bytes db a bs\<close> \<open>pointer_code t bs\<close> and st = \<open>stored db t v c m h\<close>
  show ?case
  proof
    fix depth
    show "fills calloc_ok db (represents db a v (a + length bs) (levels_at depth))
      (get_at calloc_ok db depth (word_of_nat a)) (flatten v) (a + length bs)"
    proof (cases "depth < MAXIMUM_DATA_STRUCTURE_DEPTH")
      case True
      have "fills calloc_ok db (\<not> is_container v \<or> stored db t v c m (levels_at (depth + 1)))
          (get_at calloc_ok db depth (word_of_nat a)) (flatten v) (a + length bs)"
        by (rule stored_pointer_fills [OF code st True]) (use pointer in blast)
      then show ?thesis
        using represents_pointer_levels [OF code st] levels_at_Suc [OF True] by simp
    next
      case False
      have "\<not> represents db a v (a + length bs) (levels_at depth)"
        using represents_bounds(2) [of db a v "a + length bs" "levels_at depth"] False by auto
      with too_deep_fills [OF False, of calloc_ok db "word_of_nat a" "flatten v" "a + length bs"]
      show ?thesis by simp
    qed
  qed
next
  case (seq_Nil a h)
  then show ?case using appends_Nil represents_intros(7) by simp
next
  case (seq_Cons a v m h vs n)
  then show ?case
    using represents_seq_levels [OF seq_Cons(1)]
    by (auto intro!: appends_chk list_element_appends flatten_not_Nil)
next
  case (pairs_Nil a h)
  then show ?case using appends_Nil represents_intros(9) by simp
next
  case (pairs_Cons a k m h v m' kvs n)
  have "appends calloc_ok db ((represents db a (V_string k) m (levels_at depth) \<and> represents db m v m' (levels_at depth)) \<and>
      represents_pairs db m' kvs n (levels_at depth))
      (\<lambda>pool. chk (chk (list_element calloc_ok (get_at calloc_ok db depth) (word_of_nat a, pool))
         (list_element calloc_ok (get_at calloc_ok db depth))) 
         (c_repeat (length kvs) (\<lambda>s. chk (list_element calloc_ok (get_at calloc_ok db depth) s)
         (list_element calloc_ok (get_at calloc_ok db depth)))))
      ((flatten (V_string k) @ flatten v) @ concat (map (\<lambda>(k, v). H_scalar (V_string k) # flatten v) kvs)) n" for depth
    by (rule appends_chk [OF appends_chk]) 
       (use pairs_Cons flatten_not_Nil [of v] in \<open>auto intro!: list_element_appends\<close>)
  moreover have "represents_pairs db a ((k, v) # kvs) n levels \<longleftrightarrow>
      (represents db a (V_string k) m levels \<and> represents db m v m' levels) \<and> represents_pairs db m' kvs n levels" for levels
    using pairs_Cons by (intro represents_pairs_levels)
  ultimately show ?case by simp
qed

lemma data_pool_new_64: "\<forall>k. calloc_ok k \<Longrightarrow> data_pool_new calloc_ok MMDB_POOL_INIT_SIZE \<noteq> None"
  by (simp add: data_pool_new_def can_multiply_iff)

lemma MMDB_get_entry_data_list_levels:
  assumes v: "represents (entry_mmdb start) a v n h" and a: "entry_offset start = word_of_nat a"
  shows "wp (MMDB_get_entry_data_list calloc_ok start) (\<lambda>st r.
    if st = MMDB_SUCCESS
    then represents (entry_mmdb start) a v n MAXIMUM_DATA_STRUCTURE_DEPTH \<and> (\<exists>pool es. r = Some ((0, 0), pool) \<and>
      list_entries pool (length (flatten v)) (Some (0, 0)) = Some es \<and>
      map (entry_head (entry_mmdb start)) es = map Some (flatten v))
    else r = None \<and>
      (st = MMDB_INVALID_DATA_ERROR \<and> \<not> represents (entry_mmdb start) a v n MAXIMUM_DATA_STRUCTURE_DEPTH \<or>
       st = MMDB_OUT_OF_MEMORY_ERROR \<and> ((\<forall>k. calloc_ok k) \<longrightarrow> pool_capacity < length (flatten v))))"
    (is "wp _ ?post")
proof (cases "data_pool_new calloc_ok MMDB_POOL_INIT_SIZE")
  case None
  then show ?thesis using data_pool_new_64 [of calloc_ok] by (auto simp: MMDB_get_entry_data_list_def)
next
  case (Some pool)
  note inv = data_pool_new_inv [OF Some]
  obtain r pool1 where alloc: "data_pool_alloc calloc_ok pool = (r, pool1)" by fastforce
  show ?thesis
  proof (cases r)
    case None
    have "\<not> pool_capacity \<le> length (pool_items 64 pool)" by (simp add: inv(2) pool_capacity_def)
    then have "\<not> (\<forall>k. calloc_ok k)" using alloc_fails_full [OF inv(1)] alloc None by blast
    then show ?thesis using Some alloc None by (auto simp: MMDB_get_entry_data_list_def)
  next
    case r: (Some p)
    have pool1: "pool_inv 64 pool1" "elem_valid 64 pool1 p"
      and items: "pool_items 64 pool1 = [] @ [zero_entry]" "elem_pos 64 p = length []"
      using dp.alloc_Some [OF inv(1)] alloc r inv(2) by auto
    let ?fit = "represents (entry_mmdb start) a v n MAXIMUM_DATA_STRUCTURE_DEPTH"
    have "fills calloc_ok (entry_mmdb start) ?fit (get_at calloc_ok (entry_mmdb start) 0 (word_of_nat a)) (flatten v) n"
      using get_entry_data_list_fills(2) [OF v, of calloc_ok, rule_format, of 0] by simp
    note filled = this [unfolded fills_def, rule_format, OF pool1 items]
    then obtain st pool2 where get: "get_entry_data_list calloc_ok (entry_mmdb start) (entry_offset start) p pool1 0 =
        Some (st, pool2)" and post: "value_post calloc_ok (entry_mmdb start) ?fit pool1 [] (flatten v) n st pool2"
      unfolding wp_iff_ex a by blast
    show ?thesis
    proof (cases "st = MMDB_SUCCESS")
      case True
      then obtain e es where fit: ?fit and pool2: "pool_inv 64 pool2" "pool_items 64 pool2 = e # es"
        and heads: "map (entry_head (entry_mmdb start)) (e # es) = map Some (flatten v)"
        using post by (auto simp: value_post_def simp del: split_paired_All)
      then have "length (flatten v) = length (e # es)" by (metis length_map)
      with data_pool_to_list_items [OF pool2(1)] pool2(2) heads True fit get Some alloc r show ?thesis
        by (auto simp: MMDB_get_entry_data_list_def simp del: list.map)
    next
      case False
      then show ?thesis
        using get post Some alloc r
        by (simp add: MMDB_get_entry_data_list_def value_post_def del: split_paired_All)
    qed
  qed
qed

lemma MMDB_get_entry_data_list_flatten:
  assumes "represents (entry_mmdb start) a v n h" and "entry_offset start = word_of_nat a"
    and "h \<le> MAXIMUM_DATA_STRUCTURE_DEPTH"
  shows "wp (MMDB_get_entry_data_list calloc_ok start) (\<lambda>st r.
    if st = MMDB_SUCCESS
    then \<exists>pool es. r = Some ((0, 0), pool) \<and>
      list_entries pool (length (flatten v)) (Some (0, 0)) = Some es \<and>
      map (entry_head (entry_mmdb start)) es = map Some (flatten v)
    else st = MMDB_OUT_OF_MEMORY_ERROR \<and> r = None \<and>
      ((\<forall>k. calloc_ok k) \<longrightarrow> pool_capacity < length (flatten v)))"
proof -
  have "represents (entry_mmdb start) a v n MAXIMUM_DATA_STRUCTURE_DEPTH"
    using represents_mono(2) [OF assms(1)] assms(3) by blast
  then show ?thesis
    using MMDB_get_entry_data_list_levels [OF assms(1,2), of calloc_ok] by (elim wp_mono) (auto split: if_splits)
qed

end
