(* ===== verification/Compat.thy ===== *)
theory Compat
  imports Database "HOL-Library.Multiset"
begin

text \<open>
  \<open>src/maxminddb-compat-util.h\<close>: \<open>mmdb_memmem\<close>, \<open>mmdb_strnlen\<close>, \<open>mmdb_strdup\<close> and
  \<open>mmdb_strndup\<close>, and the resources of the process that the library takes and gives back:
  heap blocks, file descriptors and mappings. A C string that the library allocated is its
  address with the bytes before its terminator.
\<close>

section \<open>Resources\<close>

text \<open>
  \<open>live\<close> are the allocated blocks. Allocation number \<open>k\<close> gets the address \<open>k\<close> and succeeds when
  \<open>alloc_ok k\<close>; \<open>pool_ok k\<close> are the answers for the blocks of a data pool made at that time.
\<close>

record resources =
  next_addr :: addr
  live :: "addr multiset"
  alloc_ok :: "nat \<Rightarrow> bool"
  pool_ok :: "nat \<Rightarrow> nat \<Rightarrow> bool"
  open_fds :: nat
  mappings :: nat

definition c_malloc :: "resources \<Rightarrow> addr option \<times> resources" where
  "c_malloc h =
    (let h' = h\<lparr>next_addr := next_addr h + 1\<rparr>
     in if alloc_ok h (next_addr h)
        then (Some (next_addr h), h'\<lparr>live := add_mset (next_addr h) (live h)\<rparr>)
        else (None, h'))"

text \<open>\<open>free\<close> of a block that is not allocated is an invalid access.\<close>

definition c_free :: "addr \<Rightarrow> resources \<Rightarrow> resources option" where
  "c_free a h = (if a \<in># live h then Some (h\<lparr>live := live h - {#a#}\<rparr>) else None)"

text \<open>\<open>FREE_AND_SET_NULL\<close>: freeing \<open>NULL\<close> does nothing.\<close>

definition free_opt :: "'a owned option \<Rightarrow> resources \<Rightarrow> resources option" where
  "free_opt p h = (case p of None \<Rightarrow> Some h | Some (a, _) \<Rightarrow> c_free a h)"

section \<open>Strings\<close>

text \<open>\<open>*(s + i)\<close>; the literal \<open>""\<close> has only its terminator.\<close>

definition c_str_rd :: "bytes \<Rightarrow> c_str \<Rightarrow> nat \<Rightarrow> u8 option" where
  "c_str_rd m s i =
    (case s of
       Empty_literal \<Rightarrow> if i = 0 then Some 0 else None
     | Mapped p \<Rightarrow> rd m (p + i))"

definition c_str_block :: "bytes \<Rightarrow> c_str \<Rightarrow> nat \<Rightarrow> bytes option" where
  "c_str_block m s n =
    (case s of
       Empty_literal \<Rightarrow> if n = 0 then Some [] else None
     | Mapped p \<Rightarrow> rd_block m p n)"

text \<open>The loop of \<open>mmdb_strnlen\<close> with \<open>k\<close> rounds left.\<close>

fun strnlen_from :: "bytes \<Rightarrow> c_str \<Rightarrow> nat \<Rightarrow> nat \<Rightarrow> nat option" where
  "strnlen_from m s 0 len = Some len"
| "strnlen_from m s (Suc k) len = do {
     c \<leftarrow> c_str_rd m s len;
     if c = 0 then Some len else strnlen_from m s k (len + 1) }"

definition mmdb_strnlen :: "bytes \<Rightarrow> c_str \<Rightarrow> nat \<Rightarrow> nat option" where
  "mmdb_strnlen m s maxlen = strnlen_from m s maxlen 0"

definition mmdb_strdup :: "bytes \<Rightarrow> resources \<Rightarrow> bytes owned option \<times> resources" where
  "mmdb_strdup str h = (case c_malloc h of (a, h) \<Rightarrow> (map_option (\<lambda>a. (a, str)) a, h))"

definition mmdb_strndup ::
  "bytes \<Rightarrow> c_str \<Rightarrow> nat \<Rightarrow> resources \<Rightarrow> (bytes owned option \<times> resources) option" where
  "mmdb_strndup m str n h = do {
     len \<leftarrow> mmdb_strnlen m str n;
     case c_malloc h of
       (None, h) \<Rightarrow> Some (None, h)
     | (Some a, h) \<Rightarrow> do {
         copy \<leftarrow> c_str_block m str len;
         Some (Some (a, copy), h) } }"

section \<open>Searching for a pattern\<close>

fun memchr :: "bytes \<Rightarrow> ptr \<Rightarrow> u8 \<Rightarrow> nat \<Rightarrow> ptr option option" where
  "memchr m p c 0 = Some None"
| "memchr m p c (Suc n) = do {
     b \<leftarrow> rd m p;
     if b = c then Some (Some p) else memchr m (p + 1) c n }"

text \<open>The loop of \<open>mmdb_memmem\<close> with \<open>n\<close> positions left from \<open>cur\<close> on.\<close>

fun memmem_from :: "bytes \<Rightarrow> ptr \<Rightarrow> nat \<Rightarrow> bytes \<Rightarrow> ptr option option" where
  "memmem_from m cur 0 s = Some None"
| "memmem_from m cur (Suc n) s = do {
     c \<leftarrow> rd m cur;
     same \<leftarrow> (if c = hd s then map_option (\<lambda>bs. bs = s) (rd_block m cur (length s)) else Some False);
     if same then Some (Some cur) else memmem_from m (cur + 1) n s }"

definition mmdb_memmem :: "bytes \<Rightarrow> ptr \<Rightarrow> nat \<Rightarrow> bytes \<Rightarrow> ptr option option" where
  "mmdb_memmem m l l_len s =
    (if l_len = 0 \<or> length s = 0 then Some None
     else if l_len < length s then Some None
     else if length s = 1 then memchr m l (hd s) l_len
     else memmem_from m l (l_len - length s + 1) s)"

section \<open>Facts about resources\<close>

lemma c_malloc_live:
  "c_malloc h = (r, h') \<Longrightarrow>
     live h' = (case r of None \<Rightarrow> live h | Some a \<Rightarrow> add_mset a (live h)) \<and>
     open_fds h' = open_fds h \<and> mappings h' = mappings h"
  by (auto simp: c_malloc_def Let_def split: if_splits)

lemma c_free_live:
  assumes "live h = add_mset a rest"
  shows "\<exists>h'. c_free a h = Some h' \<and> live h' = rest \<and> open_fds h' = open_fds h \<and> mappings h' = mappings h"
  using assms by (simp add: c_free_def)

text \<open>The address of an owned object, as a multiset of blocks.\<close>

definition block_of :: "'a owned option \<Rightarrow> addr multiset" where
  "block_of p = (case p of None \<Rightarrow> {#} | Some (a, _) \<Rightarrow> {#a#})"

lemma block_of_simps [simp]: "block_of None = {#}" "block_of (Some (a, x)) = {#a#}"
  by (simp_all add: block_of_def)

text \<open>\<open>owns h base ms\<close>: beside the blocks \<open>base\<close> exactly the blocks \<open>ms\<close> are allocated.\<close>

definition owns :: "resources \<Rightarrow> addr multiset \<Rightarrow> addr multiset \<Rightarrow> bool" where
  "owns h base ms \<longleftrightarrow> live h = base + ms"

text \<open>The other resources are as before.\<close>

definition same_files :: "resources \<Rightarrow> resources \<Rightarrow> bool" where
  "same_files h h' \<longleftrightarrow> open_fds h' = open_fds h \<and> mappings h' = mappings h"

lemma same_files_refl [simp]: "same_files h h"
  by (simp add: same_files_def)

lemma same_files_trans: "same_files h h' \<Longrightarrow> same_files h' h'' \<Longrightarrow> same_files h h''"
  by (simp add: same_files_def)

lemma free_opt_owns:
  assumes "owns h base (block_of p + rest)"
  shows "\<exists>h'. free_opt p h = Some h' \<and> owns h' base rest \<and> same_files h h'"
proof (cases p)
  case None
  then show ?thesis using assms by (simp add: free_opt_def)
next
  case (Some ax)
  obtain a x where ax: "ax = (a, x)" by fastforce
  then have "live h = add_mset a (base + rest)" using assms Some by (simp add: owns_def)
  from c_free_live [OF this] show ?thesis
    by (auto simp: free_opt_def Some ax owns_def same_files_def)
qed

lemma mmdb_strdup_owns:
  assumes "owns h base ms" and "mmdb_strdup str h = (r, h')"
  shows "owns h' base (block_of r + ms) \<and> same_files h h' \<and> (\<forall>a s. r = Some (a, s) \<longrightarrow> s = str)"
  using assms c_malloc_live [of h _ h']
  by (auto simp: mmdb_strdup_def owns_def same_files_def split: prod.splits option.splits)

section \<open>Facts about strings\<close>

text \<open>The bytes of a string up to its terminator, or up to the given length.\<close>

lemma strnlen_from_takeWhile:
  assumes "\<And>i. i < length bs \<Longrightarrow> c_str_rd m s (len + i) = Some (bs ! i)"
  shows "strnlen_from m s (length bs) len = Some (len + length (takeWhile (\<lambda>b. b \<noteq> 0) bs))"
  using assms
proof (induction bs arbitrary: len)
  case (Cons b bs)
  have b: "c_str_rd m s len = Some b" using Cons.prems [of 0] by simp
  show ?case
  proof (cases "b = 0")
    case False
    have "strnlen_from m s (length bs) (len + 1) = Some (len + 1 + length (takeWhile (\<lambda>b. b \<noteq> 0) bs))"
    proof (rule Cons.IH)
      fix i assume "i < length bs"
      then show "c_str_rd m s (len + 1 + i) = Some (bs ! i)" using Cons.prems [of "Suc i"] by simp
    qed
    with b False show ?thesis by simp
  qed (use b in simp)
qed simp

lemma c_str_block_rd:
  "c_str_block m s n = Some bs \<Longrightarrow> length bs = n \<and> (\<forall>i < n. c_str_rd m s i = Some (bs ! i))"
  by (auto simp: c_str_block_def c_str_rd_def rd_block_eq_Some_iff split: c_str.splits if_splits)

lemma c_str_block_prefix:
  "c_str_block m s n = Some bs \<Longrightarrow> k \<le> n \<Longrightarrow> c_str_block m s k = Some (take k bs)"
  by (auto simp: c_str_block_def rd_block_eq_Some_iff min_def split: c_str.splits if_splits)

lemma mmdb_strndup_owns:
  assumes bs: "c_str_block m str n = Some bs" and own: "owns h base ms"
  shows "\<exists>r h'. mmdb_strndup m str n h = Some (r, h') \<and> owns h' base (block_of r + ms) \<and>
    same_files h h' \<and> (\<forall>a s. r = Some (a, s) \<longrightarrow> s = takeWhile (\<lambda>b. b \<noteq> 0) bs)"
proof -
  let ?s = "takeWhile (\<lambda>b. b \<noteq> 0) bs"
  note rd = c_str_block_rd [OF bs]
  have len: "mmdb_strnlen m str n = Some (length ?s)"
    using strnlen_from_takeWhile [of bs m str 0] rd by (simp add: mmdb_strnlen_def)
  have "length ?s \<le> n" using rd length_takeWhile_le [of "\<lambda>b. b \<noteq> 0" bs] by simp
  then have blk: "c_str_block m str (length ?s) = Some ?s"
    using c_str_block_prefix [OF bs] by (simp add: takeWhile_eq_take [symmetric])
  obtain r h' where m: "c_malloc h = (r, h')" by fastforce
  show ?thesis
    using c_malloc_live [OF m] own len blk m
    by (cases r) (auto simp: mmdb_strndup_def owns_def same_files_def)
qed

section \<open>Facts about the search\<close>

text \<open>\<open>first_match m l n s r\<close>: \<open>r\<close> is the first of the \<open>n\<close> positions from \<open>l\<close> on where \<open>s\<close> occurs.\<close>

definition first_match :: "bytes \<Rightarrow> ptr \<Rightarrow> nat \<Rightarrow> bytes \<Rightarrow> ptr option \<Rightarrow> bool" where
  "first_match m l n s r \<longleftrightarrow>
    (case r of
       None \<Rightarrow> \<forall>q. l \<le> q \<and> q < l + n \<longrightarrow> \<not> bytes_at m q s
     | Some p \<Rightarrow> l \<le> p \<and> p < l + n \<and> bytes_at m p s \<and> (\<forall>q. l \<le> q \<and> q < p \<longrightarrow> \<not> bytes_at m q s))"

lemma first_match_step:
  assumes "first_match m (l + 1) n s r" and "\<not> bytes_at m l s"
  shows "first_match m l (Suc n) s r"
proof -
  have "\<not> bytes_at m q s" if "l \<le> q" and "l + 1 \<le> q \<Longrightarrow> \<not> bytes_at m q s" for q
    using that assms(2) by (cases "q = l") auto
  with assms(1) show ?thesis by (auto simp: first_match_def split: option.splits)
qed

lemma first_match_here: "bytes_at m l s \<Longrightarrow> first_match m l (Suc n) s (Some l)"
  by (auto simp: first_match_def)

lemma memchr_first:
  "p + n \<le> length m \<Longrightarrow> \<exists>r. memchr m p c n = Some r \<and> first_match m p n [c] r"
proof (induction n arbitrary: p)
  case (Suc n)
  then obtain r where r: "memchr m (p + 1) c n = Some r" "first_match m (p + 1) n [c] r"
    using Suc.IH [of "p + 1"] by force
  show ?case
  proof (cases "m ! p = c")
    case True
    then show ?thesis using Suc.prems first_match_here [of m p "[c]" n] by (simp add: bytes_at_Cons)
  next
    case False
    then show ?thesis
      using Suc.prems r first_match_step [OF r(2)] by (simp add: bytes_at_Cons)
  qed
qed (auto simp: first_match_def)

lemma memmem_from_first:
  assumes "s \<noteq> []"
  shows "cur + n + length s \<le> length m + 1 \<Longrightarrow> \<exists>r. memmem_from m cur n s = Some r \<and> first_match m cur n s r"
proof (induction n arbitrary: cur)
  case (Suc n)
  then obtain r where r: "memmem_from m (cur + 1) n s = Some r" "first_match m (cur + 1) n s r"
    using Suc.IH [of "cur + 1"] by force
  have len: "cur + length s \<le> length m" and c: "cur < length m" using Suc.prems assms by (cases s; simp)+
  have at: "bytes_at m cur s \<longleftrightarrow> m ! cur = hd s \<and> take (length s) (drop cur m) = s"
    using len c assms by (cases s) (auto simp: bytes_at_def Cons_nth_drop_Suc [symmetric])
  show ?case
  proof (cases "bytes_at m cur s")
    case True
    then show ?thesis using len c at first_match_here [OF True] by simp
  next
    case False
    then show ?thesis using len c at r first_match_step [OF r(2) False] by auto
  qed
qed (auto simp: first_match_def)

lemma mmdb_memmem_first:
  assumes "l + l_len \<le> length m" and "s \<noteq> []"
  shows "\<exists>r. mmdb_memmem m l l_len s = Some r \<and> first_match m l (l_len + 1 - length s) s r"
proof -
  consider "l_len < length s" | "length s = 1" "\<not> l_len < length s"
    | "length s \<noteq> 1" "\<not> l_len < length s" by blast
  then show ?thesis
  proof cases
    case 1
    then show ?thesis by (auto simp: mmdb_memmem_def first_match_def)
  next
    case 2
    then obtain c where "s = [c]" by (metis One_nat_def length_0_conv length_Suc_conv)
    then show ?thesis using 2 memchr_first [of l l_len m c] assms by (simp add: mmdb_memmem_def)
  next
    case 3
    have "l + (l_len - length s + 1) + length s \<le> length m + 1" using 3 assms(1) by simp
    from memmem_from_first [OF assms(2) this]
    obtain r where "memmem_from m l (l_len - length s + 1) s = Some r"
      "first_match m l (l_len - length s + 1) s r" by blast
    moreover have "l_len - length s + 1 = l_len + 1 - length s" using 3 by simp
    moreover have "\<not> (l_len = 0 \<or> length s = 0)" using 3 assms(2) by (cases s) auto
    ultimately show ?thesis using 3 by (simp only: mmdb_memmem_def if_False) simp
  qed
qed

end
