(* ===== verification/Metadata.thy ===== *)
theory Metadata
  imports Lookup_Path Entry_List Compat
begin

text \<open>
  The metadata of \<open>src/maxminddb.c\<close>: \<open>find_metadata\<close>, the \<open>value_for_key_as_*\<close> functions,
  \<open>populate_languages_metadata\<close>, \<open>populate_description_metadata\<close> and \<open>read_metadata\<close>. A
  function that fills in the handle and allocates gets and returns the handle together with
  the resources, also on its error paths.
\<close>

section \<open>find_metadata\<close>

definition ascii :: "string \<Rightarrow> bytes" where
  "ascii s = map of_char s"

definition METADATA_MARKER :: bytes where
  "METADATA_MARKER = [0xab, 0xcd, 0xef] @ ascii ''MaxMind.com''"

abbreviation (input) METADATA_BLOCK_MAX_SIZE :: int where "METADATA_BLOCK_MAX_SIZE \<equiv> 131072"

lemma length_METADATA_MARKER [simp]: "length METADATA_MARKER = 14" "METADATA_MARKER \<noteq> []"
  by (simp_all add: METADATA_MARKER_def ascii_def)

text \<open>The loop from \<open>search_area\<close> on; every round moves behind the marker it has found.\<close>

lemma memchr_bounds: "memchr m p c n = Some (Some q) \<Longrightarrow> p \<le> q \<and> q < p + n"
proof (induction n arbitrary: p)
  case (Suc n)
  then show ?case using Suc.IH [of "p + 1"] by (fastforce split: bind_splits if_splits)
qed simp

lemma memmem_from_bounds: "memmem_from m p n s = Some (Some q) \<Longrightarrow> p \<le> q \<and> q < p + n"
proof (induction n arbitrary: p)
  case (Suc n)
  then show ?case using Suc.IH [of "p + 1"] by (fastforce split: bind_splits if_splits)
qed simp

lemma mmdb_memmem_bounds:
  "mmdb_memmem m l n s = Some (Some q) \<Longrightarrow> l \<le> q \<and> q + length s \<le> l + n"
  using memchr_bounds [of m l "hd s" n q] memmem_from_bounds [of m l "n - length s + 1" s q]
  by (auto simp: mmdb_memmem_def split: if_splits)

function find_metadata_from :: "bytes \<Rightarrow> ptr \<Rightarrow> int \<Rightarrow> (ptr \<times> int) option" where
  "find_metadata_from m search_area max_size = do {
     tmp \<leftarrow> mmdb_memmem m search_area (nat max_size) METADATA_MARKER;
     case tmp of
       None \<Rightarrow> Some (search_area, max_size)
     | Some t \<Rightarrow>
         find_metadata_from m (t + length METADATA_MARKER)
           (max_size - (int t - int search_area) - int (length METADATA_MARKER)) }"
  by pat_completeness auto
termination
proof (relation "measure (\<lambda>(m, search_area, max_size). nat max_size)", goal_cases)
  case (2 m search_area max_size tmp t)
  then have "search_area \<le> t \<and> t + length METADATA_MARKER \<le> search_area + nat max_size"
    using mmdb_memmem_bounds by blast
  then show ?case by (cases "max_size \<le> 0") auto
qed simp

declare find_metadata_from.simps [simp del]

text \<open>The result is the start and the size of the metadata section, if there is one.\<close>

definition find_metadata :: "bytes \<Rightarrow> ptr \<Rightarrow> int \<Rightarrow> (ptr \<times> u32) option option" where
  "find_metadata m content size0 =
    (let max_size = (if size0 > METADATA_BLOCK_MAX_SIZE then METADATA_BLOCK_MAX_SIZE else size0)
     in if max_size < 0 then Some None
        else
          let start = nat (int content + (size0 - max_size)) in do {
          (search_area, max_size) \<leftarrow> find_metadata_from m start max_size;
          if search_area = start \<or> max_size \<le> 0 then Some None
          else Some (Some (search_area, word_of_int max_size)) })"

section \<open>Values of a known type\<close>

type_synonym stack_content = "nat \<Rightarrow> nat \<Rightarrow> MMDB_entry_data_s"

definition value_for_key_as_uint16 :: "stack_content \<Rightarrow> MMDB_entry_s \<Rightarrow> bytes \<Rightarrow> u16 \<Rightarrow> u16 run" where
  "value_for_key_as_uint16 stacks start key val =
    chk_with (\<lambda>_. val) (MMDB_aget_value stacks start [key]) (\<lambda>entry_data.
      if ed_type entry_data \<noteq> MMDB_DATA_TYPE_UINT16 then Some (MMDB_INVALID_METADATA_ERROR, val)
      else do { v \<leftarrow> union_uint16 (ed_value entry_data); Some (MMDB_SUCCESS, v) })"

definition value_for_key_as_uint32 :: "stack_content \<Rightarrow> MMDB_entry_s \<Rightarrow> bytes \<Rightarrow> u32 \<Rightarrow> u32 run" where
  "value_for_key_as_uint32 stacks start key val =
    chk_with (\<lambda>_. val) (MMDB_aget_value stacks start [key]) (\<lambda>entry_data.
      if ed_type entry_data \<noteq> MMDB_DATA_TYPE_UINT32 then Some (MMDB_INVALID_METADATA_ERROR, val)
      else do { v \<leftarrow> union_uint32 (ed_value entry_data); Some (MMDB_SUCCESS, v) })"

definition value_for_key_as_uint64 :: "stack_content \<Rightarrow> MMDB_entry_s \<Rightarrow> bytes \<Rightarrow> u64 \<Rightarrow> u64 run" where
  "value_for_key_as_uint64 stacks start key val =
    chk_with (\<lambda>_. val) (MMDB_aget_value stacks start [key]) (\<lambda>entry_data.
      if ed_type entry_data \<noteq> MMDB_DATA_TYPE_UINT64 then Some (MMDB_INVALID_METADATA_ERROR, val)
      else do { v \<leftarrow> union_uint64 (ed_value entry_data); Some (MMDB_SUCCESS, v) })"

definition value_for_key_as_string ::
  "stack_content \<Rightarrow> MMDB_entry_s \<Rightarrow> bytes \<Rightarrow> bytes owned option \<times> resources \<Rightarrow>
     (bytes owned option \<times> resources) run" where
  "value_for_key_as_string stacks start key s =
    (case s of (val, h) \<Rightarrow>
     chk_with (\<lambda>_. (val, h)) (MMDB_aget_value stacks start [key]) (\<lambda>entry_data.
       if ed_type entry_data \<noteq> MMDB_DATA_TYPE_UTF8_STRING
       then Some (MMDB_INVALID_METADATA_ERROR, (val, h))
       else do {
         str \<leftarrow> union_utf8_string (ed_value entry_data);
         (copy, h) \<leftarrow> mmdb_strndup (mapping (entry_mmdb start)) str (unat (data_size entry_data)) h;
         if copy = None then Some (MMDB_OUT_OF_MEMORY_ERROR, (copy, h))
         else Some (MMDB_SUCCESS, (copy, h)) }))"

section \<open>Languages\<close>

text \<open>\<open>mmdb->metadata.languages.names[i] = name\<close>\<close>

definition set_language_name :: "nat \<Rightarrow> bytes owned option \<Rightarrow> MMDB_s \<Rightarrow> MMDB_s option" where
  "set_language_name i name db =
    (case languages_names (db_metadata db) of
       None \<Rightarrow> None
     | Some (a, names) \<Rightarrow>
         if i < length names
         then Some (db\<lparr>db_metadata := (db_metadata db)\<lparr>languages_names := Some (a, names[i := name])\<rparr>\<rparr>)
         else None)"

definition set_languages_count :: "nat \<Rightarrow> MMDB_s \<Rightarrow> MMDB_s" where
  "set_languages_count n db = db\<lparr>db_metadata := (db_metadata db)\<lparr>languages_count := n\<rparr>\<rparr>"

text \<open>\<open>member->next\<close>, and the entry it points to.\<close>

definition next_member :: "MMDB_data_pool_s \<Rightarrow> elem_ptr \<Rightarrow> (elem_ptr \<times> MMDB_entry_data_s) option" where
  "next_member pool member = do {
     el \<leftarrow> pool_get pool member;
     member \<leftarrow> next_elem el;
     el \<leftarrow> pool_get pool member;
     Some (member, entry_data el) }"

text \<open>The loop over the members, with \<open>k\<close> rounds left from index \<open>i\<close> on.\<close>

fun populate_languages_from ::
  "MMDB_data_pool_s \<Rightarrow> nat \<Rightarrow> nat \<Rightarrow> elem_ptr \<Rightarrow> MMDB_s \<times> resources \<Rightarrow> (MMDB_s \<times> resources) run" where
  "populate_languages_from pool 0 i member s = Some (MMDB_SUCCESS, s)"
| "populate_languages_from pool (Suc k) i member (db, h) = do {
     (member, e) \<leftarrow> next_member pool member;
     if ed_type e \<noteq> MMDB_DATA_TYPE_UTF8_STRING then Some (MMDB_INVALID_METADATA_ERROR, (db, h))
     else do {
       str \<leftarrow> union_utf8_string (ed_value e);
       (name, h) \<leftarrow> mmdb_strndup (mapping db) str (unat (data_size e)) h;
       db \<leftarrow> set_language_name i name db;
       if name = None then Some (MMDB_OUT_OF_MEMORY_ERROR, (db, h))
       else populate_languages_from pool k (i + 1) member (set_languages_count (i + 1) db, h) } }"

definition populate_languages_metadata ::
  "stack_content \<Rightarrow> MMDB_s \<Rightarrow> MMDB_entry_s \<Rightarrow> MMDB_s \<times> resources \<Rightarrow> (MMDB_s \<times> resources) run" where
  "populate_languages_metadata stacks metadata_db metadata_start s =
    chk_with (\<lambda>_. s) (MMDB_aget_value stacks metadata_start [ascii ''languages'']) (\<lambda>entry_data.
      if ed_type entry_data \<noteq> MMDB_DATA_TYPE_ARRAY then Some (MMDB_INVALID_METADATA_ERROR, s)
      else
        let array_start = \<lparr>entry_mmdb = metadata_db, entry_offset = ed_offset entry_data\<rparr> in
        chk_with (\<lambda>_. s) (MMDB_get_entry_data_list (pool_ok (snd s) (next_addr (snd s))) array_start) (\<lambda>l. do {
          (member, pool) \<leftarrow> l;
          e \<leftarrow> pool_entry pool member;
          let array_size = unat (data_size e);
          let db = set_languages_count 0 (fst s);
          case c_malloc (snd s) of
            (None, h) \<Rightarrow>
              Some (MMDB_OUT_OF_MEMORY_ERROR,
                (db\<lparr>db_metadata := (db_metadata db)\<lparr>languages_names := None\<rparr>\<rparr>, h))
          | (Some a, h) \<Rightarrow>
              populate_languages_from pool array_size 0 member
                (db\<lparr>db_metadata := (db_metadata db)\<lparr>
                   languages_names := Some (a, replicate array_size None)\<rparr>\<rparr>, h) }))"

section \<open>Descriptions\<close>

text \<open>\<open>mmdb->metadata.description.descriptions[i] = d\<close>\<close>

definition set_description :: "nat \<Rightarrow> MMDB_description_s owned option \<Rightarrow> MMDB_s \<Rightarrow> MMDB_s option" where
  "set_description i d db =
    (case descriptions (db_metadata db) of
       None \<Rightarrow> None
     | Some (a, ds) \<Rightarrow>
         if i < length ds
         then Some (db\<lparr>db_metadata := (db_metadata db)\<lparr>descriptions := Some (a, ds[i := d])\<rparr>\<rparr>)
         else None)"

definition set_description_count :: "nat \<Rightarrow> MMDB_s \<Rightarrow> MMDB_s" where
  "set_description_count n db = db\<lparr>db_metadata := (db_metadata db)\<lparr>description_count := n\<rparr>\<rparr>"

text \<open>A copy of the string that the next member holds; \<open>None\<close> when it is not a string.\<close>

definition next_string ::
  "MMDB_data_pool_s \<Rightarrow> bytes \<Rightarrow> elem_ptr \<Rightarrow> resources \<Rightarrow>
     (elem_ptr \<times> bytes owned option \<times> resources) option option" where
  "next_string pool m member h = do {
     (member, e) \<leftarrow> next_member pool member;
     if ed_type e \<noteq> MMDB_DATA_TYPE_UTF8_STRING then Some None
     else do {
       str \<leftarrow> union_utf8_string (ed_value e);
       (copy, h) \<leftarrow> mmdb_strndup m str (unat (data_size e)) h;
       Some (Some (member, copy, h)) } }"

fun populate_descriptions_from ::
  "MMDB_data_pool_s \<Rightarrow> nat \<Rightarrow> nat \<Rightarrow> elem_ptr \<Rightarrow> MMDB_s \<times> resources \<Rightarrow> (MMDB_s \<times> resources) run" where
  "populate_descriptions_from pool 0 i member s = Some (MMDB_SUCCESS, s)"
| "populate_descriptions_from pool (Suc k) i member (db, h) =
    (case c_malloc h of
       (None, h) \<Rightarrow> do {
         db \<leftarrow> set_description i None db;
         Some (MMDB_OUT_OF_MEMORY_ERROR, (db, h)) }
     | (Some a, h) \<Rightarrow> do {
         db \<leftarrow> set_description i (Some (a, \<lparr>language = None, description = None\<rparr>)) db;
         let db = set_description_count (i + 1) db;
         l \<leftarrow> next_string pool (mapping db) member h;
         case l of
           None \<Rightarrow> Some (MMDB_INVALID_METADATA_ERROR, (db, h))
         | Some (member, lang, h) \<Rightarrow> do {
             db \<leftarrow> set_description i (Some (a, \<lparr>language = lang, description = None\<rparr>)) db;
             if lang = None then Some (MMDB_OUT_OF_MEMORY_ERROR, (db, h))
             else do {
               d \<leftarrow> next_string pool (mapping db) member h;
               case d of
                 None \<Rightarrow> Some (MMDB_INVALID_METADATA_ERROR, (db, h))
               | Some (member, desc, h) \<Rightarrow> do {
                   db \<leftarrow> set_description i (Some (a, \<lparr>language = lang, description = desc\<rparr>)) db;
                   if desc = None then Some (MMDB_OUT_OF_MEMORY_ERROR, (db, h))
                   else populate_descriptions_from pool k (i + 1) member (db, h) } } } })"

definition populate_description_metadata ::
  "stack_content \<Rightarrow> MMDB_s \<Rightarrow> MMDB_entry_s \<Rightarrow> MMDB_s \<times> resources \<Rightarrow> (MMDB_s \<times> resources) run" where
  "populate_description_metadata stacks metadata_db metadata_start s =
    chk_with (\<lambda>_. s) (MMDB_aget_value stacks metadata_start [ascii ''description'']) (\<lambda>entry_data.
      if ed_type entry_data \<noteq> MMDB_DATA_TYPE_MAP then Some (MMDB_INVALID_METADATA_ERROR, s)
      else
        let map_start = \<lparr>entry_mmdb = metadata_db, entry_offset = ed_offset entry_data\<rparr> in
        chk_with (\<lambda>_. s) (MMDB_get_entry_data_list (pool_ok (snd s) (next_addr (snd s))) map_start) (\<lambda>l. do {
          (member, pool) \<leftarrow> l;
          e \<leftarrow> pool_entry pool member;
          let map_size = unat (data_size e);
          let db = set_description_count 0 (fst s);
          if map_size = 0 then
            Some (MMDB_SUCCESS, (db\<lparr>db_metadata := (db_metadata db)\<lparr>descriptions := None\<rparr>\<rparr>, snd s))
          else
            case c_malloc (snd s) of
              (None, h) \<Rightarrow>
                Some (MMDB_OUT_OF_MEMORY_ERROR,
                  (db\<lparr>db_metadata := (db_metadata db)\<lparr>descriptions := None\<rparr>\<rparr>, h))
            | (Some a, h) \<Rightarrow>
                populate_descriptions_from pool map_size 0 member
                  (db\<lparr>db_metadata := (db_metadata db)\<lparr>
                     descriptions := Some (a, replicate map_size None)\<rparr>\<rparr>, h) }))"

section \<open>read_metadata\<close>

text \<open>The stages of \<open>read_metadata\<close>, each storing one value in the handle and checking it.\<close>

definition read_node_count ::
  "stack_content \<Rightarrow> MMDB_entry_s \<Rightarrow> MMDB_s \<times> resources \<Rightarrow> (MMDB_s \<times> resources) run" where
  "read_node_count stacks start s =
    (case s of (db, h) \<Rightarrow>
     chk_with (\<lambda>_. s) (value_for_key_as_uint32 stacks start (ascii ''node_count'') (node_count (db_metadata db)))
       (\<lambda>v. let s = (db\<lparr>db_metadata := (db_metadata db)\<lparr>node_count := v\<rparr>\<rparr>, h) in
         if v = 0 then Some (MMDB_INVALID_METADATA_ERROR, s) else Some (MMDB_SUCCESS, s)))"

definition read_record_size ::
  "stack_content \<Rightarrow> MMDB_entry_s \<Rightarrow> MMDB_s \<times> resources \<Rightarrow> (MMDB_s \<times> resources) run" where
  "read_record_size stacks start s =
    (case s of (db, h) \<Rightarrow>
     chk_with (\<lambda>_. s) (value_for_key_as_uint16 stacks start (ascii ''record_size'') (record_size (db_metadata db)))
       (\<lambda>v. let s = (db\<lparr>db_metadata := (db_metadata db)\<lparr>record_size := v\<rparr>\<rparr>, h) in
         if v = 0 then Some (MMDB_INVALID_METADATA_ERROR, s)
         else if v \<noteq> 24 \<and> v \<noteq> 28 \<and> v \<noteq> 32 then Some (MMDB_UNKNOWN_DATABASE_FORMAT_ERROR, s)
         else Some (MMDB_SUCCESS, s)))"

definition read_ip_version ::
  "stack_content \<Rightarrow> MMDB_entry_s \<Rightarrow> MMDB_s \<times> resources \<Rightarrow> (MMDB_s \<times> resources) run" where
  "read_ip_version stacks start s =
    (case s of (db, h) \<Rightarrow>
     chk_with (\<lambda>_. s) (value_for_key_as_uint16 stacks start (ascii ''ip_version'') (ip_version (db_metadata db)))
       (\<lambda>v. let s = (db\<lparr>db_metadata := (db_metadata db)\<lparr>ip_version := v\<rparr>\<rparr>, h) in
         if v = 0 then Some (MMDB_INVALID_METADATA_ERROR, s)
         else if \<not> (v = 4 \<or> v = 6) then Some (MMDB_INVALID_METADATA_ERROR, s)
         else Some (MMDB_SUCCESS, s)))"

definition read_database_type ::
  "stack_content \<Rightarrow> MMDB_entry_s \<Rightarrow> MMDB_s \<times> resources \<Rightarrow> (MMDB_s \<times> resources) run" where
  "read_database_type stacks start s =
    (case s of (db, h) \<Rightarrow>
     map_option (\<lambda>(st, v, h). (st, (db\<lparr>db_metadata := (db_metadata db)\<lparr>database_type := v\<rparr>\<rparr>, h)))
       (value_for_key_as_string stacks start (ascii ''database_type'') (database_type (db_metadata db), h)))"

definition read_major_version ::
  "stack_content \<Rightarrow> MMDB_entry_s \<Rightarrow> MMDB_s \<times> resources \<Rightarrow> (MMDB_s \<times> resources) run" where
  "read_major_version stacks start s =
    (case s of (db, h) \<Rightarrow>
     chk_with (\<lambda>_. s) (value_for_key_as_uint16 stacks start (ascii ''binary_format_major_version'')
         (binary_format_major_version (db_metadata db)))
       (\<lambda>v. let s = (db\<lparr>db_metadata := (db_metadata db)\<lparr>binary_format_major_version := v\<rparr>\<rparr>, h) in
         if v = 0 then Some (MMDB_INVALID_METADATA_ERROR, s) else Some (MMDB_SUCCESS, s)))"

definition read_minor_version ::
  "stack_content \<Rightarrow> MMDB_entry_s \<Rightarrow> MMDB_s \<times> resources \<Rightarrow> (MMDB_s \<times> resources) run" where
  "read_minor_version stacks start s =
    (case s of (db, h) \<Rightarrow>
     chk_with (\<lambda>_. s) (value_for_key_as_uint16 stacks start (ascii ''binary_format_minor_version'')
         (binary_format_minor_version (db_metadata db)))
       (\<lambda>v. Some (MMDB_SUCCESS, (db\<lparr>db_metadata := (db_metadata db)\<lparr>binary_format_minor_version := v\<rparr>\<rparr>, h))))"

definition read_build_epoch ::
  "stack_content \<Rightarrow> MMDB_entry_s \<Rightarrow> MMDB_s \<times> resources \<Rightarrow> (MMDB_s \<times> resources) run" where
  "read_build_epoch stacks start s =
    (case s of (db, h) \<Rightarrow>
     chk_with (\<lambda>_. s) (value_for_key_as_uint64 stacks start (ascii ''build_epoch'') (build_epoch (db_metadata db)))
       (\<lambda>v. let s = (db\<lparr>db_metadata := (db_metadata db)\<lparr>build_epoch := v\<rparr>\<rparr>, h) in
         if v = 0 then Some (MMDB_INVALID_METADATA_ERROR, s) else Some (MMDB_SUCCESS, s)))"

definition set_record_layout :: "MMDB_s \<times> resources \<Rightarrow> (MMDB_s \<times> resources) run" where
  "set_record_layout s =
    (case s of (db, h) \<Rightarrow>
     Some (MMDB_SUCCESS,
       (db\<lparr>full_record_byte_size := ucast ((ucast (record_size (db_metadata db)) * 2) div 8 :: u32),
          db_depth := (if ip_version (db_metadata db) = 4 then 32 else 128)\<rparr>, h)))"

definition read_metadata :: "stack_content \<Rightarrow> MMDB_s \<times> resources \<Rightarrow> (MMDB_s \<times> resources) run" where
  "read_metadata stacks s =
    (let metadata_db = make_fake_metadata_db (fst s);
         start = \<lparr>entry_mmdb = metadata_db, entry_offset = 0\<rparr>
     in chk (read_node_count stacks start s) (\<lambda>s.
        chk (read_record_size stacks start s) (\<lambda>s.
        chk (read_ip_version stacks start s) (\<lambda>s.
        chk (read_database_type stacks start s) (\<lambda>s.
        chk (populate_languages_metadata stacks metadata_db start s) (\<lambda>s.
        chk (read_major_version stacks start s) (\<lambda>s.
        chk (read_minor_version stacks start s) (\<lambda>s.
        chk (read_build_epoch stacks start s) (\<lambda>s.
        chk (populate_description_metadata stacks metadata_db start s)
          set_record_layout)))))))))"

section \<open>The metadata marker\<close>

lemma find_metadata_from_spec:
  assumes "search_area + nat max_size \<le> length m" and "0 \<le> max_size"
  shows "\<exists>p n. find_metadata_from m search_area max_size = Some (p, n) \<and> 0 \<le> n \<and>
    search_area \<le> p \<and> int p + n = int search_area + max_size \<and>
    (p = search_area \<or> (search_area + 14 \<le> p \<and> bytes_at m (p - 14) METADATA_MARKER)) \<and>
    (\<forall>q. p \<le> q \<and> q + 14 \<le> p + nat n \<longrightarrow> \<not> bytes_at m q METADATA_MARKER)"
  using assms
proof (induction m search_area max_size rule: find_metadata_from.induct)
  case (1 m search_area max_size)
  obtain r where r: "mmdb_memmem m search_area (nat max_size) METADATA_MARKER = Some r"
    and first: "first_match m search_area (nat max_size + 1 - 14) METADATA_MARKER r"
    using mmdb_memmem_first [OF 1(2), of METADATA_MARKER] by auto
  show ?case
  proof (cases r)
    case None
    then show ?thesis
      using r first 1(3)
      by (auto simp: find_metadata_from.simps [of m search_area] first_match_def)
  next
    case (Some t)
    let ?max = "max_size - (int t - int search_area) - 14"
    have t: "search_area \<le> t" "t + 14 \<le> search_area + nat max_size" and at: "bytes_at m t METADATA_MARKER"
      using mmdb_memmem_bounds [of m search_area "nat max_size" METADATA_MARKER t] r Some first
      by (auto simp: first_match_def)
    then have "0 \<le> ?max" "t + 14 + nat ?max \<le> length m" using 1(2,3) by linarith+
    then obtain p n where p: "find_metadata_from m (t + 14) ?max = Some (p, n)" "0 \<le> n"
      "t + 14 \<le> p" "int p + n = int (t + 14) + ?max"
      "p = t + 14 \<or> (t + 14 + 14 \<le> p \<and> bytes_at m (p - 14) METADATA_MARKER)"
      "\<forall>q. p \<le> q \<and> q + 14 \<le> p + nat n \<longrightarrow> \<not> bytes_at m q METADATA_MARKER"
      using 1(1) [OF r Some] by auto
    then show ?thesis
      using r Some t at by (auto simp: find_metadata_from.simps [of m search_area])
  qed
qed

text \<open>
  The section starts behind the last marker in the final 128 kilobytes, ends with the file,
  and is not empty.
\<close>

lemma find_metadata_spec:
  assumes "content + nat size0 \<le> length m" and "0 \<le> size0"
  shows "\<exists>r. find_metadata m content size0 = Some r \<and>
    (\<forall>p sz. r = Some (p, sz) \<longrightarrow>
       content + 14 \<le> p \<and> p + unat sz = content + nat size0 \<and> 0 < unat sz \<and> unat sz \<le> 131072 \<and>
       bytes_at m (p - 14) METADATA_MARKER \<and>
       (\<forall>q. p \<le> q \<and> q + 14 \<le> content + nat size0 \<longrightarrow> \<not> bytes_at m q METADATA_MARKER))"
proof -
  define mx where "mx = (if size0 > METADATA_BLOCK_MAX_SIZE then METADATA_BLOCK_MAX_SIZE else size0)"
  define start where "start = nat (int content + (size0 - mx))"
  have mx: "0 \<le> mx" "mx \<le> size0" "mx \<le> 131072" using assms(2) by (auto simp: mx_def)
  have start: "int start = int content + (size0 - mx)" using mx by (simp add: start_def)
  then have "start + nat mx \<le> length m" using assms mx by linarith
  then obtain p n where p: "find_metadata_from m start mx = Some (p, n)" "0 \<le> n" "start \<le> p"
    "int p + n = int start + mx"
    "p = start \<or> (start + 14 \<le> p \<and> bytes_at m (p - 14) METADATA_MARKER)"
    "\<forall>q. p \<le> q \<and> q + 14 \<le> p + nat n \<longrightarrow> \<not> bytes_at m q METADATA_MARKER"
    using find_metadata_from_spec mx(1) by blast
  have find: "find_metadata m content size0 =
      (if p = start \<or> n \<le> 0 then Some None else Some (Some (p, word_of_int n)))"
    using p(1) mx(1) by (simp add: find_metadata_def Let_def mx_def [symmetric] start_def [symmetric])
  show ?thesis
  proof (cases "p = start \<or> n \<le> 0")
    case False
    have n: "n \<le> 131072" using p(3,4) mx(3) by linarith
    have sz: "unat (word_of_int n :: u32) = nat n" using unat_of_nat_u32 [of "nat n"] n p(2) by simp
    have "p + nat n = content + nat size0" using p(2,4) start assms(2) by linarith
    moreover have "content + 14 \<le> p" using False p(5) start mx(2) by linarith
    ultimately show ?thesis using False find p sz n by auto
  qed (use find in auto)
qed

section \<open>The frame of the metadata functions\<close>

text \<open>The blocks that the metadata of a handle owns, and when \<open>free_mmdb_struct\<close> can find them.\<close>

definition language_blocks :: "MMDB_metadata_s \<Rightarrow> addr multiset" where
  "language_blocks m =
    (case languages_names m of None \<Rightarrow> {#} | Some (a, ns) \<Rightarrow> add_mset a (sum_list (map block_of ns)))"

definition description_block :: "MMDB_description_s owned option \<Rightarrow> addr multiset" where
  "description_block d =
    (case d of None \<Rightarrow> {#} | Some (a, x) \<Rightarrow> add_mset a (block_of (language x) + block_of (description x)))"

definition description_blocks :: "MMDB_metadata_s \<Rightarrow> addr multiset" where
  "description_blocks m =
    (if description_count m = 0 then {#}
     else case descriptions m of None \<Rightarrow> {#}
          | Some (a, ds) \<Rightarrow> add_mset a (sum_list (map description_block ds)))"

definition metadata_blocks :: "MMDB_metadata_s \<Rightarrow> addr multiset" where
  "metadata_blocks m = block_of (database_type m) + language_blocks m + description_blocks m"

definition unset_from :: "nat \<Rightarrow> 'a option list \<Rightarrow> bool" where
  "unset_from n xs \<longleftrightarrow> n \<le> length xs \<and> (\<forall>i. n \<le> i \<and> i < length xs \<longrightarrow> xs ! i = None)"

definition languages_inv :: "MMDB_metadata_s \<Rightarrow> bool" where
  "languages_inv m \<longleftrightarrow> (\<forall>a ns. languages_names m = Some (a, ns) \<longrightarrow> unset_from (languages_count m) ns)"

definition descriptions_inv :: "MMDB_metadata_s \<Rightarrow> bool" where
  "descriptions_inv m \<longleftrightarrow> description_count m = 0 \<or>
     (\<exists>a ds. descriptions m = Some (a, ds) \<and> unset_from (description_count m) ds)"

text \<open>
  The states of \<open>read_metadata\<close>: only the metadata and the record layout of the handle
  change, and beside the blocks \<open>base\<close> exactly those of the metadata are allocated. After a
  failed allocation one more block may be left that the handle does not lead to.
\<close>

definition only_metadata :: "MMDB_s \<Rightarrow> MMDB_s \<Rightarrow> bool" where
  "only_metadata db0 db \<longleftrightarrow>
     db\<lparr>db_metadata := db_metadata db0, full_record_byte_size := full_record_byte_size db0,
        db_depth := db_depth db0\<rparr> = db0"

definition metadata_fail ::
  "addr multiset \<Rightarrow> MMDB_s \<Rightarrow> resources \<Rightarrow> mmdb_status \<Rightarrow> MMDB_s \<times> resources \<Rightarrow> bool" where
  "metadata_fail base db0 h0 st s \<longleftrightarrow>
     only_metadata db0 (fst s) \<and> same_files h0 (snd s) \<and>
     languages_inv (db_metadata (fst s)) \<and> descriptions_inv (db_metadata (fst s)) \<and>
     (\<exists>leak. owns (snd s) base (metadata_blocks (db_metadata (fst s)) + leak) \<and> size leak \<le> 1 \<and>
        (st \<noteq> MMDB_OUT_OF_MEMORY_ERROR \<longrightarrow> leak = {#}))"

abbreviation metadata_inv ::
  "addr multiset \<Rightarrow> MMDB_s \<Rightarrow> resources \<Rightarrow> MMDB_s \<times> resources \<Rightarrow> bool" where
  "metadata_inv base db0 h0 \<equiv> metadata_fail base db0 h0 MMDB_SUCCESS"

lemma metadata_inv_fail: "metadata_inv base db0 h0 s \<Longrightarrow> metadata_fail base db0 h0 st s"
  by (auto simp: metadata_fail_def intro!: exI [of _ "{#}"])

lemma only_metadata_simps [simp]:
  "only_metadata db0 db \<Longrightarrow> only_metadata db0 (db\<lparr>db_metadata := m\<rparr>)"
  "only_metadata db0 db \<Longrightarrow> only_metadata db0 (db\<lparr>full_record_byte_size := r\<rparr>)"
  "only_metadata db0 db \<Longrightarrow> only_metadata db0 (db\<lparr>db_depth := d\<rparr>)"
  by (simp_all add: only_metadata_def)

lemma only_metadata_refl [simp]: "only_metadata db db"
  by (simp add: only_metadata_def)

lemma only_metadata_fields:
  assumes "only_metadata db0 db"
  shows "mapping db = mapping db0" and "file_content db = file_content db0" and "file_size db = file_size db0"
    and "data_section db = data_section db0" and "metadata_section db = metadata_section db0"
    and "metadata_section_size db = metadata_section_size db0" and "db_filename db = db_filename db0"
  using arg_cong [OF assms [unfolded only_metadata_def], of mapping]
    arg_cong [OF assms [unfolded only_metadata_def], of file_content]
    arg_cong [OF assms [unfolded only_metadata_def], of file_size]
    arg_cong [OF assms [unfolded only_metadata_def], of data_section]
    arg_cong [OF assms [unfolded only_metadata_def], of metadata_section]
    arg_cong [OF assms [unfolded only_metadata_def], of metadata_section_size]
    arg_cong [OF assms [unfolded only_metadata_def], of db_filename]
  by simp_all

text \<open>Updates of the plain fields keep everything that the invariant speaks about.\<close>

definition same_blocks :: "MMDB_metadata_s \<Rightarrow> MMDB_metadata_s \<Rightarrow> bool" where
  "same_blocks m m' \<longleftrightarrow>
     database_type m' = database_type m \<and> languages_names m' = languages_names m \<and>
     languages_count m' = languages_count m \<and> descriptions m' = descriptions m \<and>
     description_count m' = description_count m"

lemma metadata_fail_same_blocks:
  assumes "metadata_fail base db0 h0 st (db, h)" and "same_blocks (db_metadata db) m"
  shows "metadata_fail base db0 h0 st (db\<lparr>db_metadata := m\<rparr>, h)"
proof -
  have "metadata_blocks m = metadata_blocks (db_metadata db)"
    and "languages_inv m = languages_inv (db_metadata db)"
    and "descriptions_inv m = descriptions_inv (db_metadata db)"
    using assms(2)
    by (simp_all add: same_blocks_def languages_inv_def descriptions_inv_def
        metadata_blocks_def language_blocks_def description_blocks_def)
  with assms(1) show ?thesis by (simp add: metadata_fail_def)
qed

section \<open>Reading values\<close>

lemma followed_union:
  assumes "followed db e"
  shows "ed_type e = MMDB_DATA_TYPE_UINT16 \<Longrightarrow> \<exists>v. union_uint16 (ed_value e) = Some v"
    and "ed_type e = MMDB_DATA_TYPE_UINT32 \<Longrightarrow> \<exists>v. union_uint32 (ed_value e) = Some v"
    and "ed_type e = MMDB_DATA_TYPE_UINT64 \<Longrightarrow> \<exists>v. union_uint64 (ed_value e) = Some v"
  using assms by (auto simp: followed_def value_ok_def)

lemma chk_aget:
  assumes wf: "wf_section (entry_mmdb start)"
    and ok: "\<And>e. followed (entry_mmdb start) e \<Longrightarrow> wp (f e) Q"
    and fail: "\<And>st e. st \<noteq> MMDB_SUCCESS \<Longrightarrow> st \<noteq> MMDB_OUT_OF_MEMORY_ERROR \<Longrightarrow> Q st (g e)"
  shows "wp (chk_with g (MMDB_aget_value stacks start path) f) Q"
  unfolding wp_chk_with
proof (rule wp_mono [OF MMDB_aget_value_wp [OF wf]])
  fix st e
  assume post: "lookup_post (followed (entry_mmdb start)) st e"
  show "if st = MMDB_SUCCESS then wp (f e) Q else Q st (g e)"
  proof (cases "st = MMDB_SUCCESS")
    case False
    then have "st \<noteq> MMDB_OUT_OF_MEMORY_ERROR" using post by (auto simp: lookup_post_def)
    with False fail show ?thesis by simp
  qed (use post ok in simp)
qed

definition key_post :: "'a \<Rightarrow> mmdb_status \<Rightarrow> 'a \<Rightarrow> bool" where
  "key_post val st v \<longleftrightarrow> st \<noteq> MMDB_OUT_OF_MEMORY_ERROR \<and> (st \<noteq> MMDB_SUCCESS \<longrightarrow> v = val)"

lemma value_for_key_as_uint16_wp:
  "wf_section (entry_mmdb start) \<Longrightarrow> wp (value_for_key_as_uint16 stacks start key val) (key_post val)"
  unfolding value_for_key_as_uint16_def
  by (rule chk_aget, assumption) (auto simp: key_post_def dest: followed_union)

lemma value_for_key_as_uint32_wp:
  "wf_section (entry_mmdb start) \<Longrightarrow> wp (value_for_key_as_uint32 stacks start key val) (key_post val)"
  unfolding value_for_key_as_uint32_def
  by (rule chk_aget, assumption) (auto simp: key_post_def dest: followed_union)

lemma value_for_key_as_uint64_wp:
  "wf_section (entry_mmdb start) \<Longrightarrow> wp (value_for_key_as_uint64 stacks start key val) (key_post val)"
  unfolding value_for_key_as_uint64_def
  by (rule chk_aget, assumption) (auto simp: key_post_def dest: followed_union)

section \<open>Walking along the members\<close>

definition list_from :: "MMDB_data_pool_s \<Rightarrow> elem_ptr \<Rightarrow> MMDB_entry_data_s list \<Rightarrow> bool" where
  "list_from pool member l \<longleftrightarrow> (\<exists>n. list_entries pool n (Some member) = Some l)"

lemma list_from_Cons:
  assumes "list_from pool member (e # l)"
  shows "\<exists>el. pool_get pool member = Some el \<and> entry_data el = e \<and>
    (\<exists>n. list_entries pool n (next_elem el) = Some l)"
proof -
  obtain n where "list_entries pool n (Some member) = Some (e # l)" using assms by (auto simp: list_from_def)
  then show ?thesis by (cases n) (auto split: option.splits)
qed

lemma next_member_list:
  assumes "list_from pool member (e0 # e # l)"
  shows "\<exists>member'. next_member pool member = Some (member', e) \<and> list_from pool member' (e # l)"
proof -
  obtain el n where el: "pool_get pool member = Some el" and n: "list_entries pool n (next_elem el) = Some (e # l)"
    using list_from_Cons [OF assms] by blast
  then obtain member' where m: "next_elem el = Some member'" by (cases "next_elem el") auto
  then have "list_from pool member' (e # l)" using n by (auto simp: list_from_def)
  moreover from list_from_Cons [OF this] obtain el' where "pool_get pool member' = Some el'" "entry_data el' = e"
    by blast
  ultimately show ?thesis using el m by (simp add: next_member_def)
qed

lemma str_bytes_block: "str_bytes db s n = c_str_block (mapping db) s n"
  by (simp add: str_bytes_def c_str_block_def)

lemma entry_ok_string:
  assumes "entry_ok db e" and "ed_type e = MMDB_DATA_TYPE_UTF8_STRING"
  obtains s bs where "ed_value e = Utf8_string_val s"
    and "c_str_block (mapping db) s (unat (data_size e)) = Some bs"
  using assms value_ok_string [of db e "unat (data_size e)"]
  by (auto simp: entry_ok_def str_bytes_block)

section \<open>Languages\<close>

lemma sum_blocks_update:
  fixes f :: "'b \<Rightarrow> 'a multiset"
  assumes "i < length ns" and "f (ns ! i) = {#}"
  shows "sum_list (map f (ns[i := x])) = f x + sum_list (map f ns)"
  using assms
proof (induction ns arbitrary: i)
  case (Cons y ns)
  then show ?case by (cases i) (auto simp: ac_simps)
qed simp

lemma sum_list_replicate_empty [simp]: "sum_list (replicate k {#}) = {#}"
  by (induction k) simp_all

lemma unset_from_update:
  "unset_from i xs \<Longrightarrow> i < length xs \<Longrightarrow> unset_from (Suc i) (xs[i := x])"
  "unset_from i xs \<Longrightarrow> i < length xs \<Longrightarrow> unset_from i (xs[i := None])"
  "unset_from i xs \<Longrightarrow> i < length xs \<Longrightarrow> xs ! i = None"
  by (auto simp: unset_from_def nth_list_update)

lemma blocks_update [simp]:
  "language_blocks (m\<lparr>languages_count := n\<rparr>) = language_blocks m"
  "language_blocks (m\<lparr>descriptions := ds\<rparr>) = language_blocks m"
  "language_blocks (m\<lparr>description_count := n\<rparr>) = language_blocks m"
  "language_blocks (m\<lparr>database_type := t\<rparr>) = language_blocks m"
  "description_blocks (m\<lparr>languages_count := n\<rparr>) = description_blocks m"
  "description_blocks (m\<lparr>languages_names := ns\<rparr>) = description_blocks m"
  "description_blocks (m\<lparr>database_type := t\<rparr>) = description_blocks m"
  by (simp_all add: language_blocks_def description_blocks_def)

lemma metadata_inv_update [simp]:
  "languages_inv (m\<lparr>descriptions := ds\<rparr>) = languages_inv m"
  "languages_inv (m\<lparr>description_count := n\<rparr>) = languages_inv m"
  "languages_inv (m\<lparr>database_type := t\<rparr>) = languages_inv m"
  "descriptions_inv (m\<lparr>languages_count := n\<rparr>) = descriptions_inv m"
  "descriptions_inv (m\<lparr>languages_names := ns\<rparr>) = descriptions_inv m"
  "descriptions_inv (m\<lparr>database_type := t\<rparr>) = descriptions_inv m"
  by (simp_all add: languages_inv_def descriptions_inv_def)

text \<open>What the languages leave alone.\<close>

definition but_languages :: "MMDB_metadata_s \<Rightarrow> MMDB_metadata_s" where
  "but_languages m = m\<lparr>languages_names := None, languages_count := 0\<rparr>"

definition languages_post ::
  "addr multiset \<Rightarrow> MMDB_s \<Rightarrow> resources \<Rightarrow> MMDB_s \<Rightarrow> mmdb_status \<Rightarrow> MMDB_s \<times> resources \<Rightarrow> bool" where
  "languages_post base db0 h0 db st s' \<longleftrightarrow> metadata_fail base db0 h0 st s' \<and>
     but_languages (db_metadata (fst s')) = but_languages (db_metadata db)"

lemma language_blocks_update:
  assumes "languages_names m = Some (a, ns)" and "i < length ns" and "ns ! i = None"
  shows "language_blocks (m\<lparr>languages_names := Some (a, ns[i := x])\<rparr>) = block_of x + language_blocks m"
  using assms by (simp add: language_blocks_def sum_blocks_update)

text \<open>One name is stored: on success the next index is counted, otherwise nothing is lost.\<close>

lemma languages_step:
  assumes inv: "metadata_inv base db0 h0 (db, h)"
    and names: "languages_names (db_metadata db) = Some (a, ns)" "languages_count (db_metadata db) = i"
      "i < length ns"
    and own: "\<And>ms. owns h base ms \<Longrightarrow> owns h' base (block_of name + ms)" and files: "same_files h h'"
  shows "\<exists>db'. set_language_name i name db = Some db' \<and>
    (name = None \<longrightarrow> metadata_inv base db0 h0 (db', h')) \<and>
    metadata_inv base db0 h0 (set_languages_count (i + 1) db', h') \<and>
    but_languages (db_metadata db') = but_languages (db_metadata db) \<and>
    but_languages (db_metadata (set_languages_count (i + 1) db')) = but_languages (db_metadata db) \<and>
    mapping db' = mapping db \<and>
    languages_names (db_metadata db') = Some (a, ns[i := name])"
proof -
  let ?m = "(db_metadata db)\<lparr>languages_names := Some (a, ns[i := name])\<rparr>"
  let ?db' = "db\<lparr>db_metadata := ?m\<rparr>"
  have unset: "unset_from i ns" using inv names by (simp add: metadata_fail_def languages_inv_def)
  have ni: "ns ! i = None" by (rule unset_from_update(3) [OF unset names(3)])
  have blocks: "metadata_blocks ?m = block_of name + metadata_blocks (db_metadata db)"
    using language_blocks_update [OF names(1,3) ni, of name] by (simp add: metadata_blocks_def)
  have owned: "owns h' base (metadata_blocks ?m)"
    using own inv by (simp add: metadata_fail_def blocks)
  have files': "same_files h0 h'" using inv files same_files_trans by (auto simp: metadata_fail_def)
  have "metadata_inv base db0 h0 (?db', h')" if "name = None"
    using inv owned files' unset_from_update(2) [OF unset names(3)] that names(2)
    by (simp add: metadata_fail_def languages_inv_def)
  moreover have "metadata_inv base db0 h0 (set_languages_count (i + 1) ?db', h')"
    using inv owned files' unset_from_update(1) [OF unset names(3)]
    by (simp add: metadata_fail_def languages_inv_def set_languages_count_def metadata_blocks_def)
  ultimately show ?thesis
    using names by (simp add: set_language_name_def but_languages_def set_languages_count_def)
qed

lemma populate_languages_from_wp:
  assumes "list_from pool member (e0 # es)" and "k \<le> length es" and "list_all (entry_ok mdb) es"
    and "mapping mdb = mapping db"
    and "metadata_inv base db0 h0 (db, h)"
    and "languages_names (db_metadata db) = Some (a, ns)" and "languages_count (db_metadata db) = i"
    and "length ns = i + k"
  shows "wp (populate_languages_from pool k i member (db, h)) (languages_post base db0 h0 db)"
  using assms
proof (induction k arbitrary: i member e0 es db h ns)
  case 0
  then show ?case by (simp add: languages_post_def)
next
  case (Suc k)
  obtain e es' where es: "es = e # es'" using Suc.prems(2) by (cases es) auto
  obtain member' where nm: "next_member pool member = Some (member', e)"
    and list: "list_from pool member' (e # es')"
    using next_member_list Suc.prems(1) es by blast
  show ?case
  proof (cases "ed_type e = MMDB_DATA_TYPE_UTF8_STRING")
    case False
    then show ?thesis
      using nm Suc.prems(5) by (simp add: languages_post_def metadata_inv_fail)
  next
    case True
    have ok: "entry_ok mdb e" using Suc.prems(3) es by simp
    obtain str bs where str: "ed_value e = Utf8_string_val str"
      and "c_str_block (mapping mdb) str (unat (data_size e)) = Some bs"
      using entry_ok_string [OF ok True] .
    then have bs: "c_str_block (mapping db) str (unat (data_size e)) = Some bs" using Suc.prems(4) by simp
    obtain ms where ms: "owns h base ms" using Suc.prems(5) by (auto simp: metadata_fail_def)
    obtain name h' where dup: "mmdb_strndup (mapping db) str (unat (data_size e)) h = Some (name, h')"
      and files: "same_files h h'" using mmdb_strndup_owns [OF bs ms] by blast
    have own: "owns h' base (block_of name + ms)" if "owns h base ms" for ms
      using mmdb_strndup_owns [OF bs that] dup by simp
    obtain db' where set: "set_language_name i name db = Some db'"
      and fail: "name = None \<Longrightarrow> metadata_inv base db0 h0 (db', h')"
      and inv: "metadata_inv base db0 h0 (set_languages_count (i + 1) db', h')"
      and but: "but_languages (db_metadata db') = but_languages (db_metadata db)"
        "but_languages (db_metadata (set_languages_count (i + 1) db')) = but_languages (db_metadata db)"
      and same: "mapping db' = mapping db" and names: "languages_names (db_metadata db') = Some (a, ns[i := name])"
      using languages_step [OF Suc.prems(5-7) _ own files] Suc.prems(8) by auto
    have "wp (populate_languages_from pool k (i + 1) member' (set_languages_count (i + 1) db', h'))
        (languages_post base db0 h0 (set_languages_count (i + 1) db'))"
      by (rule Suc.IH [where ns = "ns[i := name]", OF list _ _ _ inv])
        (use Suc.prems es same names in \<open>simp_all add: set_languages_count_def\<close>)
    then have "wp (populate_languages_from pool k (i + 1) member' (set_languages_count (i + 1) db', h'))
        (languages_post base db0 h0 db)"
      by (rule wp_mono) (use but in \<open>simp add: languages_post_def\<close>)
    moreover have "languages_post base db0 h0 db st (db', h')" if "name = None" for st
      using fail [OF that] but by (simp add: languages_post_def metadata_inv_fail)
    ultimately show ?thesis using nm True str dup set by simp
  qed
qed

text \<open>The list of the container that has been looked up.\<close>

lemma get_list_wp:
  assumes wf: "wf_section mdb" and e: "followed mdb e" and type: "ed_type e = ty"
  shows "wp (MMDB_get_entry_data_list ok \<lparr>entry_mmdb = mdb, entry_offset = ed_offset e\<rparr>) (\<lambda>st r.
    if st = MMDB_SUCCESS
    then \<exists>p pool e0 es. r = Some (p, pool) \<and> pool_entry pool p = Some e0 \<and> list_from pool p (e0 # es) \<and>
      ed_type e0 = ty \<and> children e0 \<le> length es \<and> list_all (entry_ok mdb) es
    else st \<in> {MMDB_INVALID_DATA_ERROR, MMDB_OUT_OF_MEMORY_ERROR})"
proof -
  let ?start = "\<lparr>entry_mmdb = mdb, entry_offset = ed_offset e\<rparr>"
  obtain e0 e1 where dec: "decode_one mdb (ed_offset e) e0 = Some (MMDB_SUCCESS, e1)" "ed_type e1 = ed_type e"
    using e by (auto simp: followed_def)
  have nptr: "ed_type e \<noteq> MMDB_DATA_TYPE_POINTER" using e by (simp add: followed_def)
  have "if ed_type y = MMDB_DATA_TYPE_POINTER then \<forall>t. t = ty else ed_type y = ty"
    if "decode_one (entry_mmdb ?start) (entry_offset ?start) x = Some (MMDB_SUCCESS, y)" for x y
    using decode_one_type [OF wf dec(1), of x y] that dec(2) nptr type by simp
  note wp = MMDB_get_entry_data_list_wp [of ?start "\<lambda>t. t = ty" ok, OF _ this]
  have list: "wp (MMDB_get_entry_data_list ok ?start) (\<lambda>st r.
    if st = MMDB_SUCCESS
    then \<exists>pool e es. r = Some ((0, 0), pool) \<and> list_entries pool (Suc (length es)) (Some (0, 0)) = Some (e # es) \<and>
      ed_type e = ty \<and> pending (children e) es = Some 0 \<and> list_all (entry_ok mdb) (e # es)
    else r = None \<and> st \<in> {MMDB_INVALID_DATA_ERROR, MMDB_OUT_OF_MEMORY_ERROR})"
    using wp wf by (simp only: MMDB_entry_s.simps)
  show ?thesis
  proof (rule wp_mono [OF list], goal_cases)
    case (1 st r)
    show ?case
    proof (cases "st = MMDB_SUCCESS")
      case True
      then obtain pool e0 es where r: "r = Some ((0, 0), pool)"
        and l: "list_entries pool (Suc (length es)) (Some (0, 0)) = Some (e0 # es)"
        and rest: "ed_type e0 = ty" "pending (children e0) es = Some 0" "list_all (entry_ok mdb) (e0 # es)"
        using 1 by auto
      have from0: "list_from pool (0, 0) (e0 # es)" using l unfolding list_from_def by blast
      moreover have "pool_entry pool (0, 0) = Some e0"
        using list_from_Cons [OF from0] by (auto simp: pool_entry_def)
      ultimately show ?thesis using True r rest pending_length [OF rest(2)] by auto
    qed (use 1 in auto)
  qed
qed

lemma metadata_inv_alloc:
  assumes "metadata_inv base db0 h0 (db, h)" and "c_malloc h = (r, h')"
  shows "only_metadata db0 db" and "same_files h0 h'"
    and "languages_inv (db_metadata db)" and "descriptions_inv (db_metadata db)"
    and "owns h' base (metadata_blocks (db_metadata db) + (case r of None \<Rightarrow> {#} | Some a \<Rightarrow> {#a#}))"
  using assms c_malloc_live [OF assms(2)]
  by (auto simp: metadata_fail_def same_files_def owns_def split: option.splits)

lemma populate_languages_metadata_wp:
  assumes wf: "wf_section mdb" and same: "mapping mdb = mapping db"
    and start: "entry_mmdb start = mdb"
    and inv: "metadata_inv base db0 h0 (db, h)" and unset: "languages_names (db_metadata db) = None"
  shows "wp (populate_languages_metadata stacks mdb start (db, h)) (languages_post base db0 h0 db)"
proof -
  let ?post = "languages_post base db0 h0 db"
  have fail: "?post st (db, h)" for st
    using metadata_inv_fail [OF inv] by (simp add: languages_post_def)
  have filled: "wp (case c_malloc h of
        (None, h) \<Rightarrow> Some (MMDB_OUT_OF_MEMORY_ERROR,
          ((set_languages_count 0 db)\<lparr>db_metadata := (db_metadata (set_languages_count 0 db))
             \<lparr>languages_names := None\<rparr>\<rparr>, h))
      | (Some a, h) \<Rightarrow> populate_languages_from pool k 0 p
          ((set_languages_count 0 db)\<lparr>db_metadata := (db_metadata (set_languages_count 0 db))
             \<lparr>languages_names := Some (a, replicate k None)\<rparr>\<rparr>, h)) ?post"
    if list: "list_from pool p (e0 # es)" "k \<le> length es" "list_all (entry_ok mdb) es" for pool p e0 es k
  proof -
    obtain r h' where m: "c_malloc h = (r, h')" by fastforce
    note alloc = metadata_inv_alloc [OF inv m]
    show ?thesis
    proof (cases r)
      case None
      then show ?thesis
        using m alloc unset
        by (auto simp: languages_post_def metadata_fail_def set_languages_count_def but_languages_def
            languages_inv_def metadata_blocks_def language_blocks_def intro!: exI [of _ "{#}"])
    next
      case (Some a)
      let ?db = "db\<lparr>db_metadata := (db_metadata db)\<lparr>languages_count := 0,
          languages_names := Some (a, replicate k None)\<rparr>\<rparr>"
      have "metadata_inv base db0 h0 (?db, h')"
        using alloc Some unset
        by (simp add: metadata_fail_def languages_inv_def metadata_blocks_def language_blocks_def
            unset_from_def ac_simps)
      then have "wp (populate_languages_from pool k 0 p (?db, h')) (languages_post base db0 h0 ?db)"
        using list same by (intro populate_languages_from_wp [of pool p e0 es k mdb]) auto
      then have "wp (populate_languages_from pool k 0 p (?db, h')) ?post"
        by (rule wp_mono) (simp add: languages_post_def but_languages_def)
      then show ?thesis using m Some by (simp add: set_languages_count_def)
    qed
  qed
  show ?thesis
    unfolding populate_languages_metadata_def
  proof (rule chk_aget, goal_cases)
    case 1
    then show ?case using wf start by simp
  next
    case (2 e)
    then have e: "followed mdb e" using start by simp
    show ?case
    proof (cases "ed_type e = MMDB_DATA_TYPE_ARRAY")
      case True
      show ?thesis
        using True
        by (simp add: Let_def wp_chk_with, intro wp_mono [OF get_list_wp [OF wf e True]])
          (use filled fail in \<open>auto simp: children_def split: if_splits\<close>)
    qed (use fail in simp)
  next
    case (3 st e)
    show ?case by (rule fail)
  qed
qed

section \<open>Descriptions\<close>

lemma next_string_wp:
  assumes list: "list_from pool member (e0 # e # l)" and ok: "entry_ok mdb e" and m: "mapping mdb = m"
  shows "\<exists>r. next_string pool m member h = Some r \<and>
    (\<forall>member' copy h'. r = Some (member', copy, h') \<longrightarrow>
       list_from pool member' (e # l) \<and> same_files h h' \<and>
       (\<forall>base ms. owns h base ms \<longrightarrow> owns h' base (block_of copy + ms)))"
proof -
  obtain member' where nm: "next_member pool member = Some (member', e)" and l: "list_from pool member' (e # l)"
    using next_member_list [OF list] by blast
  show ?thesis
  proof (cases "ed_type e = MMDB_DATA_TYPE_UTF8_STRING")
    case False
    then show ?thesis using nm by (simp add: next_string_def)
  next
    case True
    obtain str bs where str: "ed_value e = Utf8_string_val str"
      and bs: "c_str_block m str (unat (data_size e)) = Some bs"
      using entry_ok_string [OF ok True] m by blast
    have "owns h (live h) {#}" by (simp add: owns_def)
    then obtain copy h' where dup: "mmdb_strndup m str (unat (data_size e)) h = Some (copy, h')"
      and files: "same_files h h'" using mmdb_strndup_owns [OF bs] by blast
    have "owns h' base (block_of copy + ms)" if "owns h base ms" for base ms
      using mmdb_strndup_owns [OF bs that] dup by simp
    then show ?thesis using nm True str dup files l by (auto simp: next_string_def)
  qed
qed

lemma sum_list_update_mset:
  fixes f :: "'b \<Rightarrow> 'a multiset"
  assumes "i < length ns"
  shows "sum_list (map f (ns[i := x])) + f (ns ! i) = f x + sum_list (map f ns)"
  using assms
proof (induction ns arbitrary: i)
  case (Cons y ns)
  then show ?case by (cases i) (auto simp: ac_simps)
qed simp

definition but_descriptions :: "MMDB_metadata_s \<Rightarrow> MMDB_metadata_s" where
  "but_descriptions m = m\<lparr>descriptions := None, description_count := 0\<rparr>"

text \<open>The loop invariant: the array \<open>a\<close> and what the elements \<open>ds\<close> hold are owned.\<close>

definition descriptions_loop ::
  "addr multiset \<Rightarrow> MMDB_s \<Rightarrow> resources \<Rightarrow> MMDB_metadata_s \<Rightarrow> addr \<Rightarrow>
     MMDB_description_s owned option list \<Rightarrow> MMDB_s \<times> resources \<Rightarrow> bool" where
  "descriptions_loop base db0 h0 m0 a ds s \<longleftrightarrow>
     only_metadata db0 (fst s) \<and> same_files h0 (snd s) \<and> languages_inv (db_metadata (fst s)) \<and>
     but_descriptions (db_metadata (fst s)) = but_descriptions m0 \<and>
     descriptions (db_metadata (fst s)) = Some (a, ds) \<and>
     owns (snd s) base (block_of (database_type (db_metadata (fst s))) + language_blocks (db_metadata (fst s)) +
       add_mset a (sum_list (map description_block ds)))"

definition descriptions_post ::
  "addr multiset \<Rightarrow> MMDB_s \<Rightarrow> resources \<Rightarrow> MMDB_metadata_s \<Rightarrow> mmdb_status \<Rightarrow> MMDB_s \<times> resources \<Rightarrow> bool" where
  "descriptions_post base db0 h0 m0 st s' \<longleftrightarrow> metadata_fail base db0 h0 st s' \<and>
     but_descriptions (db_metadata (fst s')) = but_descriptions m0"

lemma descriptions_loop_exit:
  assumes "descriptions_loop base db0 h0 m0 a ds (db, h)"
    and "description_count (db_metadata db) = n" and "0 < n" and "unset_from n ds"
  shows "descriptions_post base db0 h0 m0 st (db, h)"
proof -
  have "metadata_inv base db0 h0 (db, h)"
    using assms
    by (simp add: descriptions_loop_def metadata_fail_def descriptions_inv_def metadata_blocks_def
        description_blocks_def)
  then show ?thesis
    using assms(1) metadata_inv_fail by (auto simp: descriptions_post_def descriptions_loop_def)
qed

lemma descriptions_loop_count:
  "descriptions_loop base db0 h0 m0 a ds (set_description_count n db, h) =
     descriptions_loop base db0 h0 m0 a ds (db, h)"
  by (auto simp: descriptions_loop_def set_description_count_def but_descriptions_def only_metadata_def)

lemma descriptions_loop_set:
  assumes loop: "descriptions_loop base db0 h0 m0 a ds (db, h)" and i: "i < length ds"
    and own: "\<And>ms. owns h base ms \<Longrightarrow> owns h' base (extra + ms)" and files: "same_files h h'"
    and d: "description_block d = extra + description_block (ds ! i)"
  shows "\<exists>db'. set_description i d db = Some db' \<and> descriptions_loop base db0 h0 m0 a (ds[i := d]) (db', h') \<and>
    description_count (db_metadata db') = description_count (db_metadata db) \<and> mapping db' = mapping db"
proof -
  let ?db' = "db\<lparr>db_metadata := (db_metadata db)\<lparr>descriptions := Some (a, ds[i := d])\<rparr>\<rparr>"
  have "sum_list (map description_block (ds[i := d])) = extra + sum_list (map description_block ds)"
    using sum_list_update_mset [OF i, of description_block d] d by (simp add: ac_simps)
  moreover have "owns h' base (extra + (block_of (database_type (db_metadata db)) +
      language_blocks (db_metadata db) + add_mset a (sum_list (map description_block ds))))"
    using loop by (intro own) (simp add: descriptions_loop_def)
  ultimately have "descriptions_loop base db0 h0 m0 a (ds[i := d]) (?db', h')"
    using loop same_files_trans [OF _ files]
    by (simp add: descriptions_loop_def but_descriptions_def ac_simps)
  then show ?thesis
    using loop i by (auto simp: set_description_def descriptions_loop_def)
qed

lemma populate_descriptions_from_wp:
  assumes "list_from pool member (e0 # es)" and "2 * k \<le> length es" and "list_all (entry_ok mdb) es"
    and "mapping mdb = mapping db"
    and "descriptions_loop base db0 h0 m0 a ds (db, h)"
    and "description_count (db_metadata db) = i" and "unset_from i ds" and "length ds = i + k"
    and "0 < length ds"
  shows "wp (populate_descriptions_from pool k i member (db, h)) (descriptions_post base db0 h0 m0)"
  using assms
proof (induction k arbitrary: i member e0 es db h ds)
  case 0
  then show ?case by (simp add: descriptions_loop_exit)
next
  case (Suc k)
  obtain e1 e2 es' where es: "es = e1 # e2 # es'" using Suc.prems(2) by (cases es; cases "tl es") auto
  have i: "i < length ds" using Suc.prems(8) by simp
  have di: "ds ! i = None" by (rule unset_from_update(3) [OF Suc.prems(7) i])
  obtain r h1 where m: "c_malloc h = (r, h1)" by fastforce
  note live = c_malloc_live [OF m]
  show ?case
  proof (cases r)
    case None
    have own: "owns h1 base ({#} + ms)" if "owns h base ms" for ms
      using live that None by (simp add: owns_def)
    have files: "same_files h h1" using live by (simp add: same_files_def)
    obtain db' where set: "set_description i None db = Some db'"
      and loop: "descriptions_loop base db0 h0 m0 a (ds[i := None]) (db', h1)"
      and count: "description_count (db_metadata db') = i"
      using descriptions_loop_set [OF Suc.prems(5) i own files, of None] di Suc.prems(6) by auto
    have unset: "unset_from i (ds[i := None])" by (rule unset_from_update(2) [OF Suc.prems(7) i])
    have "descriptions_post base db0 h0 m0 MMDB_OUT_OF_MEMORY_ERROR (db', h1)"
    proof (cases "i = 0")
      case False
      then show ?thesis using descriptions_loop_exit [OF loop count _ unset] by simp
    next
      case True
      then have "\<forall>d \<in> set (ds[i := None]). d = None"
        using unset by (auto simp: unset_from_def in_set_conv_nth)
      then have "map description_block (ds[i := None]) = replicate (length ds) {#}"
        by (metis (no_types, lifting) description_block_def length_list_update length_map map_replicate_const
            map_cong option.simps(4))
      then have "sum_list (map description_block (ds[i := None])) = {#}" by simp
      then show ?thesis
        using loop count True
        by (auto simp: descriptions_post_def metadata_fail_def descriptions_loop_def descriptions_inv_def
            metadata_blocks_def description_blocks_def intro!: exI [of _ "{#a#}"])
    qed
    then show ?thesis using m None set by simp
  next
    case (Some b)
    have own1: "owns h1 base ({#b#} + ms)" if "owns h base ms" for ms
      using live that Some by (simp add: owns_def)
    have files1: "same_files h h1" using live by (simp add: same_files_def)
    let ?d1 = "Some (b, \<lparr>language = None, description = None\<rparr>)"
    have "description_block ?d1 = {#b#} + description_block (ds ! i)" by (simp add: di description_block_def)
    from descriptions_loop_set [OF Suc.prems(5) i own1 files1 this]
    obtain db1 where set1: "set_description i ?d1 db = Some db1"
      and loop1: "descriptions_loop base db0 h0 m0 a (ds[i := ?d1]) (db1, h1)"
      and map1: "mapping db1 = mapping db" by blast
    let ?db1 = "set_description_count (i + 1) db1"
    have loop1': "descriptions_loop base db0 h0 m0 a (ds[i := ?d1]) (?db1, h1)"
      using loop1 by (simp only: descriptions_loop_count)
    have count1: "description_count (db_metadata ?db1) = i + 1" by (simp add: set_description_count_def)
    have map1': "mapping ?db1 = mapping db" using map1 by (simp add: set_description_count_def)
    have unset: "unset_from (i + 1) (ds[i := d])" for d
      using unset_from_update(1) [OF Suc.prems(7) i] by simp
    note fail1 = descriptions_loop_exit [OF loop1' count1 _ unset]
    have ok1: "entry_ok mdb e1" and ok2: "entry_ok mdb e2" and ok': "list_all (entry_ok mdb) es'"
      using Suc.prems(3) by (simp_all add: es)
    obtain l1 where l1: "next_string pool (mapping ?db1) member h1 = Some l1"
      and l1': "\<And>member' copy h'. l1 = Some (member', copy, h') \<Longrightarrow>
       list_from pool member' (e1 # e2 # es') \<and> same_files h1 h' \<and>
       (\<forall>base ms. owns h1 base ms \<longrightarrow> owns h' base (block_of copy + ms))"
      using next_string_wp [OF Suc.prems(1) [unfolded es] ok1, of "mapping ?db1" h1] Suc.prems(4) map1' by auto
    show ?thesis
    proof (cases l1)
      case None
      then show ?thesis using m Some set1 l1 fail1 by (simp add: Let_def)
    next
      case l1_some: (Some t1)
      obtain member1 lang h2 where t1: "t1 = (member1, lang, h2)" by (cases t1)
      have list1: "list_from pool member1 (e1 # e2 # es')" and files2: "same_files h1 h2"
        and own2: "\<And>ms. owns h1 base ms \<Longrightarrow> owns h2 base (block_of lang + ms)"
        using l1' l1_some t1 by blast+
      let ?d2 = "Some (b, \<lparr>language = lang, description = None\<rparr>)"
      have i1: "i < length (ds[i := ?d1])" using i by simp
      have "description_block ?d2 = block_of lang + description_block (ds[i := ?d1] ! i)"
        using i by (simp add: description_block_def)
      from descriptions_loop_set [OF loop1' i1 own2 files2 this]
      obtain db2 where set2: "set_description i ?d2 ?db1 = Some db2"
        and loop2: "descriptions_loop base db0 h0 m0 a (ds[i := ?d2]) (db2, h2)"
        and count2: "description_count (db_metadata db2) = i + 1" and map2: "mapping db2 = mapping db"
        using count1 map1' by auto
      note fail2 = descriptions_loop_exit [OF loop2 count2 _ unset]
      show ?thesis
      proof (cases lang)
        case None
        then show ?thesis using m Some set1 l1 l1_some t1 set2 fail2 by (simp add: Let_def)
      next
        case lang: (Some la)
        obtain l2 where l2: "next_string pool (mapping db2) member1 h2 = Some l2"
          and l2': "\<And>member' copy h'. l2 = Some (member', copy, h') \<Longrightarrow>
           list_from pool member' (e2 # es') \<and> same_files h2 h' \<and>
           (\<forall>base ms. owns h2 base ms \<longrightarrow> owns h' base (block_of copy + ms))"
          using next_string_wp [OF list1 ok2, of "mapping db2" h2] Suc.prems(4) map2 by auto
        show ?thesis
        proof (cases l2)
          case None
          then show ?thesis using m Some set1 l1 l1_some t1 set2 lang l2 fail2 by (simp add: Let_def)
        next
          case l2_some: (Some t2)
          obtain member2 desc h3 where t2: "t2 = (member2, desc, h3)" by (cases t2)
          have list2: "list_from pool member2 (e2 # es')" and files3: "same_files h2 h3"
            and own3: "\<And>ms. owns h2 base ms \<Longrightarrow> owns h3 base (block_of desc + ms)"
            using l2' l2_some t2 by blast+
          let ?d3 = "Some (b, \<lparr>language = lang, description = desc\<rparr>)"
          have i2: "i < length (ds[i := ?d2])" using i by simp
          have "description_block ?d3 = block_of desc + description_block (ds[i := ?d2] ! i)"
            using i by (simp add: description_block_def ac_simps)
          from descriptions_loop_set [OF loop2 i2 own3 files3 this]
          obtain db3 where set3: "set_description i ?d3 db2 = Some db3"
            and loop3: "descriptions_loop base db0 h0 m0 a (ds[i := ?d3]) (db3, h3)"
            and count3: "description_count (db_metadata db3) = i + 1" and map3: "mapping db3 = mapping db"
            using count2 map2 by auto
          note fail3 = descriptions_loop_exit [OF loop3 count3 _ unset]
          have "wp (populate_descriptions_from pool k (i + 1) member2 (db3, h3)) (descriptions_post base db0 h0 m0)"
            by (rule Suc.IH [OF list2 _ ok' _ loop3 count3 unset])
              (use Suc.prems es map3 in simp_all)
          then show ?thesis
            using m Some set1 l1 l1_some t1 set2 lang l2 l2_some t2 set3 fail3 by (simp add: Let_def)
        qed
      qed
    qed
  qed
qed


lemma populate_description_metadata_wp:
  assumes wf: "wf_section mdb" and same: "mapping mdb = mapping db"
    and start: "entry_mmdb start = mdb"
    and inv: "metadata_inv base db0 h0 (db, h)" and unset: "description_count (db_metadata db) = 0"
  shows "wp (populate_description_metadata stacks mdb start (db, h))
    (descriptions_post base db0 h0 (db_metadata db))"
proof -
  let ?m = "db_metadata db"
  let ?post = "descriptions_post base db0 h0 ?m"
  let ?db0 = "set_description_count 0 db"
  have fail: "?post st (db, h)" for st
    using metadata_inv_fail [OF inv] by (simp add: descriptions_post_def)
  have none: "?post st (?db0\<lparr>db_metadata := (db_metadata ?db0)\<lparr>descriptions := None\<rparr>\<rparr>, h')"
    if "c_malloc h = (None, h') \<or> h' = h" for st h'
  proof -
    have "metadata_inv base db0 h0 (db, h')"
      using that inv metadata_inv_alloc [OF inv, of None h'] by (auto simp: metadata_fail_def)
    then have "metadata_inv base db0 h0 (?db0\<lparr>db_metadata := (db_metadata ?db0)\<lparr>descriptions := None\<rparr>\<rparr>, h')"
      using unset
      by (simp add: metadata_fail_def set_description_count_def descriptions_inv_def metadata_blocks_def
          description_blocks_def)
    then show ?thesis
      by (simp add: descriptions_post_def metadata_inv_fail but_descriptions_def set_description_count_def)
  qed
  have filled: "wp (if k = 0 then
        Some (MMDB_SUCCESS, (?db0\<lparr>db_metadata := (db_metadata ?db0)\<lparr>descriptions := None\<rparr>\<rparr>, h))
      else case c_malloc h of
        (None, h) \<Rightarrow> Some (MMDB_OUT_OF_MEMORY_ERROR,
          (?db0\<lparr>db_metadata := (db_metadata ?db0)\<lparr>descriptions := None\<rparr>\<rparr>, h))
      | (Some a, h) \<Rightarrow> populate_descriptions_from pool k 0 p
          (?db0\<lparr>db_metadata := (db_metadata ?db0)\<lparr>descriptions := Some (a, replicate k None)\<rparr>\<rparr>, h)) ?post"
    if list: "list_from pool p (e0 # es)" "2 * k \<le> length es" "list_all (entry_ok mdb) es" for pool p e0 es k
  proof (cases "k = 0")
    case True
    then show ?thesis using none [of h] by simp
  next
    case False
    obtain r h' where m: "c_malloc h = (r, h')" by fastforce
    show ?thesis
    proof (cases r)
      case None
      then show ?thesis using m False none [of h'] by simp
    next
      case (Some a)
      let ?db = "?db0\<lparr>db_metadata := (db_metadata ?db0)\<lparr>descriptions := Some (a, replicate k None)\<rparr>\<rparr>"
      have empty: "sum_list (map description_block (replicate k None)) = {#}"
        by (simp add: description_block_def)
      have "descriptions_loop base db0 h0 ?m a (replicate k None) (?db, h')"
        using metadata_inv_alloc [OF inv m] Some unset empty
        by (simp add: descriptions_loop_def set_description_count_def but_descriptions_def
            metadata_blocks_def description_blocks_def)
      then have "wp (populate_descriptions_from pool k 0 p (?db, h')) ?post"
        using list same False
        by (intro populate_descriptions_from_wp [of pool p e0 es k mdb])
          (auto simp: set_description_count_def unset_from_def)
      then show ?thesis using m Some False by simp
    qed
  qed
  show ?thesis
    unfolding populate_description_metadata_def
  proof (rule chk_aget, goal_cases)
    case 1
    then show ?case using wf start by simp
  next
    case (2 e)
    then have e: "followed mdb e" using start by simp
    show ?case
    proof (cases "ed_type e = MMDB_DATA_TYPE_MAP")
      case True
      show ?thesis
      proof (simp add: Let_def wp_chk_with True del: wp_if, rule wp_mono [OF get_list_wp [OF wf e True]], goal_cases)
        case (1 st r)
        show ?case
        proof (cases "st = MMDB_SUCCESS")
          case True
          then obtain p pool e0 es where r: "r = Some (p, pool)" and p: "pool_entry pool p = Some e0"
            and l: "list_from pool p (e0 # es)" and t: "ed_type e0 = MMDB_DATA_TYPE_MAP"
            and n: "children e0 \<le> length es" and ok: "list_all (entry_ok mdb) es"
            using 1 by auto
          have "2 * unat (data_size e0) \<le> length es" using n t by (simp add: children_def)
          from filled [OF l this ok] show ?thesis
            by (simp only: True r p if_True simp_thms Option.bind.simps option.case prod.case snd_conv)
        qed (use fail in simp)
      qed
    qed (use fail in simp)
  next
    case (3 st e)
    show ?case by (rule fail)
  qed
qed

section \<open>The stages of read\_metadata\<close>

text \<open>A stage keeps the frame, and on success its predicate holds of the metadata.\<close>

definition stage ::
  "addr multiset \<Rightarrow> MMDB_s \<Rightarrow> resources \<Rightarrow> (MMDB_metadata_s \<Rightarrow> bool) \<Rightarrow>
     mmdb_status \<Rightarrow> MMDB_s \<times> resources \<Rightarrow> bool" where
  "stage base db0 h0 P st s \<longleftrightarrow> metadata_fail base db0 h0 st s \<and> (st = MMDB_SUCCESS \<longrightarrow> P (db_metadata (fst s)))"

lemma stage_chk:
  assumes "wp run (stage base db0 h0 P)"
    and "\<And>db h. metadata_inv base db0 h0 (db, h) \<Longrightarrow> P (db_metadata db) \<Longrightarrow> wp (f (db, h)) Q"
    and "\<And>st s. st \<noteq> MMDB_SUCCESS \<Longrightarrow> metadata_fail base db0 h0 st s \<Longrightarrow> Q st s"
  shows "wp (chk run f) Q"
  unfolding wp_chk_with
  by (rule wp_mono [OF assms(1)]) (use assms(2,3) in \<open>auto simp: stage_def\<close>)

lemma same_blocks_simps [simp]:
  "same_blocks m (m\<lparr>node_count := a\<rparr>)" "same_blocks m (m\<lparr>record_size := b\<rparr>)"
  "same_blocks m (m\<lparr>ip_version := b\<rparr>)" "same_blocks m (m\<lparr>binary_format_major_version := b\<rparr>)"
  "same_blocks m (m\<lparr>binary_format_minor_version := b\<rparr>)" "same_blocks m (m\<lparr>build_epoch := c\<rparr>)"
  by (simp_all add: same_blocks_def)

lemma metadata_inv_number:
  assumes "metadata_inv base db0 h0 (db, h)"
  shows "metadata_fail base db0 h0 st (db, h)"
    and "same_blocks (db_metadata db) m \<Longrightarrow> metadata_fail base db0 h0 st (db\<lparr>db_metadata := m\<rparr>, h)"
  by (rule metadata_inv_fail [OF assms])
    (rule metadata_inv_fail, rule metadata_fail_same_blocks [OF assms])

lemma read_node_count_wp:
  assumes wf: "wf_section (entry_mmdb start)" and inv: "metadata_inv base db0 h0 (db, h)"
    and P: "\<And>v. P ((db_metadata db)\<lparr>node_count := v\<rparr>)"
  shows "wp (read_node_count stacks start (db, h)) (stage base db0 h0 (\<lambda>m. P m \<and> node_count m \<noteq> 0))"
  unfolding read_node_count_def prod.case wp_chk_with Let_def
  by (rule wp_mono [OF value_for_key_as_uint32_wp [OF wf]])
    (use P in \<open>auto simp: stage_def metadata_inv_number [OF inv]\<close>)

lemma read_record_size_wp:
  assumes wf: "wf_section (entry_mmdb start)" and inv: "metadata_inv base db0 h0 (db, h)"
    and P: "\<And>v. P ((db_metadata db)\<lparr>record_size := v\<rparr>)"
  shows "wp (read_record_size stacks start (db, h)) (stage base db0 h0 (\<lambda>m. P m \<and> record_size m \<in> {24, 28, 32}))"
  unfolding read_record_size_def prod.case wp_chk_with Let_def
  by (rule wp_mono [OF value_for_key_as_uint16_wp [OF wf]])
    (use P in \<open>auto simp: stage_def metadata_inv_number [OF inv]\<close>)

lemma read_ip_version_wp:
  assumes wf: "wf_section (entry_mmdb start)" and inv: "metadata_inv base db0 h0 (db, h)"
    and P: "\<And>v. P ((db_metadata db)\<lparr>ip_version := v\<rparr>)"
  shows "wp (read_ip_version stacks start (db, h)) (stage base db0 h0 (\<lambda>m. P m \<and> ip_version m \<in> {4, 6}))"
  unfolding read_ip_version_def prod.case wp_chk_with Let_def
  by (rule wp_mono [OF value_for_key_as_uint16_wp [OF wf]])
    (use P in \<open>auto simp: stage_def metadata_inv_number [OF inv]\<close>)

lemma read_major_version_wp:
  assumes wf: "wf_section (entry_mmdb start)" and inv: "metadata_inv base db0 h0 (db, h)"
    and P: "\<And>v. P ((db_metadata db)\<lparr>binary_format_major_version := v\<rparr>)"
  shows "wp (read_major_version stacks start (db, h)) (stage base db0 h0 (\<lambda>m. P m \<and> binary_format_major_version m \<noteq> 0))"
  unfolding read_major_version_def prod.case wp_chk_with Let_def
  by (rule wp_mono [OF value_for_key_as_uint16_wp [OF wf]])
    (use P in \<open>auto simp: stage_def metadata_inv_number [OF inv]\<close>)

lemma read_minor_version_wp:
  assumes wf: "wf_section (entry_mmdb start)" and inv: "metadata_inv base db0 h0 (db, h)"
    and P: "\<And>v. P ((db_metadata db)\<lparr>binary_format_minor_version := v\<rparr>)"
  shows "wp (read_minor_version stacks start (db, h)) (stage base db0 h0 (\<lambda>m. P m))"
  unfolding read_minor_version_def prod.case wp_chk_with Let_def
  by (rule wp_mono [OF value_for_key_as_uint16_wp [OF wf]])
    (use P in \<open>auto simp: stage_def metadata_inv_number [OF inv]\<close>)

lemma read_build_epoch_wp:
  assumes wf: "wf_section (entry_mmdb start)" and inv: "metadata_inv base db0 h0 (db, h)"
    and P: "\<And>v. P ((db_metadata db)\<lparr>build_epoch := v\<rparr>)"
  shows "wp (read_build_epoch stacks start (db, h)) (stage base db0 h0 (\<lambda>m. P m \<and> build_epoch m \<noteq> 0))"
  unfolding read_build_epoch_def prod.case wp_chk_with Let_def
  by (rule wp_mono [OF value_for_key_as_uint64_wp [OF wf]])
    (use P in \<open>auto simp: stage_def metadata_inv_number [OF inv]\<close>)


lemma followed_string:
  assumes "followed db e" and "ed_type e = MMDB_DATA_TYPE_UTF8_STRING"
  obtains s bs where "ed_value e = Utf8_string_val s"
    and "c_str_block (mapping db) s (unat (data_size e)) = Some bs"
  using assms value_ok_string [of db e "unat (data_size e)"]
  by (auto simp: followed_def str_bytes_block)

lemma read_database_type_wp:
  assumes wf: "wf_section (entry_mmdb start)" and same: "mapping (entry_mmdb start) = mapping db"
    and inv: "metadata_inv base db0 h0 (db, h)" and unset: "database_type (db_metadata db) = None"
    and P: "\<And>v. P ((db_metadata db)\<lparr>database_type := v\<rparr>)"
  shows "wp (read_database_type stacks start (db, h)) (stage base db0 h0 P)"
proof -
  let ?set = "\<lambda>v. db\<lparr>db_metadata := (db_metadata db)\<lparr>database_type := v\<rparr>\<rparr>"
  have old: "?set None = db" using unset by simp
  have "wp (value_for_key_as_string stacks start (ascii ''database_type'') (None, h))
      (\<lambda>st (v, h'). stage base db0 h0 P st (?set v, h'))"
    unfolding value_for_key_as_string_def prod.case
  proof (rule chk_aget [OF wf], goal_cases)
    case (1 e)
    show ?case
    proof (cases "ed_type e = MMDB_DATA_TYPE_UTF8_STRING")
      case True
      obtain str bs where str: "ed_value e = Utf8_string_val str"
        and bs: "c_str_block (mapping (entry_mmdb start)) str (unat (data_size e)) = Some bs"
        using followed_string [OF 1 True] .
      have own: "owns h base (metadata_blocks (db_metadata db))" using inv by (simp add: metadata_fail_def)
      obtain r h' where dup: "mmdb_strndup (mapping (entry_mmdb start)) str (unat (data_size e)) h = Some (r, h')"
        and own': "owns h' base (block_of r + metadata_blocks (db_metadata db))" and files: "same_files h h'"
        using mmdb_strndup_owns [OF bs own] by blast
      have "metadata_inv base db0 h0 (?set r, h')"
        using inv own' unset same_files_trans [OF _ files]
        by (simp add: metadata_fail_def metadata_blocks_def ac_simps)
      then have "stage base db0 h0 P st (?set r, h')" for st
        using metadata_inv_fail P by (simp add: stage_def)
      then show ?thesis using True str dup by (cases r) simp_all
    next
      case False
      then show ?thesis using metadata_inv_fail [OF inv] old by (simp add: stage_def)
    qed
  next
    case (2 st e)
    then show ?case using metadata_inv_fail [OF inv] old by (simp add: stage_def)
  qed
  then show ?thesis
    unfolding read_database_type_def by (auto simp: wp_def unset split: option.splits)
qed


section \<open>read\_metadata\<close>

text \<open>What a handle promises after \<open>read_metadata\<close> has succeeded.\<close>

definition metadata_ok :: "MMDB_metadata_s \<Rightarrow> bool" where
  "metadata_ok m \<longleftrightarrow> node_count m \<noteq> 0 \<and> record_size m \<in> {24, 28, 32} \<and> ip_version m \<in> {4, 6} \<and>
     binary_format_major_version m \<noteq> 0 \<and> build_epoch m \<noteq> 0"

definition layout_ok :: "MMDB_s \<Rightarrow> bool" where
  "layout_ok db \<longleftrightarrow>
     unat (full_record_byte_size db) * 4 = unat (record_size (db_metadata db)) \<and>
     db_depth db = (if ip_version (db_metadata db) = 4 then 32 else 128)"

definition fresh_metadata :: "MMDB_metadata_s \<Rightarrow> bool" where
  "fresh_metadata m \<longleftrightarrow> database_type m = None \<and> languages_names m = None \<and> description_count m = 0"

lemma but_languages_eq:
  assumes "but_languages m = but_languages m'"
  shows "node_count m = node_count m'" and "record_size m = record_size m'" and "ip_version m = ip_version m'"
    and "description_count m = description_count m'"
  using arg_cong [OF assms, of node_count] arg_cong [OF assms, of record_size]
    arg_cong [OF assms, of ip_version] arg_cong [OF assms, of description_count]
  by (simp_all add: but_languages_def)

lemma but_descriptions_eq:
  assumes "but_descriptions m = but_descriptions m'"
  shows "node_count m = node_count m'" and "record_size m = record_size m'" and "ip_version m = ip_version m'"
    and "binary_format_major_version m = binary_format_major_version m'" and "build_epoch m = build_epoch m'"
  using arg_cong [OF assms, of node_count] arg_cong [OF assms, of record_size]
    arg_cong [OF assms, of ip_version] arg_cong [OF assms, of binary_format_major_version]
    arg_cong [OF assms, of build_epoch]
  by (simp_all add: but_descriptions_def)

lemma make_fake_metadata_db_simps [simp]:
  "mapping (make_fake_metadata_db db) = mapping db"
  "data_section (make_fake_metadata_db db) = metadata_section db"
  "data_section_size (make_fake_metadata_db db) = metadata_section_size db"
  by (simp_all add: make_fake_metadata_db_def zero_mmdb_def)

lemma set_record_layout_ok:
  assumes "metadata_inv base db0 h0 (db, h)" and "metadata_ok (db_metadata db)"
  shows "\<exists>db'. set_record_layout (db, h) = Some (MMDB_SUCCESS, (db', h)) \<and>
    metadata_inv base db0 h0 (db', h) \<and> metadata_ok (db_metadata db') \<and> layout_ok db'"
  using assms
  by (auto simp: set_record_layout_def metadata_ok_def layout_ok_def metadata_fail_def)

definition read_metadata_post ::
  "addr multiset \<Rightarrow> MMDB_s \<Rightarrow> resources \<Rightarrow> mmdb_status \<Rightarrow> MMDB_s \<times> resources \<Rightarrow> bool" where
  "read_metadata_post base db0 h0 st s \<longleftrightarrow> metadata_fail base db0 h0 st s \<and>
     (st = MMDB_SUCCESS \<longrightarrow> metadata_ok (db_metadata (fst s)) \<and> layout_ok (fst s))"

lemma read_metadata_wp:
  assumes wf: "wf_section (make_fake_metadata_db db0)"
    and fresh: "fresh_metadata (db_metadata db0)" and own: "owns h0 base {#}"
  shows "wp (read_metadata stacks (db0, h0)) (read_metadata_post base db0 h0)"
proof -
  define mdb where "mdb = make_fake_metadata_db db0"
  define start where "start = \<lparr>entry_mmdb = mdb, entry_offset = 0\<rparr>"
  let ?Q = "read_metadata_post base db0 h0"
  let ?N = "\<lambda>m. node_count m \<noteq> 0 \<and> record_size m \<in> {24, 28, 32} \<and> ip_version m \<in> {4, 6} \<and>
    description_count m = 0"
  let ?P2 = "\<lambda>m. fresh_metadata m \<and> node_count m \<noteq> 0"
  let ?P3 = "\<lambda>m. ?P2 m \<and> record_size m \<in> {24, 28, 32}"
  let ?P4 = "\<lambda>m. ?P3 m \<and> ip_version m \<in> {4, 6}"
  let ?P5 = "\<lambda>m. ?N m \<and> languages_names m = None"
  let ?P7 = "\<lambda>m. ?N m \<and> binary_format_major_version m \<noteq> 0"
  let ?P9 = "\<lambda>m. ?P7 m \<and> build_epoch m \<noteq> 0"
  have sec: "wf_section (entry_mmdb start)" and mdb: "wf_section mdb" "entry_mmdb start = mdb"
    using wf by (simp_all add: start_def mdb_def)
  have same: "mapping mdb = mapping db" if "metadata_inv base db0 h0 (db, h)" for db h
    using that by (auto simp: mdb_def metadata_fail_def dest: only_metadata_fields(1))
  have fail: "?Q st s" if "st \<noteq> MMDB_SUCCESS" "metadata_fail base db0 h0 st s" for st s
    using that by (simp add: read_metadata_post_def)
  let ?f9 = "\<lambda>s. chk (populate_description_metadata stacks mdb start s) set_record_layout"
  let ?f8 = "\<lambda>s. chk (read_build_epoch stacks start s) ?f9"
  let ?f7 = "\<lambda>s. chk (read_minor_version stacks start s) ?f8"
  let ?f6 = "\<lambda>s. chk (read_major_version stacks start s) ?f7"
  let ?f5 = "\<lambda>s. chk (populate_languages_metadata stacks mdb start s) ?f6"
  let ?f4 = "\<lambda>s. chk (read_database_type stacks start s) ?f5"
  let ?f3 = "\<lambda>s. chk (read_ip_version stacks start s) ?f4"
  let ?f2 = "\<lambda>s. chk (read_record_size stacks start s) ?f3"
  have f9: "wp (?f9 (db, h)) ?Q" if inv: "metadata_inv base db0 h0 (db, h)" and P: "?P9 (db_metadata db)" for db h
  proof (rule stage_chk [OF _ _ fail])
    show "wp (populate_description_metadata stacks mdb start (db, h)) (stage base db0 h0 metadata_ok)"
      by (rule wp_mono [OF populate_description_metadata_wp [OF mdb(1) same [OF inv] mdb(2) inv]])
        (use P in \<open>auto simp: stage_def descriptions_post_def metadata_ok_def dest: but_descriptions_eq\<close>)
  next
    fix db h assume "metadata_inv base db0 h0 (db, h)" and "metadata_ok (db_metadata db)"
    then show "wp (set_record_layout (db, h)) ?Q"
      using set_record_layout_ok [of base db0 h0 db h] by (auto simp: read_metadata_post_def)
  qed
  have f8: "wp (?f8 (db, h)) ?Q" if inv: "metadata_inv base db0 h0 (db, h)" and P: "?P7 (db_metadata db)" for db h
    using read_build_epoch_wp [OF sec inv, of ?P7] P by (intro stage_chk [where P = ?P9 and f = ?f9 and Q = ?Q, OF _ f9 fail]) auto
  have f7: "wp (?f7 (db, h)) ?Q" if inv: "metadata_inv base db0 h0 (db, h)" and P: "?P7 (db_metadata db)" for db h
    using read_minor_version_wp [OF sec inv, of ?P7] P by (intro stage_chk [where P = ?P7 and f = ?f8 and Q = ?Q, OF _ f8 fail]) auto
  have f6: "wp (?f6 (db, h)) ?Q" if inv: "metadata_inv base db0 h0 (db, h)" and P: "?N (db_metadata db)" for db h
    using read_major_version_wp [OF sec inv, of ?N] P by (intro stage_chk [where P = ?P7 and f = ?f7 and Q = ?Q, OF _ f7 fail]) auto
  have f5: "wp (?f5 (db, h)) ?Q" if inv: "metadata_inv base db0 h0 (db, h)" and P: "?P5 (db_metadata db)" for db h
  proof (rule stage_chk [where P = ?N and f = ?f6 and Q = ?Q, OF _ f6 fail])
    show "wp (populate_languages_metadata stacks mdb start (db, h)) (stage base db0 h0 ?N)"
      by (rule wp_mono [OF populate_languages_metadata_wp [OF mdb(1) same [OF inv] mdb(2) inv]])
        (use P in \<open>auto simp: stage_def languages_post_def dest: but_languages_eq\<close>)
  qed
  have f4: "wp (?f4 (db, h)) ?Q" if inv: "metadata_inv base db0 h0 (db, h)" and P: "?P4 (db_metadata db)" for db h
  proof (rule stage_chk [where P = ?P5 and f = ?f5 and Q = ?Q, OF _ f5 fail])
    have "mapping (entry_mmdb start) = mapping db" using same [OF inv] mdb by simp
    then show "wp (read_database_type stacks start (db, h)) (stage base db0 h0 ?P5)"
      using P by (intro read_database_type_wp [OF sec _ inv]) (auto simp: fresh_metadata_def)
  qed
  have f3: "wp (?f3 (db, h)) ?Q" if inv: "metadata_inv base db0 h0 (db, h)" and P: "?P3 (db_metadata db)" for db h
    using read_ip_version_wp [OF sec inv, of ?P3] P
    by (intro stage_chk [where P = ?P4 and f = ?f4 and Q = ?Q, OF _ f4 fail]) (auto simp: fresh_metadata_def)
  have f2: "wp (?f2 (db, h)) ?Q" if inv: "metadata_inv base db0 h0 (db, h)" and P: "?P2 (db_metadata db)" for db h
    using read_record_size_wp [OF sec inv, of ?P2] P
    by (intro stage_chk [where P = ?P3 and f = ?f3 and Q = ?Q, OF _ f3 fail]) (auto simp: fresh_metadata_def)
  have inv: "metadata_inv base db0 h0 (db0, h0)"
    using fresh own
    by (auto simp: metadata_fail_def fresh_metadata_def languages_inv_def descriptions_inv_def metadata_blocks_def
        language_blocks_def description_blocks_def)
  show ?thesis
    unfolding read_metadata_def Let_def fst_conv mdb_def [symmetric] start_def [symmetric]
    using read_node_count_wp [OF sec inv, of fresh_metadata] fresh
    by (intro stage_chk [where P = ?P2 and f = ?f2 and Q = ?Q, OF _ f2 fail]) (auto simp: fresh_metadata_def)
qed

end
