(* ===== verification/Open_Close.thy ===== *)
theory Open_Close
  imports Search_Tree Metadata
begin

text \<open>
  Opening and closing: \<open>MMDB_open\<close>, \<open>map_file\<close>, \<open>free_mmdb_struct\<close>,
  \<open>free_languages_metadata\<close>, \<open>free_descriptions_metadata\<close> and \<open>MMDB_close\<close>. The answers of
  the operating system are a parameter, and the resources of \<open>Compat\<close> count what is held.
\<close>

section \<open>Freeing\<close>

definition free_language :: "nat \<Rightarrow> MMDB_s \<times> resources \<Rightarrow> (MMDB_s \<times> resources) option" where
  "free_language i s =
    (case s of (db, h) \<Rightarrow>
     case languages_names (db_metadata db) of
       None \<Rightarrow> None
     | Some (a, names) \<Rightarrow>
         if i < length names then do {
           h \<leftarrow> free_opt (names ! i) h;
           db \<leftarrow> set_language_name i None db;
           Some (db, h) }
         else None)"

definition free_languages_metadata :: "MMDB_s \<times> resources \<Rightarrow> (MMDB_s \<times> resources) option" where
  "free_languages_metadata s =
    (if languages_names (db_metadata (fst s)) = None then Some s
     else do {
       (db, h) \<leftarrow> for_each [0..<languages_count (db_metadata (fst s))] free_language s;
       h \<leftarrow> free_opt (languages_names (db_metadata db)) h;
       Some (db\<lparr>db_metadata := (db_metadata db)\<lparr>languages_names := None, languages_count := 0\<rparr>\<rparr>, h) })"

definition free_description :: "nat \<Rightarrow> MMDB_s \<times> resources \<Rightarrow> (MMDB_s \<times> resources) option" where
  "free_description i s =
    (case s of (db, h) \<Rightarrow>
     case descriptions (db_metadata db) of
       None \<Rightarrow> None
     | Some (a, ds) \<Rightarrow>
         if i < length ds then
           (case ds ! i of
              None \<Rightarrow> Some (db, h)
            | Some (b, d) \<Rightarrow> do {
                h \<leftarrow> free_opt (language d) h;
                h \<leftarrow> free_opt (description d) h;
                h \<leftarrow> c_free b h;
                db \<leftarrow> set_description i None db;
                Some (db, h) })
         else None)"

definition free_descriptions_metadata :: "MMDB_s \<times> resources \<Rightarrow> (MMDB_s \<times> resources) option" where
  "free_descriptions_metadata s =
    (if description_count (db_metadata (fst s)) = 0 then Some s
     else do {
       (db, h) \<leftarrow> for_each [0..<description_count (db_metadata (fst s))] free_description s;
       h \<leftarrow> free_opt (descriptions (db_metadata db)) h;
       Some (db\<lparr>db_metadata := (db_metadata db)\<lparr>descriptions := None, description_count := 0\<rparr>\<rparr>, h) })"

text \<open>\<open>munmap\<close> of a region that is not mapped is an invalid access.\<close>

definition munmap :: "resources \<Rightarrow> resources option" where
  "munmap h = (if mappings h = 0 then None else Some (h\<lparr>mappings := mappings h - 1\<rparr>))"

definition free_mmdb_struct :: "MMDB_s \<times> resources \<Rightarrow> (MMDB_s \<times> resources) option" where
  "free_mmdb_struct s =
    (case s of (db, h) \<Rightarrow> do {
       h \<leftarrow> free_opt (db_filename db) h;
       let db = db\<lparr>db_filename := None\<rparr>;
       (db, h) \<leftarrow> (if file_content db = None then Some (db, h)
         else do {
           h \<leftarrow> munmap h;
           Some (db\<lparr>file_content := None, file_size := 0, data_section := None, data_section_size := 0,
             metadata_section := None, metadata_section_size := 0\<rparr>, h) });
       h \<leftarrow> free_opt (database_type (db_metadata db)) h;
       let db = db\<lparr>db_metadata := (db_metadata db)\<lparr>database_type := None\<rparr>\<rparr>;
       s \<leftarrow> free_languages_metadata (db, h);
       free_descriptions_metadata s })"

definition MMDB_close :: "MMDB_s \<times> resources \<Rightarrow> (MMDB_s \<times> resources) option" where
  "MMDB_close s = free_mmdb_struct s"

section \<open>Mapping the file\<close>

text \<open>
  What the operating system answers to \<open>open\<close>, \<open>fstat\<close> and \<open>mmap\<close>; a failed \<open>mmap\<close> sets
  \<open>errno\<close>.
\<close>

record os_answers =
  os_open :: "bytes \<Rightarrow> int"
  os_fstat :: int
  st_size :: int
  os_mmap :: "int + bytes"

abbreviation (input) ENOMEM :: int where "ENOMEM \<equiv> 12"

definition close_fd :: "resources \<Rightarrow> resources" where
  "close_fd h = h\<lparr>open_fds := open_fds h - 1\<rparr>"

definition map_file :: "os_answers \<Rightarrow> MMDB_s \<times> resources \<Rightarrow> (MMDB_s \<times> resources) run" where
  "map_file os s =
    (case s of (db, h) \<Rightarrow> do {
       (_, name) \<leftarrow> db_filename db;
       let fd = os_open os name;
       if fd < 0 then Some (MMDB_FILE_OPEN_ERROR, (db, h))
       else
         let h = h\<lparr>open_fds := open_fds h + 1\<rparr> in
         if os_fstat os \<noteq> 0 then Some (MMDB_FILE_OPEN_ERROR, (db, close_fd h))
         else
           let size0 = st_size os in
           if size0 < 0 \<or> size0 > SSIZE_MAX then Some (MMDB_OUT_OF_MEMORY_ERROR, (db, close_fd h))
           else
             case os_mmap os of
               Inl errno \<Rightarrow>
                 Some (if errno = ENOMEM then MMDB_OUT_OF_MEMORY_ERROR else MMDB_IO_ERROR, (db, close_fd h))
             | Inr content \<Rightarrow>
                 Some (MMDB_SUCCESS,
                   (db\<lparr>mapping := content, file_size := size0, file_content := Some 0\<rparr>,
                    close_fd (h\<lparr>mappings := mappings h + 1\<rparr>))) })"

section \<open>MMDB\_open\<close>

text \<open>The stores at the start of \<open>MMDB_open\<close>; the rest of the handle may hold anything.\<close>

definition clear_handle :: "MMDB_s \<Rightarrow> MMDB_s" where
  "clear_handle db =
    db\<lparr>file_content := None, data_section := None,
      db_metadata := (db_metadata db)\<lparr>database_type := None, languages_count := 0,
        languages_names := None, description_count := 0\<rparr>\<rparr>"

definition set_flags :: "u32 \<Rightarrow> MMDB_s \<Rightarrow> MMDB_s" where
  "set_flags flags db =
    db\<lparr>db_flags := (if flags AND MMDB_MODE_MASK = 0 then flags OR MMDB_MODE_MMAP else flags)\<rparr>"

text \<open>The metadata, then the two sections of the file, then the start node of IPv4.\<close>

definition open_metadata ::
  "stack_content \<Rightarrow> MMDB_s \<times> resources \<Rightarrow> (MMDB_s \<times> resources) run" where
  "open_metadata stacks s =
    (case s of (db, h) \<Rightarrow> do {
       content \<leftarrow> file_content db;
       metadata \<leftarrow> find_metadata (mapping db) content (file_size db);
       case metadata of
         None \<Rightarrow> Some (MMDB_INVALID_METADATA_ERROR, (db, h))
       | Some (metadata, metadata_size) \<Rightarrow>
           chk (read_metadata stacks
               (db\<lparr>metadata_section := Some metadata, metadata_section_size := metadata_size\<rparr>, h)) (\<lambda>s.
             if binary_format_major_version (db_metadata (fst s)) \<noteq> 2
             then Some (MMDB_UNKNOWN_DATABASE_FORMAT_ERROR, s)
             else Some (MMDB_SUCCESS, s)) })"

definition set_sections :: "MMDB_s \<Rightarrow> MMDB_s run" where
  "set_sections db =
    (if \<not> can_multiply (nat SSIZE_MAX) (unat (node_count (db_metadata db))) (unat (full_record_byte_size db))
     then Some (MMDB_INVALID_METADATA_ERROR, db)
     else
       let search_tree_size = uint (node_count (db_metadata db)) * uint (full_record_byte_size db);
           db = db\<lparr>data_section :=
             map_option (\<lambda>p. p + nat search_tree_size + unat MMDB_DATA_SECTION_SEPARATOR) (file_content db)\<rparr>
       in if file_size db < uint MMDB_DATA_SECTION_SEPARATOR \<or>
            search_tree_size > file_size db - uint MMDB_DATA_SECTION_SEPARATOR
          then Some (MMDB_INVALID_METADATA_ERROR, db)
          else
            let size0 = file_size db - search_tree_size - uint MMDB_DATA_SECTION_SEPARATOR
            in if size0 > UINT32_MAX \<or> size0 \<le> 0 then Some (MMDB_INVALID_METADATA_ERROR, db)
               else
                 let db = db\<lparr>data_section_size := word_of_int size0\<rparr>
                 in if data_section_size db < 3 then Some (MMDB_INVALID_DATA_ERROR, db)
                    else Some (MMDB_SUCCESS, db))"

lemmas set_sections_code [code] = set_sections_def [unfolded can_multiply_int]

definition set_ipv4_start :: "MMDB_s \<Rightarrow> MMDB_s run" where
  "set_ipv4_start db0 =
    (let db = db0\<lparr>ipv4_start_node := \<lparr>start_netmask = 0, node_value = 0\<rparr>\<rparr>
     in if ip_version (db_metadata db) = 6 then find_ipv4_start_node db else Some (MMDB_SUCCESS, db))"

definition MMDB_open ::
  "os_answers \<Rightarrow> stack_content \<Rightarrow> bytes \<Rightarrow> u32 \<Rightarrow> MMDB_s \<times> resources \<Rightarrow> (MMDB_s \<times> resources) run" where
  "MMDB_open os stacks filename flags s = do {
     let (db, h) = s;
     let db = clear_handle db;
     let (copy, h) = mmdb_strdup filename h;
     let db = db\<lparr>db_filename := copy\<rparr>;
     (status, s) \<leftarrow> (if copy = None then Some (MMDB_OUT_OF_MEMORY_ERROR, (db, h))
       else
         chk (map_file os (set_flags flags db, h)) (\<lambda>s.
         chk (open_metadata stacks s) (\<lambda>(db, h).
         chk_with (\<lambda>db. (db, h)) (set_sections db) (\<lambda>db.
         map_option (\<lambda>(st, db). (st, (db, h))) (set_ipv4_start db)))));
     s \<leftarrow> (if status \<noteq> MMDB_SUCCESS then free_mmdb_struct s else Some s);
     Some (status, s) }"

section \<open>Freeing gives everything back\<close>

text \<open>The blocks that the loop over the first \<open>n\<close> elements has still to free.\<close>

definition rest_blocks :: "('b \<Rightarrow> addr multiset) \<Rightarrow> nat \<Rightarrow> 'b list \<Rightarrow> addr multiset" where
  "rest_blocks f i xs = sum_list (map f (drop i xs))"

lemma rest_blocks_step: "i < length xs \<Longrightarrow> rest_blocks f i xs = f (xs ! i) + rest_blocks f (Suc i) xs"
  by (simp add: rest_blocks_def Cons_nth_drop_Suc [symmetric])

lemma rest_blocks_update [simp]: "i < j \<Longrightarrow> rest_blocks f j (xs[i := x]) = rest_blocks f j xs"
  by (simp add: rest_blocks_def)

lemma rest_blocks_unset:
  assumes "unset_from n xs" and "f None = {#}"
  shows "rest_blocks f n xs = {#}"
proof -
  have "drop n xs = replicate (length xs - n) None"
    using assms by (auto simp: unset_from_def list_eq_iff_nth_eq)
  then show ?thesis using assms(2) by (simp add: rest_blocks_def)
qed

lemma free_opt_owns':
  assumes "owns h base (block_of p + rest)"
  obtains h' where "free_opt p h = Some h'" and "owns h' base rest" and "same_files h h'"
  using free_opt_owns [OF assms] by blast

text \<open>An array whose elements from \<open>i\<close> on are still as in \<open>xs\<close>.\<close>

lemma drop_eq_step:
  assumes "drop i ys = drop i xs" and "i < length xs"
  shows "ys ! i = xs ! i" and "drop (Suc i) (ys[i := y]) = drop (Suc i) xs" and "i < length ys"
proof -
  show lt: "i < length ys" using arg_cong [OF assms(1), of length] assms(2) by simp
  show "ys ! i = xs ! i" using assms lt by (metis hd_drop_conv_nth)
  show "drop (Suc i) (ys[i := y]) = drop (Suc i) xs"
    using arg_cong [OF assms(1), of "drop 1"] by simp
qed

lemma free_languages_metadata_owns:
  assumes own: "owns h base (language_blocks (db_metadata db) + rest)" and inv: "languages_inv (db_metadata db)"
  shows "\<exists>n h'. free_languages_metadata (db, h) =
      Some (db\<lparr>db_metadata := (db_metadata db)\<lparr>languages_names := None, languages_count := n\<rparr>\<rparr>, h') \<and>
    owns h' base rest \<and> same_files h h'"
proof (cases "languages_names (db_metadata db)")
  case None
  have "db\<lparr>db_metadata := (db_metadata db)\<lparr>languages_names := None,
      languages_count := languages_count (db_metadata db)\<rparr>\<rparr> = db"
    using None [symmetric] by simp
  then show ?thesis
    using None own
    by (intro exI [of _ "languages_count (db_metadata db)"] exI [of _ h])
      (simp add: free_languages_metadata_def language_blocks_def)
next
  case (Some p)
  obtain a ns where p: "p = (a, ns)" by fastforce
  let ?n = "languages_count (db_metadata db)"
  let ?db = "\<lambda>ns. db\<lparr>db_metadata := (db_metadata db)\<lparr>languages_names := Some (a, ns)\<rparr>\<rparr>"
  have unset: "unset_from ?n ns" using inv Some p by (simp add: languages_inv_def)
  let ?I = "\<lambda>i s. \<exists>ns' h'. s = (?db ns', h') \<and> drop i ns' = drop i ns \<and>
    owns h' base (rest_blocks block_of i ns + add_mset a rest) \<and> same_files h h'"
  have "\<exists>s'. for_each [0..<?n] free_language (db, h) = Some s' \<and> ?I ?n s'"
  proof (rule for_each_upt)
    have "?db ns = db" using Some [symmetric] p by simp
    then show "?I 0 (db, h)"
      using Some p own by (intro exI [of _ ns] exI [of _ h]) (simp add: language_blocks_def rest_blocks_def)
  next
    fix i s assume i: "i < ?n" and I: "?I i s"
    then obtain ns' h' where s: "s = (?db ns', h')" and d: "drop i ns' = drop i ns"
      and own': "owns h' base (rest_blocks block_of i ns + add_mset a rest)" and same: "same_files h h'" by blast
    have lt: "i < length ns" using i unset by (simp add: unset_from_def)
    have "owns h' base (block_of (ns' ! i) + (rest_blocks block_of (Suc i) ns + add_mset a rest))"
      using own' rest_blocks_step [OF lt, of block_of] drop_eq_step [OF d lt] by (simp add: ac_simps)
    then obtain h'' where h'': "free_opt (ns' ! i) h' = Some h''"
      "owns h'' base (rest_blocks block_of (Suc i) ns + add_mset a rest)" "same_files h' h''"
      by (rule free_opt_owns')
    have "free_language i s = Some (?db (ns'[i := None]), h'')"
      using s h''(1) drop_eq_step [OF d lt] by (simp add: free_language_def set_language_name_def)
    then show "\<exists>s'. free_language i s = Some s' \<and> ?I (Suc i) s'"
      using h''(2) same_files_trans [OF same h''(3)] drop_eq_step(2) [OF d lt] by blast
  qed
  then obtain ns' h' where loop: "for_each [0..<?n] free_language (db, h) = Some (?db ns', h')"
    and own': "owns h' base (add_mset a rest)" and same: "same_files h h'"
    using rest_blocks_unset [OF unset, of block_of] by auto
  have "owns h' base (block_of (Some (a, ns')) + rest)" using own' by simp
  then obtain h'' where "free_opt (Some (a, ns')) h' = Some h''" "owns h'' base rest" "same_files h' h''"
    by (rule free_opt_owns')
  then show ?thesis
    using Some p loop same_files_trans [OF same] by (auto simp: free_languages_metadata_def)
qed

lemma free_descriptions_metadata_owns:
  assumes own: "owns h base (description_blocks (db_metadata db) + rest)" and inv: "descriptions_inv (db_metadata db)"
  shows "\<exists>ds h'. free_descriptions_metadata (db, h) =
      Some (db\<lparr>db_metadata := (db_metadata db)\<lparr>descriptions := ds, description_count := 0\<rparr>\<rparr>, h') \<and>
    owns h' base rest \<and> same_files h h'"
proof (cases "description_count (db_metadata db) = 0")
  case True
  have "db\<lparr>db_metadata := (db_metadata db)\<lparr>descriptions := descriptions (db_metadata db),
      description_count := 0\<rparr>\<rparr> = db"
    using True [symmetric] by simp
  then show ?thesis
    using True own
    by (intro exI [of _ "descriptions (db_metadata db)"] exI [of _ h])
      (simp add: free_descriptions_metadata_def description_blocks_def)
next
  case False
  let ?n = "description_count (db_metadata db)"
  obtain a ds where ds: "descriptions (db_metadata db) = Some (a, ds)" and unset: "unset_from ?n ds"
    using inv False by (auto simp: descriptions_inv_def)
  let ?db = "\<lambda>ds. db\<lparr>db_metadata := (db_metadata db)\<lparr>descriptions := Some (a, ds)\<rparr>\<rparr>"
  let ?rest = "rest_blocks description_block"
  let ?I = "\<lambda>i s. \<exists>ds' h'. s = (?db ds', h') \<and> drop i ds' = drop i ds \<and>
    owns h' base (?rest i ds + add_mset a rest) \<and> same_files h h'"
  have "\<exists>s'. for_each [0..<?n] free_description (db, h) = Some s' \<and> ?I ?n s'"
  proof (rule for_each_upt)
    have "?db ds = db" using ds [symmetric] by simp
    then show "?I 0 (db, h)"
      using ds False own
      by (intro exI [of _ ds] exI [of _ h]) (simp add: description_blocks_def rest_blocks_def)
  next
    fix i s assume i: "i < ?n" and I: "?I i s"
    then obtain ds' h' where s: "s = (?db ds', h')" and d: "drop i ds' = drop i ds"
      and own': "owns h' base (?rest i ds + add_mset a rest)" and same: "same_files h h'" by blast
    have lt: "i < length ds" using i unset by (simp add: unset_from_def)
    note step = drop_eq_step [OF d lt]
    have own': "owns h' base (description_block (ds' ! i) + (?rest (Suc i) ds + add_mset a rest))"
      using own' rest_blocks_step [OF lt, of description_block] step by (simp add: ac_simps)
    show "\<exists>s'. free_description i s = Some s' \<and> ?I (Suc i) s'"
    proof (cases "ds' ! i")
      case None
      have "drop (Suc i) ds' = drop (Suc i) ds" using arg_cong [OF d, of "drop 1"] by simp
      moreover have "free_description i s = Some s" using s None step by (simp add: free_description_def)
      ultimately show ?thesis
        using s None own' same by (auto simp: description_block_def)
    next
      case (Some bd)
      obtain b x where bd: "bd = (b, x)" by fastforce
      have "owns h' base (block_of (language x) + (block_of (description x) + (block_of (Some (b, x)) +
          (?rest (Suc i) ds + add_mset a rest))))"
        using own' Some bd by (simp add: description_block_def ac_simps add_mset_commute)
      then obtain h1 where h1: "free_opt (language x) h' = Some h1" "owns h1 base (block_of (description x) +
          (block_of (Some (b, x)) + (?rest (Suc i) ds + add_mset a rest)))" "same_files h' h1"
        by (rule free_opt_owns')
      obtain h2 where h2: "free_opt (description x) h1 = Some h2"
        "owns h2 base (block_of (Some (b, x)) + (?rest (Suc i) ds + add_mset a rest))" "same_files h1 h2"
        using h1(2) by (rule free_opt_owns')
      obtain h3 where h3: "free_opt (Some (b, x)) h2 = Some h3" "owns h3 base (?rest (Suc i) ds + add_mset a rest)"
        "same_files h2 h3" using h2(2) by (rule free_opt_owns')
      have "free_description i s = Some (?db (ds'[i := None]), h3)"
        using s Some bd step h1(1) h2(1) h3(1)
        by (simp add: free_description_def set_description_def free_opt_def)
      moreover have "same_files h h3" using same h1(3) h2(3) h3(3) same_files_trans by blast
      ultimately show ?thesis using h3(2) step(2) by blast
    qed
  qed
  then obtain ds' h' where loop: "for_each [0..<?n] free_description (db, h) = Some (?db ds', h')"
    and own': "owns h' base (add_mset a rest)" and same: "same_files h h'"
    using rest_blocks_unset [OF unset, of description_block] by (auto simp: description_block_def)
  have "owns h' base (block_of (Some (a, ds')) + rest)" using own' by simp
  then obtain h'' where "free_opt (Some (a, ds')) h' = Some h''" "owns h'' base rest" "same_files h' h''"
    by (rule free_opt_owns')
  then show ?thesis
    using ds False loop same_files_trans [OF same] by (auto simp: free_descriptions_metadata_def)
qed

definition handle_closed :: "MMDB_s \<Rightarrow> bool" where
  "handle_closed db \<longleftrightarrow> db_filename db = None \<and> file_content db = None \<and> database_type (db_metadata db) = None \<and>
     languages_names (db_metadata db) = None \<and> description_count (db_metadata db) = 0"

text \<open>What \<open>free_mmdb_struct\<close> relies on, with \<open>rest\<close> being blocks that belong to others.\<close>

definition freeable :: "addr multiset \<Rightarrow> addr multiset \<Rightarrow> MMDB_s \<Rightarrow> resources \<Rightarrow> bool" where
  "freeable base rest db h \<longleftrightarrow>
     owns h base (block_of (db_filename db) + metadata_blocks (db_metadata db) + rest) \<and>
     languages_inv (db_metadata db) \<and> descriptions_inv (db_metadata db) \<and>
     (file_content db \<noteq> None \<longrightarrow> 0 < mappings h)"

lemma free_mmdb_struct_owns:
  assumes "freeable base rest db h"
  shows "\<exists>db' h'. free_mmdb_struct (db, h) = Some (db', h') \<and> handle_closed db' \<and> owns h' base rest \<and>
    open_fds h' = open_fds h \<and> mappings h' = mappings h - (if file_content db = None then 0 else 1)"
proof -
  let ?m = "db_metadata db"
  have own: "owns h base (block_of (db_filename db) + (block_of (database_type ?m) +
      (language_blocks ?m + (description_blocks ?m + rest))))"
    and inv: "languages_inv ?m" "descriptions_inv ?m"
    using assms by (simp_all add: freeable_def metadata_blocks_def ac_simps)
  obtain h1 where h1: "free_opt (db_filename db) h = Some h1"
    "owns h1 base (block_of (database_type ?m) + (language_blocks ?m + (description_blocks ?m + rest)))"
    "same_files h h1"
    using own by (rule free_opt_owns')
  define db2 where "db2 = (if file_content db = None then db\<lparr>db_filename := None\<rparr>
    else db\<lparr>db_filename := None, file_content := None, file_size := 0, data_section := None,
      data_section_size := 0, metadata_section := None, metadata_section_size := 0\<rparr>)"
  define h2 where "h2 = (if file_content db = None then h1 else h1\<lparr>mappings := mappings h1 - 1\<rparr>)"
  have "0 < mappings h1" if "file_content db \<noteq> None"
    using assms that h1(3) by (auto simp: freeable_def same_files_def)
  then have unmap: "(if file_content (db\<lparr>db_filename := None\<rparr>) = None then Some (db\<lparr>db_filename := None\<rparr>, h1)
      else do { h \<leftarrow> munmap h1; Some (db\<lparr>db_filename := None, file_content := None, file_size := 0,
        data_section := None, data_section_size := 0, metadata_section := None,
        metadata_section_size := 0\<rparr>, h) }) = Some (db2, h2)"
    by (cases "file_content db") (simp_all add: munmap_def db2_def h2_def)
  have m2: "db_metadata db2 = ?m" and f2: "db_filename db2 = None" "file_content db2 = None"
    by (simp_all add: db2_def)
  have "owns h2 base (block_of (database_type ?m) + (language_blocks ?m + (description_blocks ?m + rest)))"
    using h1(2) by (simp add: h2_def owns_def)
  then obtain h3 where h3: "free_opt (database_type ?m) h2 = Some h3"
    "owns h3 base (language_blocks ?m + (description_blocks ?m + rest))" "same_files h2 h3"
    by (rule free_opt_owns')
  let ?db3 = "db2\<lparr>db_metadata := ?m\<lparr>database_type := None\<rparr>\<rparr>"
  obtain n h4 where h4: "free_languages_metadata (?db3, h3) = Some (?db3\<lparr>db_metadata :=
      (db_metadata ?db3)\<lparr>languages_names := None, languages_count := n\<rparr>\<rparr>, h4)"
    "owns h4 base (description_blocks ?m + rest)" "same_files h3 h4"
    using free_languages_metadata_owns [of h3 base ?db3 "description_blocks ?m + rest"] h3(2) inv(1) by auto
  let ?db4 = "?db3\<lparr>db_metadata := (db_metadata ?db3)\<lparr>languages_names := None, languages_count := n\<rparr>\<rparr>"
  obtain ds h5 where h5: "free_descriptions_metadata (?db4, h4) = Some (?db4\<lparr>db_metadata :=
      (db_metadata ?db4)\<lparr>descriptions := ds, description_count := 0\<rparr>\<rparr>, h5)"
    "owns h5 base rest" "same_files h4 h5"
    using free_descriptions_metadata_owns [of h4 base ?db4 rest] h4(2) inv(2) by auto
  have "free_mmdb_struct (db, h) = free_descriptions_metadata (?db4, h4)"
    using h1(1) unmap h3(1) h4(1) m2 by (simp add: free_mmdb_struct_def Let_def)
  moreover have "open_fds h5 = open_fds h" "mappings h5 = mappings h - (if file_content db = None then 0 else 1)"
    using h1(3) h3(3) h4(3) h5(3) by (auto simp: same_files_def h2_def)
  ultimately show ?thesis using h5(1,2) f2 by (simp add: handle_closed_def)
qed

lemma free_mmdb_struct_closed: "handle_closed db \<Longrightarrow> free_mmdb_struct (db, h) = Some (db, h)"
proof -
  assume c: "handle_closed db"
  then have "db\<lparr>db_filename := None\<rparr> = db" and "db\<lparr>db_metadata := (db_metadata db)\<lparr>database_type := None\<rparr>\<rparr> = db"
    by (simp_all add: handle_closed_def)
  then show ?thesis
    using c by (simp add: handle_closed_def free_mmdb_struct_def free_opt_def free_languages_metadata_def
        free_descriptions_metadata_def)
qed

section \<open>Opening\<close>

definition os_ok :: "os_answers \<Rightarrow> bool" where
  "os_ok os \<longleftrightarrow> (\<forall>m. os_mmap os = Inr m \<longrightarrow> length m = nat (st_size os))"

text \<open>
  \<open>handle base h0 leaks db h\<close>: what \<open>MMDB_open\<close> has taken so far is owned by the handle, and
  the mapping, once made, holds the whole file.
\<close>

definition handle :: "addr multiset \<Rightarrow> resources \<Rightarrow> addr multiset \<Rightarrow> MMDB_s \<Rightarrow> resources \<Rightarrow> bool" where
  "handle base h0 rest db h \<longleftrightarrow> freeable base rest db h \<and> open_fds h = open_fds h0 \<and>
     mappings h = mappings h0 + (if file_content db = None then 0 else 1)"

lemma map_file_wp:
  assumes "handle base h0 {#} db h" and "file_content db = None" and "db_filename db \<noteq> None" and "os_ok os"
  shows "wp (map_file os (db, h)) (\<lambda>st (db', h'). handle base h0 {#} db' h' \<and> db_metadata db' = db_metadata db \<and>
    st \<in> {MMDB_SUCCESS, MMDB_FILE_OPEN_ERROR, MMDB_OUT_OF_MEMORY_ERROR, MMDB_IO_ERROR} \<and>
    (st = MMDB_SUCCESS \<longrightarrow> os_mmap os = Inr (mapping db') \<and> file_size db' = st_size os \<and> 
      file_content db' = Some 0 \<and> 0 \<le> file_size db' \<and> file_size db' \<le> SSIZE_MAX \<and>
      length (mapping db') = nat (file_size db')))"
  using assms
  by (auto simp: map_file_def Let_def close_fd_def handle_def freeable_def owns_def os_ok_def split: sum.split)

text \<open>What a handle promises after \<open>MMDB_open\<close> has succeeded.\<close>

definition search_tree_size :: "MMDB_s \<Rightarrow> nat" where
  "search_tree_size db = unat (node_count (db_metadata db)) * unat (full_record_byte_size db)"

definition sections_ok :: "MMDB_s \<Rightarrow> bool" where
  "sections_ok db \<longleftrightarrow> file_content db = Some 0 \<and> data_section db = Some (search_tree_size db + 16) \<and>
     search_tree_size db + 16 + unat (data_section_size db) = length (mapping db) \<and>
     3 \<le> unat (data_section_size db)"

definition opened :: "MMDB_s \<Rightarrow> bool" where
  "opened db \<longleftrightarrow> sections_ok db \<and> start_ok db \<and> layout_ok db \<and> metadata_ok (db_metadata db) \<and>
     binary_format_major_version (db_metadata db) = 2"

lemma sections_ok_wf: "sections_ok db \<Longrightarrow> wf_section db \<and> wf_tree db"
  by (auto simp: sections_ok_def wf_section_def wf_tree_def word_le_nat_alt)

lemma opened_wf: "opened db \<Longrightarrow> wf_section db \<and> wf_search db"
  using sections_ok_wf by (auto simp: opened_def wf_search_def layout_ok_def)

text \<open>The state after a step of \<open>MMDB_open\<close>: everything taken is held by the handle.\<close>

definition step_post ::
  "addr multiset \<Rightarrow> resources \<Rightarrow> (MMDB_s \<Rightarrow> bool) \<Rightarrow> mmdb_status \<Rightarrow> MMDB_s \<times> resources \<Rightarrow> bool" where
  "step_post base h0 P st s \<longleftrightarrow> (st = MMDB_SUCCESS \<longrightarrow> P (fst s)) \<and>
     (\<exists>leak. handle base h0 leak (fst s) (snd s) \<and> size leak \<le> 1 \<and>
        (st \<noteq> MMDB_OUT_OF_MEMORY_ERROR \<longrightarrow> leak = {#}))"

lemma step_chk:
  assumes "wp run (step_post base h0 P)"
    and "\<And>db h. handle base h0 {#} db h \<Longrightarrow> P db \<Longrightarrow> wp (f (db, h)) (step_post base h0 Q)"
  shows "wp (chk run f) (step_post base h0 Q)"
  unfolding wp_chk_with
  by (rule wp_mono [OF assms(1)]) (use assms(2) in \<open>auto simp: step_post_def\<close>)

lemma handle_cong:
  assumes "handle base h0 rest db h" and "db_filename db' = db_filename db"
    and "file_content db' = file_content db" and "db_metadata db' = db_metadata db"
  shows "handle base h0 rest db' h"
  using assms by (simp add: handle_def freeable_def)

lemma step_post_handle: "handle base h0 {#} db h \<Longrightarrow> (st = MMDB_SUCCESS \<Longrightarrow> P db) \<Longrightarrow> step_post base h0 P st (db, h)"
  by (auto simp: step_post_def intro!: exI [of _ "{#}"])

lemma step_post_fail: "handle base h0 {#} db h \<Longrightarrow> st \<noteq> MMDB_SUCCESS \<Longrightarrow> step_post base h0 P st (db, h)"
  by (rule step_post_handle) simp_all

definition mapped :: "MMDB_s \<Rightarrow> bool" where
  "mapped db \<longleftrightarrow> file_content db = Some 0 \<and> 0 \<le> file_size db \<and> file_size db \<le> SSIZE_MAX \<and>
     length (mapping db) = nat (file_size db)"

text \<open>The bytes behind the last marker are enough for the decoder's bounds checks.\<close>

definition metadata_readable :: "bytes \<Rightarrow> bool" where
  "metadata_readable m \<longleftrightarrow>
     (\<forall>p sz. find_metadata m 0 (int (length m)) = Some (Some (p, sz)) \<longrightarrow> 3 \<le> sz)"

lemma read_metadata_handle:
  assumes "handle base h0 {#} db h" and "fresh_metadata (db_metadata db)" and "wf_section (make_fake_metadata_db db)"
    and "mapped db"
  shows "wp (read_metadata stacks (db, h)) (step_post base h0 (\<lambda>db'. mapped db' \<and> metadata_ok (db_metadata db') \<and> layout_ok db'))"
proof -
  have none: "metadata_blocks (db_metadata db) = {#}"
    using assms(2) by (simp add: fresh_metadata_def metadata_blocks_def language_blocks_def description_blocks_def)
  have own: "owns h (base + block_of (db_filename db)) {#}"
    using assms(1) none by (simp add: handle_def freeable_def owns_def)
  show ?thesis
  proof (rule wp_mono [OF read_metadata_wp [OF assms(3,2) own]])
    fix st s assume post: "read_metadata_post (base + block_of (db_filename db)) db h st s"
    obtain db' h' where s: "s = (db', h')" by fastforce
    have fail: "metadata_fail (base + block_of (db_filename db)) db h st (db', h')"
      using post s by (simp add: read_metadata_post_def)
    then obtain leak where leak: "owns h' (base + block_of (db_filename db)) (metadata_blocks (db_metadata db') + leak)"
      "size leak \<le> 1" "st \<noteq> MMDB_OUT_OF_MEMORY_ERROR \<longrightarrow> leak = {#}"
      by (auto simp: metadata_fail_def)
    have "only_metadata db db'" and files: "same_files h h'" using fail by (simp_all add: metadata_fail_def)
    note same = only_metadata_fields [OF this(1)]
    have "handle base h0 leak db' h'"
      using fail assms(1) leak(1) same files
      by (auto simp: handle_def freeable_def metadata_fail_def owns_def same_files_def ac_simps)
    then show "step_post base h0 (\<lambda>db'. mapped db' \<and> metadata_ok (db_metadata db') \<and> layout_ok db') st s"
      using post s leak(2,3) assms(4) same by (auto simp: step_post_def read_metadata_post_def mapped_def)
  qed
qed

lemma open_metadata_wp:
  assumes handle: "handle base h0 {#} db h" and fresh: "fresh_metadata (db_metadata db)"
    and mapped: "mapped db" and readable: "metadata_readable (mapping db)"
  shows "wp (open_metadata stacks (db, h)) (step_post base h0 (\<lambda>db'. mapped db' \<and> metadata_ok (db_metadata db') \<and>
    layout_ok db' \<and> binary_format_major_version (db_metadata db') = 2))"
proof -
  have size: "file_size db = int (length (mapping db))" and content: "file_content db = Some 0"
    using mapped by (auto simp: mapped_def)
  obtain r where r: "find_metadata (mapping db) 0 (file_size db) = Some r"
    and spec: "\<And>p sz. r = Some (p, sz) \<Longrightarrow> p + unat sz = length (mapping db)"
    using find_metadata_spec [of 0 "file_size db" "mapping db"] size by auto
  show ?thesis
  proof (cases r)
    case None
    then show ?thesis using content r handle by (simp add: open_metadata_def step_post_fail)
  next
    case (Some psz)
    obtain p sz where psz: "psz = (p, sz)" by fastforce
    let ?db = "db\<lparr>metadata_section := Some p, metadata_section_size := sz\<rparr>"
    have "3 \<le> sz" using readable r Some psz size by (simp add: metadata_readable_def)
    then have wf: "wf_section (make_fake_metadata_db ?db)"
      using spec Some psz by (simp add: wf_section_def)
    have handle': "handle base h0 {#} ?db h" by (rule handle_cong [OF handle]) simp_all
    have "mapped ?db" "fresh_metadata (db_metadata ?db)" using mapped fresh by (simp_all add: mapped_def)
    note read = read_metadata_handle [OF handle' this(2) wf this(1)]
    let ?f = "\<lambda>s. if binary_format_major_version (db_metadata (fst s)) \<noteq> 2
             then Some (MMDB_UNKNOWN_DATABASE_FORMAT_ERROR, s) else Some (MMDB_SUCCESS, s)"
    have "wp (chk (read_metadata stacks (?db, h)) ?f) (step_post base h0 (\<lambda>db'. mapped db' \<and>
        metadata_ok (db_metadata db') \<and> layout_ok db' \<and> binary_format_major_version (db_metadata db') = 2))"
      by (rule step_chk [OF read]) (simp add: step_post_fail step_post_handle)
    then show ?thesis using content r Some psz by (simp add: open_metadata_def)
  qed
qed

lemma set_sections_wp:
  assumes "mapped db"
  shows "wp (set_sections db) (\<lambda>st db'. (\<exists>d n. db' = db\<lparr>data_section := d, data_section_size := n\<rparr>) \<and>
    st \<in> {MMDB_SUCCESS, MMDB_INVALID_METADATA_ERROR, MMDB_INVALID_DATA_ERROR} \<and>
    (st = MMDB_SUCCESS \<longrightarrow> sections_ok db'))"
proof -
  let ?n = "search_tree_size db"
  define sz where "sz = file_size db - int ?n - 16"
  have tree: "uint (node_count (db_metadata db)) * uint (full_record_byte_size db) = int ?n"
    by (simp add: search_tree_size_def)
  have content: "file_content db = Some 0" and len: "file_size db = int (length (mapping db))"
    using assms by (auto simp: mapped_def)
  let ?db = "db\<lparr>data_section := Some (?n + 16)\<rparr>"
  let ?db' = "?db\<lparr>data_section_size := word_of_int sz\<rparr>"
  have run: "set_sections db =
    (if \<not> can_multiply (nat SSIZE_MAX) (unat (node_count (db_metadata db))) (unat (full_record_byte_size db))
     then Some (MMDB_INVALID_METADATA_ERROR, db)
     else if file_size db < 16 \<or> int ?n > file_size db - 16 then Some (MMDB_INVALID_METADATA_ERROR, ?db)
     else if sz > UINT32_MAX \<or> sz \<le> 0 then Some (MMDB_INVALID_METADATA_ERROR, ?db)
     else if (word_of_int sz :: u32) < 3 then Some (MMDB_INVALID_DATA_ERROR, ?db')
     else Some (MMDB_SUCCESS, ?db'))"
    unfolding set_sections_def Let_def tree sz_def using content by simp
  have "sections_ok ?db'" if "0 < sz" "sz \<le> UINT32_MAX" "3 \<le> (word_of_int sz :: u32)"
  proof -
    have u: "unat (word_of_int sz :: u32) = nat sz"
      using that(1,2) by (simp add: unat_eq_nat_uint uint_word_of_int take_bit_int_eq_self)
    moreover have "3 \<le> unat (word_of_int sz :: u32)" using that(3) by (simp add: word_le_nat_alt)
    moreover have "?n + 16 + nat sz = length (mapping db)" using that(1) len by (simp add: sz_def)
    ultimately show ?thesis using content by (simp add: sections_ok_def search_tree_size_def)
  qed
  moreover have "\<exists>d n. db = db\<lparr>data_section := d, data_section_size := n\<rparr>"
    by (intro exI [of _ "data_section db"] exI [of _ "data_section_size db"]) simp
  moreover have "\<exists>d n. ?db = db\<lparr>data_section := d, data_section_size := n\<rparr>"
    by (intro exI [of _ "Some (?n + 16)"] exI [of _ "data_section_size db"]) simp
  moreover have "\<exists>d n. ?db' = db\<lparr>data_section := d, data_section_size := n\<rparr>" by blast
  ultimately show ?thesis unfolding run by (simp add: not_less not_le)
qed

lemma set_ipv4_start_wp:
  assumes "sections_ok db" and "layout_ok db"
  shows "wp (set_ipv4_start db) (\<lambda>st db'. (\<exists>start. db' = db\<lparr>ipv4_start_node := start\<rparr>) \<and>
    st \<noteq> MMDB_OUT_OF_MEMORY_ERROR \<and> start_ok db')"
proof (cases "ip_version (db_metadata db) = 6")
  case False
  then show ?thesis by (auto simp: set_ipv4_start_def Let_def start_ok_def)
next
  case True
  let ?db = "db\<lparr>ipv4_start_node := \<lparr>start_netmask = 0, node_value = 0\<rparr>\<rparr>"
  have depth: "db_depth db = 128" using assms(2) True by (simp add: layout_ok_def)
  have "wf_tree ?db" using sections_ok_wf [OF assms(1)] by (simp add: wf_tree_def)
  note start = find_ipv4_start_node_wp [OF this]
  have eq: "set_ipv4_start db = find_ipv4_start_node ?db" using True by (simp add: set_ipv4_start_def Let_def)
  show ?thesis
    unfolding eq
  proof (rule wp_mono [OF start], goal_cases)
    case (1 st db')
    then obtain start where db': "db' = ?db\<lparr>ipv4_start_node := start\<rparr>"
      and le: "start = ipv4_start_node ?db \<or> start_netmask start \<le> 96" by blast
    have "unat (start_netmask start) \<le> 96" using le by (auto simp: word_le_nat_alt)
    then have "start_netmask start \<le> 128" by (simp add: word_le_nat_alt)
    then have "start_ok db'" using db' depth by (simp add: start_ok_def)
    moreover have "\<exists>start. db' = db\<lparr>ipv4_start_node := start\<rparr>" unfolding db' by (intro exI [of _ start]) simp
    moreover have "st \<noteq> MMDB_OUT_OF_MEMORY_ERROR" using 1 by (auto simp: tree_status_def)
    ultimately show ?case by simp
  qed
qed

definition metadata_at_end :: "os_answers \<Rightarrow> bool" where
  "metadata_at_end os \<longleftrightarrow> (\<forall>m. os_mmap os = Inr m \<longrightarrow> metadata_readable m)"

text \<open>After a failure of \<open>MMDB_open\<close> everything is released; see \<open>metadata_fail\<close> for the leak.\<close>

definition released :: "resources \<Rightarrow> mmdb_status \<Rightarrow> resources \<Rightarrow> bool" where
  "released h0 st h \<longleftrightarrow> open_fds h = open_fds h0 \<and> mappings h = mappings h0 \<and>
     (\<exists>leak. live h = live h0 + leak \<and> size leak \<le> 1 \<and> (st \<noteq> MMDB_OUT_OF_MEMORY_ERROR \<longrightarrow> leak = {#}))"

lemma opened_update:
  assumes "mapped db" and "metadata_ok (db_metadata db)" and "layout_ok db"
    and "binary_format_major_version (db_metadata db) = 2"
    and "handle base h0 {#} db h"
  shows "wp (chk_with (\<lambda>db. (db, h)) (set_sections db) (\<lambda>db. map_option (\<lambda>(st, db). (st, (db, h))) (set_ipv4_start db)))
    (step_post base h0 opened)"
  unfolding wp_chk_with
proof (rule wp_mono [OF set_sections_wp [OF assms(1)]], goal_cases)
  case (1 st db1)
  then obtain d n where db1: "db1 = db\<lparr>data_section := d, data_section_size := n\<rparr>" by blast
  have handle1: "handle base h0 {#} db1 h" by (rule handle_cong [OF assms(5)]) (simp_all add: db1)
  show ?case
  proof (cases "st = MMDB_SUCCESS")
    case False
    then show ?thesis using handle1 by (simp add: step_post_fail)
  next
    case True
    have sec: "sections_ok db1" and lay: "layout_ok db1"
      using 1 True assms(3) by (simp_all add: db1 layout_ok_def)
    obtain st2 db2 where run: "set_ipv4_start db1 = Some (st2, db2)"
      and db2: "\<exists>start. db2 = db1\<lparr>ipv4_start_node := start\<rparr>" and ok: "start_ok db2"
      using set_ipv4_start_wp [OF sec lay] by (auto simp: wp_iff_ex)
    then obtain start where start: "db2 = db1\<lparr>ipv4_start_node := start\<rparr>" by blast
    have "handle base h0 {#} db2 h" by (rule handle_cong [OF handle1]) (simp_all add: start)
    moreover have "opened db2"
      using sec lay ok assms(2,4)
      by (simp add: opened_def start db1 sections_ok_def search_tree_size_def layout_ok_def)
    ultimately show ?thesis using run True by (simp add: step_post_handle)
  qed
qed

lemma MMDB_open_wp:
  assumes os: "os_ok os" and readable: "metadata_at_end os"
  shows "wp (MMDB_open os stacks filename flags (db0, h0)) (\<lambda>st (db, h).
    if st = MMDB_SUCCESS then opened db \<and> handle (live h0) h0 {#} db h
    else handle_closed db \<and> released h0 st h)"
proof -
  let ?base = "live h0"
  obtain copy h1 where dup: "mmdb_strdup filename h0 = (copy, h1)" by fastforce
  let ?db = "(clear_handle db0)\<lparr>db_filename := copy\<rparr>"
  have "owns h0 ?base {#}" by (simp add: owns_def)
  note own = mmdb_strdup_owns [OF this dup]
  have fresh: "fresh_metadata (db_metadata ?db)" by (simp add: clear_handle_def fresh_metadata_def)
  have inv: "metadata_blocks (db_metadata ?db) = {#}" "languages_inv (db_metadata ?db)" "descriptions_inv (db_metadata ?db)"
    by (simp_all add: clear_handle_def metadata_blocks_def language_blocks_def description_blocks_def
        languages_inv_def descriptions_inv_def)
  have handle: "handle ?base h0 {#} ?db h1"
    using own inv by (simp add: handle_def freeable_def clear_handle_def same_files_def)
  let ?body = "if copy = None then Some (MMDB_OUT_OF_MEMORY_ERROR, (?db, h1)) else
    chk (map_file os (set_flags flags ?db, h1)) (\<lambda>s.
    chk (open_metadata stacks s) (\<lambda>(db, h).
    chk_with (\<lambda>db. (db, h)) (set_sections db) (\<lambda>db. map_option (\<lambda>(st, db). (st, (db, h))) (set_ipv4_start db))))"
  have body: "wp ?body (step_post ?base h0 opened)"
  proof (cases "copy = None")
    case True
    then show ?thesis using handle by (simp add: step_post_fail)
  next
    case False
    have handle': "handle ?base h0 {#} (set_flags flags ?db) h1"
      by (rule handle_cong [OF handle]) (simp_all add: set_flags_def)
    have map: "wp (map_file os (set_flags flags ?db, h1)) (step_post ?base h0
        (\<lambda>db. mapped db \<and> fresh_metadata (db_metadata db) \<and> metadata_readable (mapping db)))"
    proof (rule wp_mono [OF map_file_wp [OF handle' _ _ os]])
      show "file_content (set_flags flags ?db) = None" "db_filename (set_flags flags ?db) \<noteq> None"
        using False by (simp_all add: set_flags_def clear_handle_def)
      fix st s
      assume post: "case s of (db', h') \<Rightarrow> handle ?base h0 {#} db' h' \<and> db_metadata db' = db_metadata (set_flags flags ?db) \<and>
        st \<in> {MMDB_SUCCESS, MMDB_FILE_OPEN_ERROR, MMDB_OUT_OF_MEMORY_ERROR, MMDB_IO_ERROR} \<and>
        (st = MMDB_SUCCESS \<longrightarrow> os_mmap os = Inr (mapping db') \<and> file_size db' = st_size os \<and>
          file_content db' = Some 0 \<and> 0 \<le> file_size db' \<and> file_size db' \<le> SSIZE_MAX \<and>
          length (mapping db') = nat (file_size db'))"
      show "step_post ?base h0 (\<lambda>db. mapped db \<and> fresh_metadata (db_metadata db) \<and> metadata_readable (mapping db)) st s"
        using post fresh readable
        by (cases s, cases "st = MMDB_SUCCESS")
          (simp_all add: step_post_handle step_post_fail mapped_def metadata_at_end_def set_flags_def)
    qed
    show ?thesis
      unfolding if_not_P [OF False]
    proof (rule step_chk [OF map])
      fix db h
      assume h: "handle ?base h0 {#} db h"
        and P: "mapped db \<and> fresh_metadata (db_metadata db) \<and> metadata_readable (mapping db)"
      then have "wp (open_metadata stacks (db, h)) (step_post ?base h0 (\<lambda>db'. mapped db' \<and> metadata_ok (db_metadata db') \<and>
          layout_ok db' \<and> binary_format_major_version (db_metadata db') = 2))"
        by (intro open_metadata_wp) auto
      then show "wp (chk (open_metadata stacks (db, h)) (\<lambda>(db, h).
          chk_with (\<lambda>db. (db, h)) (set_sections db) (\<lambda>db. map_option (\<lambda>(st, db). (st, (db, h))) (set_ipv4_start db))))
          (step_post ?base h0 opened)"
        by (rule step_chk) (simp add: opened_update)
    qed
  qed
  then obtain st db h leak where run: "?body = Some (st, (db, h))" and ok: "st = MMDB_SUCCESS \<Longrightarrow> opened db"
    and h: "handle ?base h0 leak db h" and leak: "size leak \<le> 1" "st \<noteq> MMDB_OUT_OF_MEMORY_ERROR \<longrightarrow> leak = {#}"
    by (auto simp: wp_iff_ex step_post_def)
  have open_eq: "MMDB_open os stacks filename flags (db0, h0) =
      Option.bind (if st \<noteq> MMDB_SUCCESS then free_mmdb_struct (db, h) else Some (db, h)) (\<lambda>s. Some (st, s))"
    using run dup by (simp add: MMDB_open_def Let_def split del: if_split)
  obtain db' h' where "free_mmdb_struct (db, h) = Some (db', h')" "handle_closed db'" "owns h' ?base leak"
    "open_fds h' = open_fds h" "mappings h' = mappings h - (if file_content db = None then 0 else 1)"
    using free_mmdb_struct_owns [of ?base leak db h] h by (auto simp: handle_def)
  then show ?thesis
    using ok h leak by (auto simp: open_eq handle_def released_def owns_def)
qed

end
