(* ===== verification/Dump.thy ===== *)
theory Dump
  imports Metadata
begin

text \<open>
  \<open>MMDB_dump_entry_data_list\<close>, the recursive \<open>dump_entry_data_list\<close>, \<open>print_indentation\<close> and
  \<open>bytes_to_hex\<close> of \<open>src/maxminddb.c\<close>, with the conversions of \<open>printf\<close> that they use. A
  pointer into the linked list is the list of the entries from that element on, so \<open>NULL\<close> is the
  empty list; the stream is the bytes written to it. The first argument of the recursion bounds
  its depth, as the stack of the process does.
\<close>

section \<open>Conversions of printf\<close>

definition digit_char :: "nat \<Rightarrow> u8" where
  "digit_char d = word_of_nat (if d < 10 then 48 + d else 55 + d)"

text \<open>\<open>%u\<close>, \<open>%d\<close>, and \<open>%0nX\<close> for a number that fits \<open>n\<close> digits.\<close>

function decimal :: "nat \<Rightarrow> bytes" where
  "decimal n = (if n < 10 then [digit_char n] else decimal (n div 10) @ [digit_char (n mod 10)])"
  by pat_completeness auto
termination by (relation "measure id") auto

declare decimal.simps [simp del]

definition signed_decimal :: "int \<Rightarrow> bytes" where
  "signed_decimal i = (if i < 0 then ascii ''-'' @ decimal (nat (- i)) else decimal (nat i))"

fun hex_digits :: "nat \<Rightarrow> nat \<Rightarrow> bytes" where
  "hex_digits 0 v = []"
| "hex_digits (Suc n) v = hex_digits n (v div 16) @ [digit_char (v mod 16)]"

text \<open>\<open>%f\<close>: six decimals of \<open>num / den\<close>, rounded to nearest, ties to even.\<close>

definition round_half_even :: "nat \<Rightarrow> nat \<Rightarrow> nat" where
  "round_half_even num den =
    (let q = num div den; r = num mod den
     in if 2 * r < den \<or> 2 * r = den \<and> even q then q else q + 1)"

definition fixed_six :: "bool \<Rightarrow> nat \<Rightarrow> nat \<Rightarrow> bytes" where
  "fixed_six negative num den =
    (let n = round_half_even (num * 1000000) den; frac = decimal (n mod 1000000)
     in (if negative then ascii ''-'' else []) @ decimal (n div 1000000) @ ascii ''.'' @
        replicate (6 - length frac) 48 @ frac)"

text \<open>
  A binary floating point number with \<open>eb\<close> exponent and \<open>fb\<close> fraction bits, given by its bit
  pattern.
\<close>

definition format_ieee :: "nat \<Rightarrow> nat \<Rightarrow> nat \<Rightarrow> bytes" where
  "format_ieee eb fb w =
    (let negative = odd (w div 2 ^ (eb + fb)); e = w div 2 ^ fb mod 2 ^ eb; f = w mod 2 ^ fb;
         bias = 2 ^ (eb - 1) - 1; sign = (if negative then ascii ''-'' else [])
     in if e = 2 ^ eb - 1 then sign @ (if f = 0 then ascii ''inf'' else ascii ''nan'')
        else
          let mant = (if e = 0 then f else 2 ^ fb + f); expo = (if e = 0 then 1 else e)
          in if expo \<ge> bias + fb then fixed_six negative (mant * 2 ^ (expo - (bias + fb))) 1
             else fixed_six negative mant (2 ^ (bias + fb - expo)))"

definition format_double :: "u64 \<Rightarrow> bytes" where
  "format_double w = format_ieee 11 52 (unat w)"

definition format_float :: "u32 \<Rightarrow> bytes" where
  "format_float w = format_ieee 8 23 (unat w)"

section \<open>print\_indentation and bytes\_to\_hex\<close>

text \<open>The bytes that \<open>print_indentation\<close> writes.\<close>

definition print_indentation :: "int \<Rightarrow> bytes" where
  "print_indentation i = replicate (nat (if i < 0 then 0 else if i \<ge> 1024 then 1023 else i)) 32"

text \<open>
  The buffer has \<open>(size * 2) + 1\<close> bytes, computed in 32 bits; each \<open>sprintf\<close> writes two digits and
  the terminator. A write behind the buffer is an invalid access.
\<close>

definition bytes_to_hex :: "bytes \<Rightarrow> ptr \<Rightarrow> u32 \<Rightarrow> resources \<Rightarrow> (bytes owned option \<times> resources) option" where
  "bytes_to_hex m p sz h =
    (case c_malloc h of
       (None, h) \<Rightarrow> Some (None, h)
     | (Some a, h) \<Rightarrow> do {
         bs \<leftarrow> rd_block m p (unat sz);
         if 2 * unat sz + 1 \<le> unat (sz * 2 + 1)
         then Some (Some (a, concat (map (\<lambda>b. hex_digits 2 (unat b)) bs)), h)
         else None })"

section \<open>dump\_entry\_data\_list\<close>

type_synonym dump_state = "MMDB_entry_data_s list \<times> bytes \<times> resources"

text \<open>An allocated string that is printed between \<open>pre\<close> and \<open>post\<close> and freed.\<close>

definition print_and_free ::
  "bytes \<Rightarrow> (bytes owned option \<times> resources) option \<Rightarrow> bytes \<Rightarrow> dump_state \<Rightarrow> dump_state run" where
  "print_and_free pre copy post s =
    (case s of (es, out, h) \<Rightarrow> do {
       (copy, h) \<leftarrow> copy;
       case copy of
         None \<Rightarrow> Some (MMDB_OUT_OF_MEMORY_ERROR, ([], out, h))
       | Some (a, str) \<Rightarrow> do {
           h \<leftarrow> c_free a h;
           Some (MMDB_SUCCESS, (es, out @ pre @ str @ post, h)) } })"

text \<open>The loop over the members of a map; \<open>get\<close> dumps a value.\<close>

fun dump_members ::
  "bytes \<Rightarrow> (dump_state \<Rightarrow> dump_state run) \<Rightarrow> int \<Rightarrow> nat \<Rightarrow> dump_state \<Rightarrow> dump_state run" where
  "dump_members m get indent 0 s = Some (MMDB_SUCCESS, s)"
| "dump_members m get indent (Suc n) (es, out, h) =
    (case es of
       [] \<Rightarrow> Some (MMDB_SUCCESS, ([], out, h))
     | key # es \<Rightarrow>
         if ed_type key \<noteq> MMDB_DATA_TYPE_UTF8_STRING then Some (MMDB_INVALID_DATA_ERROR, ([], out, h))
         else do {
           str \<leftarrow> union_utf8_string (ed_value key);
           chk (print_and_free (print_indentation indent @ ascii ''\"'')
               (mmdb_strndup m str (unat (data_size key)) h) (ascii ''\": '' @ [10]) (es, out, h)) (\<lambda>s.
           chk (get s) (dump_members m get indent n)) })"

text \<open>The loop over the elements of an array.\<close>

fun dump_elements :: "(dump_state \<Rightarrow> dump_state run) \<Rightarrow> nat \<Rightarrow> dump_state \<Rightarrow> dump_state run" where
  "dump_elements get 0 s = Some (MMDB_SUCCESS, s)"
| "dump_elements get (Suc n) s =
    (if fst s = [] then Some (MMDB_SUCCESS, s) else chk (get s) (dump_elements get n))"

definition put_line :: "bytes \<Rightarrow> dump_state \<Rightarrow> dump_state run" where
  "put_line line s = (case s of (es, out, h) \<Rightarrow> Some (MMDB_SUCCESS, (es, out @ line, h)))"

text \<open>The cases without members; \<open>rest\<close> is \<open>entry_data_list->next\<close>.\<close>

definition dump_scalar :: "bytes \<Rightarrow> int \<Rightarrow> MMDB_entry_data_s \<Rightarrow> dump_state \<Rightarrow> dump_state run" where
  "dump_scalar m indent e s =
    (let t = ed_type e; ind = print_indentation indent; h = snd (snd s) in
     if t = MMDB_DATA_TYPE_UTF8_STRING then do {
       str \<leftarrow> union_utf8_string (ed_value e);
       print_and_free (ind @ ascii ''\"'') (mmdb_strndup m str (unat (data_size e)) h)
         (ascii ''\" <utf8_string>'' @ [10]) s }
     else if t = MMDB_DATA_TYPE_BYTES then do {
       p \<leftarrow> union_bytes (ed_value e);
       print_and_free ind (bytes_to_hex m p (data_size e) h) (ascii '' <bytes>'' @ [10]) s }
     else if t = MMDB_DATA_TYPE_DOUBLE then do {
       w \<leftarrow> union_double (ed_value e);
       put_line (ind @ format_double w @ ascii '' <double>'' @ [10]) s }
     else if t = MMDB_DATA_TYPE_FLOAT then do {
       w \<leftarrow> union_float (ed_value e);
       put_line (ind @ format_float w @ ascii '' <float>'' @ [10]) s }
     else if t = MMDB_DATA_TYPE_UINT16 then do {
       w \<leftarrow> union_uint16 (ed_value e);
       put_line (ind @ decimal (unat w) @ ascii '' <uint16>'' @ [10]) s }
     else if t = MMDB_DATA_TYPE_UINT32 then do {
       w \<leftarrow> union_uint32 (ed_value e);
       put_line (ind @ decimal (unat w) @ ascii '' <uint32>'' @ [10]) s }
     else if t = MMDB_DATA_TYPE_BOOLEAN then do {
       b \<leftarrow> union_boolean (ed_value e);
       put_line (ind @ ascii (if b then ''true'' else ''false'') @ ascii '' <boolean>'' @ [10]) s }
     else if t = MMDB_DATA_TYPE_UINT64 then do {
       w \<leftarrow> union_uint64 (ed_value e);
       put_line (ind @ decimal (unat w) @ ascii '' <uint64>'' @ [10]) s }
     else if t = MMDB_DATA_TYPE_UINT128 then do {
       w \<leftarrow> union_uint128 (ed_value e);
       let high = (ucast (drop_bit 64 w) :: u64);
       let low = (ucast w :: u64);
       put_line (ind @ ascii ''0x'' @ hex_digits 16 (unat high) @ hex_digits 16 (unat low) @
         ascii '' <uint128>'' @ [10]) s }
     else if t = MMDB_DATA_TYPE_INT32 then do {
       w \<leftarrow> union_int32 (ed_value e);
       put_line (ind @ signed_decimal (sint w) @ ascii '' <int32>'' @ [10]) s }
     else case s of (es, out, h) \<Rightarrow> Some (MMDB_INVALID_DATA_ERROR, ([], out, h)))"

fun dump_entry_data_list :: "nat \<Rightarrow> bytes \<Rightarrow> int \<Rightarrow> dump_state \<Rightarrow> dump_state run" where
  "dump_entry_data_list 0 m indent s = None"
| "dump_entry_data_list (Suc depth) m indent (es, out, h) =
    (case es of
       [] \<Rightarrow> None
     | e # rest \<Rightarrow>
         let ind = print_indentation indent in
         if ed_type e = MMDB_DATA_TYPE_MAP then
           chk (dump_members m (dump_entry_data_list depth m (indent + 4)) (indent + 2)
               (unat (data_size e)) (rest, out @ ind @ ascii ''{'' @ [10], h))
             (put_line (ind @ ascii ''}'' @ [10]))
         else if ed_type e = MMDB_DATA_TYPE_ARRAY then
           chk (dump_elements (dump_entry_data_list depth m (indent + 2))
               (unat (data_size e)) (rest, out @ ind @ ascii ''['' @ [10], h))
             (put_line (ind @ ascii '']'' @ [10]))
         else dump_scalar m indent e (rest, out, h))"

definition MMDB_dump_entry_data_list ::
  "nat \<Rightarrow> bytes \<Rightarrow> int \<Rightarrow> MMDB_entry_data_s list \<Rightarrow> bytes \<times> resources \<Rightarrow> (bytes \<times> resources) run" where
  "MMDB_dump_entry_data_list depth m indent es s =
     map_option (\<lambda>(st, es, s). (st, s)) (dump_entry_data_list depth m indent (es, s))"

section \<open>The text of a value\<close>

text \<open>What is printed for a value, independent of the list it comes in.\<close>

definition quoted :: "bytes \<Rightarrow> bytes" where
  "quoted str = ascii ''\"'' @ takeWhile (\<lambda>b. b \<noteq> 0) str @ ascii ''\"''"

fun scalar_text :: "mmdb_value \<Rightarrow> bytes" where
  "scalar_text (V_string str) = quoted str @ ascii '' <utf8_string>''"
| "scalar_text (V_bytes bs) = concat (map (\<lambda>b. hex_digits 2 (unat b)) bs) @ ascii '' <bytes>''"
| "scalar_text (V_double w) = format_double w @ ascii '' <double>''"
| "scalar_text (V_float w) = format_float w @ ascii '' <float>''"
| "scalar_text (V_uint16 w) = decimal (unat w) @ ascii '' <uint16>''"
| "scalar_text (V_uint32 w) = decimal (unat w) @ ascii '' <uint32>''"
| "scalar_text (V_int32 w) = signed_decimal (sint w) @ ascii '' <int32>''"
| "scalar_text (V_uint64 w) = decimal (unat w) @ ascii '' <uint64>''"
| "scalar_text (V_uint128 w) = ascii ''0x'' @ hex_digits 32 (unat w) @ ascii '' <uint128>''"
| "scalar_text (V_bool b) = ascii (if b then ''true'' else ''false'') @ ascii '' <boolean>''"
| "scalar_text _ = []"

fun value_text :: "int \<Rightarrow> mmdb_value \<Rightarrow> bytes" where
  "value_text i (V_map kvs) =
     print_indentation i @ ascii ''{'' @ [10] @
     concat (map (\<lambda>(k, v). print_indentation (i + 2) @ quoted k @ ascii '': '' @ [10] @ value_text (i + 4) v) kvs) @
     print_indentation i @ ascii ''}'' @ [10]"
| "value_text i (V_array vs) =
     print_indentation i @ ascii ''['' @ [10] @ concat (map (value_text (i + 2)) vs) @
     print_indentation i @ ascii '']'' @ [10]"
| "value_text i v = print_indentation i @ scalar_text v @ [10]"

fun nesting :: "mmdb_value \<Rightarrow> nat" where
  "nesting (V_map kvs) = Suc (foldr max (map (\<lambda>(k, v). nesting v) kvs) 0)"
| "nesting (V_array vs) = Suc (foldr max (map nesting vs) 0)"
| "nesting v = 1"

section \<open>Digits\<close>

lemma hex_digits_append: "hex_digits (m + n) v = hex_digits m (v div 16 ^ n) @ hex_digits n v"
proof (induction n arbitrary: v)
  case (Suc n)
  have "v div 16 div 16 ^ n = v div 16 ^ Suc n" by (simp add: div_mult2_eq)
  then show ?case using Suc.IH [of "v div 16"] by simp
qed simp

lemma hex_digits_mod: "hex_digits n (v mod 16 ^ n) = hex_digits n v"
proof (induction n arbitrary: v)
  case (Suc n)
  have "v mod 16 ^ Suc n div 16 = v div 16 mod 16 ^ n" by (simp add: mod_mult2_eq)
  moreover have "v mod 16 ^ Suc n mod 16 = v mod 16" by (simp add: mod_mult2_eq)
  ultimately show ?case using Suc.IH [of "v div 16"] by simp
qed simp

lemma hex_digits_halves:
  fixes w :: u128
  shows "hex_digits 16 (unat (ucast (drop_bit 64 w) :: u64)) @ hex_digits 16 (unat (ucast w :: u64)) =
    hex_digits 32 (unat w)"
proof -
  have "unat (drop_bit 64 w) = unat w div 2 ^ 64" by (simp add: drop_bit_eq_div unat_div)
  then have "unat (ucast (drop_bit 64 w) :: u64) = unat w div 2 ^ 64 mod 2 ^ 64"
    by (simp add: unsigned_ucast_eq take_bit_eq_mod)
  moreover have "unat (ucast w :: u64) = unat w mod 16 ^ 16"
    by (simp add: unsigned_ucast_eq take_bit_eq_mod)
  moreover have "unat w div 2 ^ 64 < 2 ^ 64"
  proof -
    have "unat w < 2 ^ 128" using unsigned_less [of w] by simp
    then show ?thesis by (simp add: less_mult_imp_div_less)
  qed
  ultimately show ?thesis
    using hex_digits_append [of 16 16 "unat w"] hex_digits_mod [of 16 "unat w"] by simp
qed

section \<open>The dump of a list\<close>

text \<open>The outcome of a step: on success its text has been printed and the cursor stands at \<open>rest\<close>.\<close>

definition dump_post ::
  "resources \<Rightarrow> MMDB_entry_data_s list \<Rightarrow> bytes \<Rightarrow> mmdb_status \<Rightarrow> dump_state \<Rightarrow> bool" where
  "dump_post h rest out st s \<longleftrightarrow>
    (case s of (es', out', h') \<Rightarrow>
       live h' = live h \<and> same_files h h' \<and> alloc_ok h' = alloc_ok h \<and>
       (if st = MMDB_SUCCESS then es' = rest \<and> out' = out
        else st = MMDB_OUT_OF_MEMORY_ERROR \<and> (\<exists>k. \<not> alloc_ok h k)))"

lemma dump_chk:
  assumes "wp run (dump_post h rest out)"
    and "\<And>h'. live h' = live h \<Longrightarrow> same_files h h' \<Longrightarrow> alloc_ok h' = alloc_ok h \<Longrightarrow>
      wp (f (rest, out, h')) (dump_post h' rest' out')"
  shows "wp (chk run f) (dump_post h rest' out')"
  unfolding wp_chk_with
proof (rule wp_mono [OF assms(1)])
  fix st s assume post: "dump_post h rest out st s"
  obtain es o1 h' where s: "s = (es, o1, h')" by (cases s) auto
  show "if st = MMDB_SUCCESS then wp (f s) (dump_post h rest' out') else dump_post h rest' out' st s"
  proof (cases "st = MMDB_SUCCESS")
    case True
    then have h': "live h' = live h" "same_files h h'" "alloc_ok h' = alloc_ok h" and eq: "es = rest" "o1 = out"
      using post s by (simp_all add: dump_post_def)
    have "wp (f (rest, out, h')) (dump_post h' rest' out')" by (rule assms(2) [OF h'])
    then have "wp (f (rest, out, h')) (dump_post h rest' out')"
      by (rule wp_mono) (use h' same_files_trans in \<open>auto simp: dump_post_def split: if_splits\<close>)
    then show ?thesis using True s eq by simp
  qed (use post in \<open>auto simp: dump_post_def\<close>)
qed

lemma put_line_wp: "out' = out @ line \<Longrightarrow> wp (put_line line (es, out, h)) (dump_post h es out')"
  by (simp add: put_line_def dump_post_def)

text \<open>A copy is freed again, so the resources are as before.\<close>

lemma print_and_free_wp:
  assumes copy: "copy = Some (r, h1)" and r: "\<And>a t. r = Some (a, t) \<Longrightarrow> t = str"
    and live: "live h1 = block_of r + live h" and same: "same_files h h1" "alloc_ok h1 = alloc_ok h"
    and fail: "r = None \<Longrightarrow> \<exists>k. \<not> alloc_ok h k"
  shows "wp (print_and_free pre copy post (es, out, h)) (dump_post h es (out @ pre @ str @ post))"
proof (cases r)
  case None
  then show ?thesis using copy live same fail by (simp add: print_and_free_def dump_post_def)
next
  case (Some at)
  obtain a where a: "r = Some (a, str)" using r Some by (cases at) auto
  then have "live h1 = add_mset a (live h)" using live by simp
  then show ?thesis
    using c_free_live [of h1 a "live h"] copy a same
    by (auto simp: print_and_free_def dump_post_def c_free_def same_files_def)
qed

lemma c_malloc_fails: "c_malloc h = (r, h') \<Longrightarrow> alloc_ok h' = alloc_ok h \<and> (r = None \<longrightarrow> \<not> alloc_ok h (next_addr h))"
  by (auto simp: c_malloc_def Let_def split: if_splits)

lemma print_strndup_wp:
  assumes bs: "c_str_block m str n = Some bs"
  shows "wp (print_and_free pre (mmdb_strndup m str n h) post (es, out, h))
    (dump_post h es (out @ pre @ takeWhile (\<lambda>b. b \<noteq> 0) bs @ post))"
proof -
  have "owns h (live h) {#}" by (simp add: owns_def)
  from mmdb_strndup_owns [OF bs this] obtain r h1 where r: "mmdb_strndup m str n h = Some (r, h1)"
    "owns h1 (live h) (block_of r + {#})" "same_files h h1"
    "\<forall>a s. r = Some (a, s) \<longrightarrow> s = takeWhile (\<lambda>b. b \<noteq> 0) bs" by blast
  have "alloc_ok h1 = alloc_ok h" "r = None \<Longrightarrow> \<exists>k. \<not> alloc_ok h k"
    using r(1) c_malloc_fails [of h] by (auto simp: mmdb_strndup_def split: bind_splits prod.splits option.splits)
  with r(2-4) show ?thesis
    by (intro print_and_free_wp [OF r(1)]) (auto simp: owns_def)
qed

lemma print_hex_wp:
  assumes bs: "rd_block m p (unat sz) = Some bs" and sz: "unat sz < 2 ^ 31"
  shows "wp (print_and_free pre (bytes_to_hex m p sz h) post (es, out, h))
    (dump_post h es (out @ pre @ concat (map (\<lambda>b. hex_digits 2 (unat b)) bs) @ post))"
proof -
  have "unat (sz * 2 + 1) = 2 * unat sz + 1"
  proof -
    have "sz * 2 + 1 = word_of_nat (2 * unat sz + 1)" by (simp add: mult.commute add.commute)
    then show ?thesis using sz unat_of_nat_u32 [of "2 * unat sz + 1"] by (simp only:) simp
  qed
  moreover obtain r h1 where m: "c_malloc h = (r, h1)" by fastforce
  ultimately have "bytes_to_hex m p sz h =
      Some (map_option (\<lambda>a. (a, concat (map (\<lambda>b. hex_digits 2 (unat b)) bs))) r, h1)"
    using bs by (cases r) (simp_all add: bytes_to_hex_def)
  then show ?thesis
  proof (rule print_and_free_wp)
    show "alloc_ok h1 = alloc_ok h" "same_files h h1"
      using c_malloc_live [OF m] c_malloc_fails [OF m] by (simp_all add: same_files_def)
    show "live h1 = block_of (map_option (\<lambda>a. (a, concat (map (\<lambda>b. hex_digits 2 (unat b)) bs))) r) + live h"
      using c_malloc_live [OF m] by (cases r) simp_all
    show "\<exists>k. \<not> alloc_ok h k" if "map_option (\<lambda>a. (a, concat (map (\<lambda>b. hex_digits 2 (unat b)) bs))) r = None"
      using c_malloc_fails [OF m] that by auto
  qed auto
qed

section \<open>Lists of a value\<close>

text \<open>Byte strings that are short enough for \<open>bytes_to_hex\<close>.\<close>

fun head_short :: "head \<Rightarrow> bool" where
  "head_short (H_scalar (V_bytes bs)) = (length bs < 2 ^ 31)"
| "head_short _ = True"

abbreviation lists_value :: "MMDB_s \<Rightarrow> MMDB_entry_data_s list \<Rightarrow> head list \<Rightarrow> bool" where
  "lists_value db es xs \<equiv> map (entry_head db) es = map Some xs \<and> list_all head_short xs"

lemma lists_value_Cons:
  assumes "lists_value db es (x # xs)"
  obtains e es' where "es = e # es'" and "entry_head db e = Some x" and "head_short x" and "lists_value db es' xs"
  using assms by (cases es) auto

lemma lists_value_append:
  assumes "lists_value db es (xs @ ys)"
  obtains es1 es2 where "es = es1 @ es2" and "lists_value db es1 xs" and "lists_value db es2 ys"
proof -
  have "map (entry_head db) (take (length xs) es) = map Some xs"
    "map (entry_head db) (drop (length xs) es) = map Some ys"
    using assms by (simp_all add: take_map [symmetric] drop_map [symmetric])
  then show ?thesis using assms that [of "take (length xs) es" "drop (length xs) es"] by simp
qed

lemma dump_string_wp:
  assumes "entry_head db e = Some (H_scalar (V_string str))"
  shows "ed_type e = MMDB_DATA_TYPE_UTF8_STRING \<and>
    (\<exists>s. ed_value e = Utf8_string_val s \<and> c_str_block (mapping db) s (unat (data_size e)) = Some str)"
  using assms
  by (auto simp: entry_head_def scalar_value_string str_bytes_block split: if_splits)

lemma dump_scalar_wp:
  assumes head: "entry_head db e = Some (H_scalar v)" and short: "head_short (H_scalar v)"
  shows "wp (dump_scalar (mapping db) indent e (es, out, h))
    (dump_post h es (out @ print_indentation indent @ scalar_text v @ [10]))"
proof -
  have v: "scalar_value db (ed_type e) (data_size e) (ed_value e) = Some v"
    using head by (auto simp: entry_head_def split: if_splits)
  show ?thesis
  proof (cases "ed_value e")
    case (Utf8_string_val s)
    then obtain str where str: "v = V_string str" "ed_type e = MMDB_DATA_TYPE_UTF8_STRING"
      "c_str_block (mapping db) s (unat (data_size e)) = Some str"
      using v by (auto simp: str_bytes_block split: if_splits)
    show ?thesis
      using print_strndup_wp [OF str(3), of "print_indentation indent @ ascii ''\"''" h
          "ascii ''\" <utf8_string>'' @ [10]" es out] str Utf8_string_val
      by (simp add: dump_scalar_def quoted_def ascii_def)
  next
    case (Bytes_val p)
    then obtain bs where bs: "v = V_bytes bs" "ed_type e = MMDB_DATA_TYPE_BYTES"
      "rd_block (mapping db) p (unat (data_size e)) = Some bs"
      using v by (auto split: if_splits)
    then have "unat (data_size e) < 2 ^ 31" using short by (auto simp: rd_block_eq_Some_iff)
    from print_hex_wp [OF bs(3) this] show ?thesis
      using bs Bytes_val by (simp add: dump_scalar_def)
  next
    case (Uint128_val w)
    then have "v = V_uint128 w" "ed_type e = MMDB_DATA_TYPE_UINT128" using v by (auto split: if_splits)
    then show ?thesis
      using Uint128_val hex_digits_halves [of w]
      by (simp add: dump_scalar_def put_line_wp)
  qed (use v in \<open>auto simp: dump_scalar_def put_line_wp split: if_splits\<close>)
qed


lemma dump_members_wp:
  assumes get: "\<And>k v es rest out h. (k, v) \<in> set kvs \<Longrightarrow> lists_value db es (flatten v) \<Longrightarrow>
      wp (get (es @ rest, out, h)) (dump_post h rest (out @ value_text j v))"
    and "lists_value db es (concat (map (\<lambda>(k, v). H_scalar (V_string k) # flatten v) kvs))"
  shows "wp (dump_members (mapping db) get i (length kvs) (es @ rest, out, h))
    (dump_post h rest (out @ concat (map (\<lambda>(k, v).
       print_indentation i @ quoted k @ ascii '': '' @ [10] @ value_text j v) kvs)))"
  using assms
proof (induction kvs arbitrary: es out h)
  case Nil
  then show ?case by (simp add: dump_post_def)
next
  case (Cons kv kvs)
  obtain k v where kv: "kv = (k, v)" by (cases kv)
  obtain e es' where es: "es = e # es'" and e: "entry_head db e = Some (H_scalar (V_string k))"
    and es': "lists_value db es' (flatten v @ concat (map (\<lambda>(k, v). H_scalar (V_string k) # flatten v) kvs))"
    using lists_value_Cons [of db es "H_scalar (V_string k)"] Cons.prems(2) kv by auto
  obtain es1 es2 where split: "es' = es1 @ es2" and es1: "lists_value db es1 (flatten v)"
    and es2: "lists_value db es2 (concat (map (\<lambda>(k, v). H_scalar (V_string k) # flatten v) kvs))"
    using lists_value_append [OF es'] by blast
  obtain s where s: "ed_type e = MMDB_DATA_TYPE_UTF8_STRING" "ed_value e = Utf8_string_val s"
    "c_str_block (mapping db) s (unat (data_size e)) = Some k"
    using dump_string_wp [OF e] by blast
  let ?copy = "mmdb_strndup (mapping db) s (unat (data_size e)) h"
  let ?tail = "concat (map (\<lambda>(k, v). print_indentation i @ quoted k @ ascii '': '' @ [10] @ value_text j v) kvs)"
  let ?key = "(print_indentation i @ ascii ''\"'') @ takeWhile (\<lambda>b. b \<noteq> 0) k @ ascii ''\": '' @ [10]"
  have get': "wp (get (es @ rest, out, h)) (dump_post h rest (out @ value_text j w))"
    if "(k', w) \<in> set kvs" "lists_value db es (flatten w)" for k' w es rest out h
    using that by (intro Cons.prems(1) [of k' w]) simp_all
  have "wp (chk (print_and_free (print_indentation i @ ascii ''\"'') ?copy (ascii ''\": '' @ [10]) (es1 @ es2 @ rest, out, h))
      (\<lambda>s. chk (get s) (dump_members (mapping db) get i (length kvs))))
    (dump_post h rest ((out @ ?key) @ value_text j v @ ?tail))"
  proof (rule dump_chk)
    show "wp (print_and_free (print_indentation i @ ascii ''\"'') ?copy (ascii ''\": '' @ [10]) (es1 @ es2 @ rest, out, h))
        (dump_post h (es1 @ es2 @ rest) (out @ ?key))"
      by (rule print_strndup_wp [OF s(3)])
    show "wp (chk (get (es1 @ es2 @ rest, out @ ?key, h1)) (dump_members (mapping db) get i (length kvs)))
        (dump_post h1 rest ((out @ ?key) @ value_text j v @ ?tail))" for h1
    proof (rule dump_chk)
      show "wp (get (es1 @ es2 @ rest, out @ ?key, h1)) (dump_post h1 (es2 @ rest) ((out @ ?key) @ value_text j v))"
        by (rule Cons.prems(1) [of k v, OF _ es1]) (simp add: kv)
      show "wp (dump_members (mapping db) get i (length kvs) (es2 @ rest, (out @ ?key) @ value_text j v, h2))
          (dump_post h2 rest ((out @ ?key) @ value_text j v @ ?tail))" for h2
        unfolding append_assoc [of "out @ ?key" "value_text j v", symmetric]
        by (rule Cons.IH [OF get' es2])
    qed
  qed
  then show ?case
    unfolding kv es split by (simp add: s(1,2) quoted_def ascii_def)
qed

lemma dump_elements_wp:
  assumes get: "\<And>v es rest out h. v \<in> set vs \<Longrightarrow> lists_value db es (flatten v) \<Longrightarrow>
      wp (get (es @ rest, out, h)) (dump_post h rest (out @ value_text j v))"
    and "lists_value db es (concat (map flatten vs))"
  shows "wp (dump_elements get (length vs) (es @ rest, out, h))
    (dump_post h rest (out @ concat (map (value_text j) vs)))"
  using assms
proof (induction vs arbitrary: es out h)
  case Nil
  then show ?case by (simp add: dump_post_def)
next
  case (Cons v vs)
  obtain es1 es2 where split: "es = es1 @ es2" and es1: "lists_value db es1 (flatten v)"
    and es2: "lists_value db es2 (concat (map flatten vs))"
    using lists_value_append [of db es "flatten v"] Cons.prems(2) by auto
  have "es1 \<noteq> []" using es1 by (auto simp: flatten_not_Nil)
  moreover have "wp (chk (get (es1 @ es2 @ rest, out, h)) (dump_elements get (length vs)))
      (dump_post h rest (out @ concat (map (value_text j) (v # vs))))"
  proof (rule dump_chk)
    show "wp (get (es1 @ es2 @ rest, out, h)) (dump_post h (es2 @ rest) (out @ value_text j v))"
      by (rule Cons.prems(1) [OF _ es1]) simp
    show "wp (dump_elements get (length vs) (es2 @ rest, out @ value_text j v, h'))
        (dump_post h' rest (out @ concat (map (value_text j) (v # vs))))" for h'
      using Cons.IH [OF _ es2, of "out @ value_text j v" h'] Cons.prems(1) by simp
  qed
  ultimately show ?case unfolding split by simp
qed

lemma nesting_member: "(k, v) \<in> set kvs \<Longrightarrow> nesting v < nesting (V_map kvs)"
  by (induction kvs) (auto simp: less_Suc_eq_le le_max_iff_disj)

lemma nesting_element: "v \<in> set vs \<Longrightarrow> nesting v < nesting (V_array vs)"
  by (induction vs) (auto simp: less_Suc_eq_le le_max_iff_disj)

text \<open>Enough depth for the nesting, and the text of the value is printed.\<close>

lemma dump_entry_data_list_wp:
  assumes "nesting v \<le> depth" and "lists_value db es (flatten v)"
  shows "wp (dump_entry_data_list depth (mapping db) i (es @ rest, out, h))
    (dump_post h rest (out @ value_text i v))"
  using assms
proof (induction depth arbitrary: v i es rest out h)
  case 0
  then show ?case by (cases v) simp_all
next
  case (Suc depth)
  obtain x xs where flat: "flatten v = x # xs" using flatten_not_Nil [of v] by (cases "flatten v") auto
  obtain e es' where es: "es = e # es'" and e: "entry_head db e = Some x" "head_short x"
    and es': "lists_value db es' xs"
    using Suc.prems(2) unfolding flat by (rule lists_value_Cons)
  have x: "x = head_of v" using flat by (cases v) auto
  note head = entry_head_cases [OF e(1) [unfolded x]]
  show ?case
  proof (cases "is_container v")
    case False
    then have "x = H_scalar v" "xs = []" "value_text i v = print_indentation i @ scalar_text v @ [10]"
      using flat by (cases v; auto)+
    moreover have "ed_type e \<noteq> MMDB_DATA_TYPE_MAP" "ed_type e \<noteq> MMDB_DATA_TYPE_ARRAY"
      using head False by (auto split: if_splits)
    ultimately show ?thesis using dump_scalar_wp [of db e v i rest out h] es es' e by simp
  next
    case True
    then consider (map) kvs where "v = V_map kvs" | (array) vs where "v = V_array vs" by (cases v) auto
    then show ?thesis
    proof cases
      case map
      have t: "ed_type e = MMDB_DATA_TYPE_MAP" "unat (data_size e) = length kvs"
        using head map by (auto split: if_splits)
      have xs: "lists_value db es' (concat (map (\<lambda>(k, v). H_scalar (V_string k) # flatten v) kvs))"
        using es' flat map by simp
      have get: "wp (dump_entry_data_list depth (mapping db) (i + 4) (es @ rest, out, h))
          (dump_post h rest (out @ value_text (i + 4) w))"
        if "(k, w) \<in> set kvs" "lists_value db es (flatten w)" for k w es rest out h
        using nesting_member [OF that(1)] Suc.prems(1) that(2) map by (intro Suc.IH) auto
      show ?thesis
        unfolding es map append_Cons dump_entry_data_list.simps list.case Let_def if_P [OF t(1)] t(2)
        by (rule dump_chk [OF dump_members_wp [OF get xs] put_line_wp]) simp_all
    next
      case array
      have t: "ed_type e = MMDB_DATA_TYPE_ARRAY" "ed_type e \<noteq> MMDB_DATA_TYPE_MAP" "unat (data_size e) = length vs"
        using head array by (auto split: if_splits)
      have xs: "lists_value db es' (concat (map flatten vs))"
        using es' flat array by simp
      have get: "wp (dump_entry_data_list depth (mapping db) (i + 2) (es @ rest, out, h))
          (dump_post h rest (out @ value_text (i + 2) w))"
        if "w \<in> set vs" "lists_value db es (flatten w)" for w es rest out h
        using nesting_element [OF that(1)] Suc.prems(1) that(2) array by (intro Suc.IH) auto
      show ?thesis
        unfolding es array append_Cons dump_entry_data_list.simps list.case Let_def if_P [OF t(1)] if_not_P [OF t(2)] t(3)
        by (rule dump_chk [OF dump_elements_wp [OF get xs] put_line_wp]) simp_all
    qed
  qed
qed


section \<open>Stored values\<close>

text \<open>
  The nesting of a stored value is bounded by its height, and its byte strings are short because
  the sizes of the format are.
\<close>

lemma scalar_of_short: "scalar_of ty bs = Some v \<Longrightarrow> length bs < size_limit \<Longrightarrow>
    nesting v = 1 \<and> list_all head_short (flatten v)"
  by (auto simp: size_limit_def split: if_splits)

lemma represents_dumpable:
  "stored db a v c n h \<Longrightarrow> nesting v \<le> h \<and> list_all head_short (flatten v)"
  "represents db a v n h \<Longrightarrow> nesting v \<le> h \<and> list_all head_short (flatten v)"
  "represents_seq db a vs n h \<Longrightarrow> \<forall>v \<in> set vs. nesting v \<le> h \<and> list_all head_short (flatten v)"
  "represents_pairs db a kvs n h \<Longrightarrow> \<forall>(k, v) \<in> set kvs. nesting v \<le> h \<and> list_all head_short (flatten v)"
proof (induction rule: stored_represents_represents_seq_represents_pairs.inducts)
  case (scalar a ty bs c v h)
  then show ?case using scalar_of_short [of ty bs v] by (auto simp: entry_header_def)
next
  case (array a vs c n h)
  have "foldr max (map nesting vs) 0 \<le> h" if "\<forall>v \<in> set vs. nesting v \<le> h"
    using that by (induction vs) auto
  then show ?case using array by (auto simp: list_all_iff)
next
  case (map a kvs c n h)
  have "foldr max (map (\<lambda>(k, v). nesting v) kvs) 0 \<le> h" if "\<forall>(k, v) \<in> set kvs. nesting v \<le> h"
    using that by (induction kvs) auto
  then show ?case using map by (force simp: list_all_iff)
next
  case (pointer a bs t v c m h)
  then show ?case by auto
qed auto

text \<open>Every level of nesting has a label of its own.\<close>

lemma foldr_max_le_concat:
  assumes "\<And>x. x \<in> set xs \<Longrightarrow> f x \<le> length (g x)"
  shows "foldr max (map f xs) 0 \<le> length (concat (map g xs))"
  using assms by (induction xs) (auto intro: le_trans trans_le_add1 trans_le_add2)

lemma nesting_le_labels: "nesting v \<le> length (flatten v)"
proof (induction v rule: flatten.induct)
  case (1 kvs)
  have "foldr max (map (\<lambda>(k, v). nesting v) kvs) 0 \<le>
      length (concat (map (\<lambda>(k, v). H_scalar (V_string k) # flatten v) kvs))"
    by (rule foldr_max_le_concat) (use 1 in \<open>fastforce split: prod.splits\<close>)
  then show ?case by simp
next
  case (2 vs)
  have "foldr max (map nesting vs) 0 \<le> length (concat (map flatten vs))"
    by (rule foldr_max_le_concat) (use 2 in simp)
  then show ?case by simp
qed simp_all

text \<open>
  What \<open>MMDB_dump_entry_data_list\<close> prints for the list that \<open>MMDB_get_entry_data_list\<close> builds.
\<close>

lemma dump_of_value:
  assumes v: "represents db a v n h" and depth: "nesting v \<le> depth"
    and es: "map (entry_head db) es = map Some (flatten v)"
  shows "\<exists>st out' r'. MMDB_dump_entry_data_list depth (mapping db) i es (out, r) = Some (st, (out', r')) \<and>
    live r' = live r \<and> same_files r r' \<and>
    (if st = MMDB_SUCCESS then out' = out @ value_text i v
     else st = MMDB_OUT_OF_MEMORY_ERROR \<and> (\<exists>k. \<not> alloc_ok r k))"
proof -
  have "nesting v \<le> depth" "lists_value db es (flatten v)"
    using represents_dumpable(2) [OF v] depth es by simp_all
  from dump_entry_data_list_wp [OF this, of i "[]" out r] show ?thesis
    by (fastforce simp: wp_iff_ex dump_post_def MMDB_dump_entry_data_list_def split: if_splits)
qed

section \<open>Lists of arbitrary sections\<close>

text \<open>
  The lists that \<open>MMDB_get_entry_data_list\<close> makes of arbitrary bytes are forests too, so the cursor
  never meets \<open>NULL\<close> where the code dereferences it. \<open>k\<close> trees are still to come in at most \<open>n\<close>
  entries.
\<close>

definition forest :: "MMDB_s \<Rightarrow> nat \<Rightarrow> nat \<Rightarrow> MMDB_entry_data_s list \<Rightarrow> bool" where
  "forest db k n es \<longleftrightarrow> pending k es = Some 0 \<and> list_all (entry_ok db) es \<and> length es \<le> n"

definition dump_safe :: "MMDB_s \<Rightarrow> resources \<Rightarrow> nat \<Rightarrow> nat \<Rightarrow> mmdb_status \<Rightarrow> dump_state \<Rightarrow> bool" where
  "dump_safe db h k n st s \<longleftrightarrow>
    (case s of (es', out', h') \<Rightarrow>
       live h' = live h \<and> same_files h h' \<and>
       (if st = MMDB_SUCCESS then forest db k n es'
        else st \<in> {MMDB_INVALID_DATA_ERROR, MMDB_OUT_OF_MEMORY_ERROR}))"

lemma forest_Cons:
  "forest db (Suc k) (Suc n) (e # es) \<longleftrightarrow> entry_ok db e \<and> forest db (children e + k) n es"
  by (auto simp: forest_def)

lemma forestE:
  assumes "forest db (Suc k) n es"
  obtains e es' m where "es = e # es'" and "n = Suc m" and "entry_ok db e" and "forest db (children e + k) m es'"
  using assms by (cases es; cases n) (auto simp: forest_def)

lemma forest_le: "forest db k m es \<Longrightarrow> m \<le> n \<Longrightarrow> forest db k n es"
  by (simp add: forest_def)

lemma dump_post_safe: "forest db k n es \<Longrightarrow> dump_post h es out st s \<Longrightarrow> dump_safe db h k n st s"
  by (auto simp: dump_post_def dump_safe_def split: if_splits)

lemma dump_safe_chk:
  assumes "wp run (dump_safe db h k n)"
    and "\<And>es out h'. forest db k n es \<Longrightarrow> wp (f (es, out, h')) (dump_safe db h' k' n')"
  shows "wp (chk run f) (dump_safe db h k' n')"
  unfolding wp_chk_with
proof (rule wp_mono [OF assms(1)])
  fix st s assume post: "dump_safe db h k n st s"
  obtain es out h' where s: "s = (es, out, h')" by (cases s) auto
  show "if st = MMDB_SUCCESS then wp (f s) (dump_safe db h k' n') else dump_safe db h k' n' st s"
  proof (cases "st = MMDB_SUCCESS")
    case True
    then have h': "live h' = live h" "same_files h h'" and es: "forest db k n es"
      using post s by (simp_all add: dump_safe_def)
    have "wp (f (es, out, h')) (dump_safe db h k' n')"
      by (rule wp_mono [OF assms(2) [OF es, of out h']])
        (use h' same_files_trans [OF h'(2)] in \<open>auto simp: dump_safe_def split: if_splits\<close>)
    then show ?thesis using True s by simp
  qed (use post in \<open>auto simp: dump_safe_def\<close>)
qed

lemma put_line_safe: "forest db k n es \<Longrightarrow> wp (put_line line (es, out, h)) (dump_safe db h k n)"
  by (rule wp_mono [OF put_line_wp [OF refl]]) (rule dump_post_safe)

lemma dump_invalid_safe: "dump_safe db h k n MMDB_INVALID_DATA_ERROR (es, out, h)"
  by (simp add: dump_safe_def same_files_def)

lemma wp_ifI: "(b \<Longrightarrow> wp m Q) \<Longrightarrow> (\<not> b \<Longrightarrow> wp m' Q) \<Longrightarrow> wp (if b then m else m') Q"
  by simp

lemma dump_scalar_safe:
  assumes e: "entry_ok db e" and es: "forest db k n es"
  shows "wp (dump_scalar (mapping db) indent e (es, out, h)) (dump_safe db h k n)"
proof -
  consider "ed_type e = MMDB_DATA_TYPE_UTF8_STRING" | "ed_type e = MMDB_DATA_TYPE_BYTES"
    | "ed_type e \<notin> {MMDB_DATA_TYPE_UTF8_STRING, MMDB_DATA_TYPE_BYTES}" by blast
  then show ?thesis
  proof cases
    case 1
    obtain s bs where s: "ed_value e = Utf8_string_val s"
      "c_str_block (mapping db) s (unat (data_size e)) = Some bs"
      by (rule entry_ok_string [OF e 1])
    show ?thesis
      using 1 s(1) wp_mono [OF print_strndup_wp [OF s(2)] dump_post_safe [OF es]] by (simp add: dump_scalar_def)
  next
    case 2
    then obtain p where p: "ed_value e = Bytes_val p" "p + unat (data_size e) \<le> length (mapping db)"
      "unat (data_size e) < 2 ^ 31"
      using e by (auto simp: entry_ok_def value_ok_def)
    show ?thesis
      using 2 p(1) wp_mono [OF print_hex_wp [OF rd_block_Some [OF p(2)] p(3)] dump_post_safe [OF es]]
      by (simp add: dump_scalar_def)
  next
    case 3
    have v: "value_ok db e" using e by (simp add: entry_ok_def)
    show ?thesis
      unfolding dump_scalar_def Let_def
      by (intro wp_ifI; use 3 v es in \<open>auto simp: value_ok_def put_line_safe dump_invalid_safe\<close>)
  qed
qed

lemma dump_members_safe:
  assumes get: "\<And>es out h k. forest db (Suc k) n es \<Longrightarrow> wp (get (es, out, h)) (dump_safe db h k n)"
  shows "forest db (2 * m + k) n es \<Longrightarrow>
    wp (dump_members (mapping db) get i m (es, out, h)) (dump_safe db h k n)"
proof (induction m arbitrary: es out h)
  case 0
  then show ?case by (simp add: dump_safe_def same_files_def)
next
  case (Suc m)
  have "forest db (Suc (Suc (2 * m + k))) n es" using Suc.prems by simp
  then obtain e es' n' where es: "es = e # es'" and n: "n = Suc n'" and e: "entry_ok db e"
    and es': "forest db (children e + Suc (2 * m + k)) n' es'" by (rule forestE)
  show ?case
  proof (cases "ed_type e = MMDB_DATA_TYPE_UTF8_STRING")
    case False
    then show ?thesis using es by (simp add: dump_invalid_safe)
  next
    case True
    have rest: "forest db (Suc (2 * m + k)) n es'"
      using forest_le [OF es', of n] True n by (simp add: children_def)
    obtain s bs where s: "ed_value e = Utf8_string_val s"
      "c_str_block (mapping db) s (unat (data_size e)) = Some bs"
      by (rule entry_ok_string [OF e True])
    have "wp (chk (print_and_free (print_indentation i @ ascii ''\"'')
          (mmdb_strndup (mapping db) s (unat (data_size e)) h) (ascii ''\": '' @ [10]) (es', out, h)) 
        (\<lambda>s. chk (get s) (dump_members (mapping db) get i m))) (dump_safe db h k n)"
    proof (rule dump_safe_chk [OF wp_mono [OF print_strndup_wp [OF s(2)] dump_post_safe [OF rest]]])
      show "wp (chk (get (es2, out2, h2)) (dump_members (mapping db) get i m)) (dump_safe db h2 k n)"
        if "forest db (Suc (2 * m + k)) n es2" for es2 out2 h2
        by (rule dump_safe_chk [OF get [OF that] Suc.IH])
    qed
    then show ?thesis using True es s(1) by simp
  qed
qed

lemma dump_elements_safe:
  assumes get: "\<And>es out h k. forest db (Suc k) n es \<Longrightarrow> wp (get (es, out, h)) (dump_safe db h k n)"
  shows "forest db (m + k) n es \<Longrightarrow> wp (dump_elements get m (es, out, h)) (dump_safe db h k n)"
proof (induction m arbitrary: es out h)
  case 0
  then show ?case by (simp add: dump_safe_def same_files_def)
next
  case (Suc m)
  then have "forest db (Suc (m + k)) n es" by simp
  moreover from this have "es \<noteq> []" by (auto elim: forestE)
  moreover have "wp (chk (get (es, out, h)) (dump_elements get m)) (dump_safe db h k n)"
    if "forest db (Suc (m + k)) n es" by (rule dump_safe_chk [OF get [OF that] Suc.IH])
  ultimately show ?case by simp
qed

text \<open>A depth that is the length of the list is enough, because every level consumes an entry.\<close>

lemma dump_entry_data_list_safe:
  "forest db (Suc k) depth es \<Longrightarrow>
    wp (dump_entry_data_list depth (mapping db) i (es, out, h)) (dump_safe db h k depth)"
proof (induction depth arbitrary: k i es out h)
  case 0
  then show ?case by (auto elim: forestE)
next
  case (Suc depth)
  obtain e es' where es: "es = e # es'" and e: "entry_ok db e" and es': "forest db (children e + k) depth es'"
    using Suc.prems by (auto elim: forestE)
  have get: "wp (dump_entry_data_list depth (mapping db) j (es, out, h)) (dump_safe db h k depth)"
    if "forest db (Suc k) depth es" for j k es out h by (rule Suc.IH [OF that])
  have wider: "wp run (dump_safe db h k depth) \<Longrightarrow> wp run (dump_safe db h k (Suc depth))" for run
    by (erule wp_mono) (auto simp: dump_safe_def forest_def split: if_splits)
  consider "ed_type e = MMDB_DATA_TYPE_MAP" | "ed_type e = MMDB_DATA_TYPE_ARRAY" "ed_type e \<noteq> MMDB_DATA_TYPE_MAP"
    | "ed_type e \<noteq> MMDB_DATA_TYPE_MAP" "ed_type e \<noteq> MMDB_DATA_TYPE_ARRAY" by fastforce
  then show ?case
  proof cases
    case 1
    then have "forest db (2 * unat (data_size e) + k) depth es'" using es' by (simp add: children_def)
    then show ?thesis
      unfolding es dump_entry_data_list.simps list.case Let_def if_P [OF 1]
      by (intro wider dump_safe_chk [OF dump_members_safe [OF get]] put_line_safe)
  next
    case 2
    then have "forest db (unat (data_size e) + k) depth es'" using es' by (simp add: children_def)
    then show ?thesis
      unfolding es dump_entry_data_list.simps list.case Let_def if_P [OF 2(1)] if_not_P [OF 2(2)]
      by (intro wider dump_safe_chk [OF dump_elements_safe [OF get]] put_line_safe)
  next
    case 3
    then have "forest db k depth es'" using es' by (simp add: children_def)
    then show ?thesis
      unfolding es dump_entry_data_list.simps list.case Let_def if_not_P [OF 3(1)] if_not_P [OF 3(2)]
      by (intro wider dump_scalar_safe e)
  qed
qed

lemma MMDB_dump_entry_data_list_wp:
  assumes "pending 1 es = Some 0" and "list_all (entry_ok db) es"
  shows "wp (MMDB_dump_entry_data_list (length es) (mapping db) i es (out, h)) (\<lambda>st (out', h').
    live h' = live h \<and> same_files h h' \<and>
    st \<in> {MMDB_SUCCESS, MMDB_INVALID_DATA_ERROR, MMDB_OUT_OF_MEMORY_ERROR})"
proof -
  have "forest db (Suc 0) (length es) es" using assms by (simp add: forest_def)
  from dump_entry_data_list_safe [OF this, of i out h] show ?thesis
    by (fastforce simp: wp_iff_ex dump_safe_def MMDB_dump_entry_data_list_def split: if_splits)
qed

section \<open>Numbers read back\<close>

lemma digit_char_small: "d < 10 \<Longrightarrow> is_digit (digit_char d) \<and> uint (digit_char d) = int d + 48 \<and>
    digit_char d \<noteq> 45 \<and> digit_char d \<noteq> 43 \<and> \<not> is_space (digit_char d)"
proof -
  assume "d < 10"
  then have "d = 0 \<or> d = 1 \<or> d = 2 \<or> d = 3 \<or> d = 4 \<or> d = 5 \<or> d = 6 \<or> d = 7 \<or> d = 8 \<or> d = 9" by arith
  then show ?thesis by (elim disjE) (simp_all add: digit_char_def is_digit_def is_space_def)
qed

lemma digits_value_append: "digits_value acc (xs @ [c]) = 10 * digits_value acc xs + (uint c - 48)"
  by (induction acc xs rule: digits_value.induct) simp_all

lemma decimal_digits: "decimal n \<noteq> [] \<and> (\<forall>c \<in> set (decimal n). is_digit c \<and> c \<noteq> 45 \<and> c \<noteq> 43 \<and> \<not> is_space c) \<and>
    digits_value 0 (decimal n) = int n"
proof (induction n rule: decimal.induct)
  case (1 n)
  show ?case
  proof (cases "n < 10")
    case True
    then show ?thesis using digit_char_small [of n] by (simp add: decimal.simps [of n])
  next
    case False
    have "10 * int (n div 10) + int (n mod 10) = int n" by presburger
    then show ?thesis
      using 1 False digit_char_small [of "n mod 10"]
      by (auto simp: decimal.simps [of n] digits_value_append)
  qed
qed

lemma decimal_scan:
  shows "takeWhile is_digit (decimal n) = decimal n" and "dropWhile is_digit (decimal n) = []"
    and "dropWhile is_space (decimal n) = decimal n" and "hd (decimal n) \<noteq> 45" and "hd (decimal n) \<noteq> 43"
proof -
  note d = decimal_digits [of n]
  show "takeWhile is_digit (decimal n) = decimal n" "dropWhile is_digit (decimal n) = []"
    using d by (simp_all add: takeWhile_eq_all_conv)
  obtain c cs where c: "decimal n = c # cs" using d by (cases "decimal n") auto
  then have "c \<noteq> 45 \<and> c \<noteq> 43 \<and> \<not> is_space c" using d by simp
  with c show "dropWhile is_space (decimal n) = decimal n" "hd (decimal n) \<noteq> 45" "hd (decimal n) \<noteq> 43"
    by simp_all
qed

text \<open>\<open>strtol\<close> reads back what \<open>%d\<close> writes.\<close>

lemma strtol10_decimal: "int n \<le> LONG_MAX \<Longrightarrow> strtol10 (decimal n) = (int n, [], False)"
  using decimal_digits [of n] by (simp add: strtol10_def Let_def decimal_scan LONG_MIN_def LONG_MAX_def)

lemma strtol10_minus_decimal:
  "int n \<le> LONG_MAX \<Longrightarrow> strtol10 (ascii ''-'' @ decimal n) = (- int n, [], False)"
proof -
  assume n: "int n \<le> LONG_MAX"
  have "ascii ''-'' = [45]" by (simp add: ascii_def)
  moreover have "\<not> is_space 45" by (simp add: is_space_def)
  ultimately show ?thesis
    using n decimal_digits [of n]
    by (simp add: strtol10_def Let_def decimal_scan LONG_MIN_def LONG_MAX_def)
qed

lemma decimal_length: "n < 1000 \<Longrightarrow> length (decimal n) \<le> 3"
  by (simp add: decimal.simps [of n] decimal.simps [of "n div 10"] decimal.simps [of "n div 10 div 10"])

end
