(* ===== verification/Mmdblookup.thy ===== *)
theory Mmdblookup
  imports Open_Close Dump
begin

text \<open>
  The command line tool \<open>bin/mmdblookup.c\<close>, built on the library: options, metadata dump, lookup
  of one address, lookups from a file, benchmark, and \<open>main\<close> up to the start of the threads. The
  state of the process is what it has written to its two streams, and its resources. The result of
  a function is an \<open>outcome\<close>: an invalid access, a call of \<open>exit\<close>, or a return.

  The environment answers for the platform: what \<open>getopt_long\<close> delivers, the system calls of
  \<open>MMDB_open\<close>, \<open>getaddrinfo\<close>, the texts of \<open>strerror(errno)\<close> after a failure of the named call and
  of \<open>gai_strerror\<close>, the calendar date of an epoch, the content of files, the values of \<open>rand\<close> and
  the measured times.
\<close>

section \<open>Processes\<close>

record process =
  out_text :: bytes
  err_text :: bytes
  heap :: resources
  rand_calls :: nat

type_synonym 'a outcome = "((int + 'a) \<times> process) option"

definition exit_with :: "int \<Rightarrow> process \<Rightarrow> 'a outcome" where
  "exit_with code s = Some (Inl code, s)"

definition returns :: "'a \<Rightarrow> process \<Rightarrow> 'a outcome" where
  "returns x s = Some (Inr x, s)"

definition call :: "'a outcome \<Rightarrow> ('a \<Rightarrow> process \<Rightarrow> 'b outcome) \<Rightarrow> 'b outcome" where
  "call m f =
    (case m of
       None \<Rightarrow> None
     | Some (Inl code, s) \<Rightarrow> Some (Inl code, s)
     | Some (Inr x, s) \<Rightarrow> f x s)"

definition print_out :: "bytes \<Rightarrow> process \<Rightarrow> process" where
  "print_out str s = s\<lparr>out_text := out_text s @ str\<rparr>"

definition print_err :: "bytes \<Rightarrow> process \<Rightarrow> process" where
  "print_err str s = s\<lparr>err_text := err_text s @ str\<rparr>"

text \<open>A format string that ends with a line break.\<close>

definition line :: "string \<Rightarrow> bytes" where
  "line str = ascii str @ [10]"

text \<open>An input stream: its content, whether it ends with an error, and the result of \<open>fclose\<close>.\<close>

record stream =
  content :: bytes
  read_error :: bool
  close_error :: bool

record environment =
  env_program :: bytes
  env_version :: bytes
  env_options :: "(int \<times> bytes) list"
  env_operands :: "bytes list"
  env_os :: os_answers
  env_stacks :: stack_content
  env_mmdb :: MMDB_s
  env_getaddrinfo :: "bytes \<Rightarrow> int \<times> sockaddr option"
  env_gai_strerror :: "int \<Rightarrow> bytes"
  env_strerror :: "string \<Rightarrow> bytes"
  env_date :: "u64 \<Rightarrow> bytes option"
  env_fopen :: "bytes \<Rightarrow> stream option"
  env_rand :: "nat \<Rightarrow> u32"
  env_times :: "int \<Rightarrow> bytes \<times> bytes"

section \<open>usage\<close>

definition usage_text :: "bytes \<Rightarrow> bytes" where
  "usage_text prog =
     line '''' @
     ascii ''  '' @ prog @ line '' --file /path/to/file.mmdb --ip 1.2.3.4 [path to lookup]'' @
     line '''' @
     line ''  This application accepts the following options:'' @
     line '''' @
     line ''      --file (-f)     The path to the MMDB file. Required.'' @
     line '''' @
     line ''      --ip (-i)       The IP address to look up. Required.'' @
     line '''' @
     line ''      --verbose (-v)  Turns on verbose output. Specifically, this causes this'' @
     line ''                      application to output the database metadata.'' @
     line '''' @
     line ''      --version       Print the program's version number and exit.'' @
     line '''' @
     line ''      --help (-h -?)  Show usage information.'' @
     line '''' @
     line ''  If an IP's data entry resolves to a map or array, you can provide'' @
     line ''  a lookup path to only show part of that data.'' @
     line '''' @
     line ''  For example, given a JSON structure like this:'' @
     line '''' @
     line ''    {'' @
     line ''        \"names\": {'' @
     line ''             \"en\": \"Germany\",'' @
     line ''             \"de\": \"Deutschland\"'' @
     line ''        },'' @
     line ''        \"cities\": [ \"Berlin\", \"Frankfurt\" ]'' @
     line ''    }'' @
     line '''' @
     line ''  You could look up just the English name by calling mmdblookup with a lookup path of:'' @
     line '''' @
     line ''    mmdblookup --file ... --ip ... names en'' @
     line '''' @
     line ''  Or you could look up the second city in the list with:'' @
     line '''' @
     line ''    mmdblookup --file ... --ip ... cities 1'' @
     line '''' @
     line ''  Array numbering begins with zero (0).'' @
     line '''' @
     line ''  If you do not provide a path to lookup, all of the information for a given IP'' @
     line ''  will be shown.'' @
     line ''''"

definition usage :: "bytes \<Rightarrow> int \<Rightarrow> string option \<Rightarrow> process \<Rightarrow> 'a outcome" where
  "usage prog exit_code error s =
    (let s = (case error of
                None \<Rightarrow> s
              | Some e \<Rightarrow> print_err (line '''' @ ascii ''  *ERROR: '' @ line e) s)
     in exit_with exit_code (print_out (usage_text prog) s))"

section \<open>get\_options\<close>

text \<open>\<open>help\<close> and \<open>version\<close> are the static variables of \<open>get_options\<close>.\<close>

record options =
  opt_file :: "bytes option"
  opt_ip :: "bytes option"
  opt_verbose :: bool
  opt_iterations :: int
  opt_threads :: int
  opt_ip_file :: "bytes option"
  opt_help :: bool
  opt_version :: bool

definition no_options :: options where
  "no_options = \<lparr>opt_file = None, opt_ip = None, opt_verbose = False, opt_iterations = 0, opt_threads = 0,
     opt_ip_file = None, opt_help = False, opt_version = False\<rparr>"

abbreviation (input) INT_MAX :: int where "INT_MAX \<equiv> 2147483647"

text \<open>\<open>(int)i\<close>\<close>

definition cast_int :: "int \<Rightarrow> int" where
  "cast_int i = sint (word_of_int i :: u32)"

definition is_opt :: "int \<Rightarrow> string \<Rightarrow> bool" where
  "is_opt opt_char str = (opt_char = of_char (hd str))"

text \<open>One round of the loop over the options.\<close>

definition scan_option :: "environment \<Rightarrow> int \<times> bytes \<Rightarrow> options \<Rightarrow> process \<Rightarrow> options outcome" where
  "scan_option env opt opts s =
    (let (opt_char, optarg) = opt; i = fst (strtol10 optarg) in
     if is_opt opt_char ''f'' then returns (opts\<lparr>opt_file := Some optarg\<rparr>) s
     else if is_opt opt_char ''i'' then returns (opts\<lparr>opt_ip := Some optarg\<rparr>) s
     else if is_opt opt_char ''v'' then returns (opts\<lparr>opt_verbose := True\<rparr>) s
     else if is_opt opt_char ''n'' then returns (opts\<lparr>opt_version := True\<rparr>) s
     else if is_opt opt_char ''b'' then
       if i > INT_MAX then usage (env_program env) 1 (Some ''iterations exceeds maximum value'') s
       else returns (opts\<lparr>opt_iterations := cast_int i\<rparr>) s
     else if is_opt opt_char ''h'' \<or> is_opt opt_char ''?'' then returns (opts\<lparr>opt_help := True\<rparr>) s
     else if is_opt opt_char ''t'' then
       if i > INT_MAX then usage (env_program env) 1 (Some ''thread count exceeds maximum value'') s
       else returns (opts\<lparr>opt_threads := cast_int i\<rparr>) s
     else if is_opt opt_char ''I'' then returns (opts\<lparr>opt_ip_file := Some optarg\<rparr>) s
     else returns opts s)"

fun scan_options :: "environment \<Rightarrow> (int \<times> bytes) list \<Rightarrow> options \<Rightarrow> process \<Rightarrow> options outcome" where
  "scan_options env [] opts s = returns opts s"
| "scan_options env (opt # rest) opts s = call (scan_option env opt opts s) (scan_options env rest)"

text \<open>The options and the lookup path, an allocated copy of the operands.\<close>

definition get_options :: "environment \<Rightarrow> process \<Rightarrow> (options \<times> bytes list owned) outcome" where
  "get_options env s =
    call (scan_options env (env_options env) no_options s) (\<lambda>opts s.
      if opt_help opts then usage (env_program env) 0 None s
      else if opt_version opts then
        exit_with 0 (print_out (line '''' @ ascii ''  '' @ env_program env @ ascii '' version '' @ env_version env @
          line '''' @ line '''') s)
      else if opt_file opts = None then
        usage (env_program env) 1 (Some ''You must provide a filename with --file'') s
      else if opt_ip opts = None \<and> opt_iterations opts = 0 \<and> opt_ip_file opts = None then
        usage (env_program env) 1 (Some ''You must provide an IP address with --ip'') s
      else
        case c_malloc (heap s) of
          (None, h) \<Rightarrow>
            exit_with 1 (print_err (ascii ''calloc(): '' @ env_strerror env ''calloc'' @ [10]) (s\<lparr>heap := h\<rparr>))
        | (Some a, h) \<Rightarrow> returns (opts, (a, env_operands env)) (s\<lparr>heap := h\<rparr>))"

section \<open>open\_or\_die and lookup\_or\_die\<close>

definition strerror_text :: "mmdb_status \<Rightarrow> bytes" where
  "strerror_text st = ascii (MMDB_strerror (status_code st))"

definition open_or_die :: "environment \<Rightarrow> bytes \<Rightarrow> process \<Rightarrow> MMDB_s outcome" where
  "open_or_die env fname s = do {
     (status, mmdb, h) \<leftarrow> MMDB_open (env_os env) (env_stacks env) fname MMDB_MODE_MMAP (env_mmdb env, heap s);
     let s = s\<lparr>heap := h\<rparr>;
     if status \<noteq> MMDB_SUCCESS then
       let s = print_err (line '''' @ ascii ''  Can't open '' @ fname @ ascii '' - '' @ strerror_text status @ [10]) s;
           s = (if status = MMDB_IO_ERROR
                then print_err (ascii ''    IO error: '' @ env_strerror env ''mmap'' @ [10]) s else s)
       in exit_with 2 (print_err (line '''') s)
     else returns mmdb s }"

definition lookup_or_die :: "environment \<Rightarrow> MMDB_s \<Rightarrow> bytes \<Rightarrow> process \<Rightarrow> MMDB_lookup_result_s outcome" where
  "lookup_or_die env mmdb ipstr s = do {
     (gai_error, mmdb_error, result) \<leftarrow> MMDB_lookup_string (env_getaddrinfo env) mmdb ipstr;
     if gai_error \<noteq> 0 then
       exit_with 3 (print_err (line '''' @ ascii ''  Error from call to getaddrinfo for '' @ ipstr @ ascii '' - '' @
         env_gai_strerror env gai_error @ line '''' @ line '''') s)
     else if mmdb_error \<noteq> MMDB_SUCCESS then
       exit_with 4 (print_err (line '''' @ ascii ''  Got an error from the maxminddb library: '' @
         strerror_text mmdb_error @ line '''' @ line '''') s)
     else returns result s }"

section \<open>Entry data lists\<close>

text \<open>The result parameter of \<open>MMDB_get_entry_data_list\<close>; \<open>NULL\<close> is \<^term>\<open>None\<close>.\<close>

type_synonym list_result = "(elem_ptr \<times> MMDB_data_pool_s) option"

text \<open>The entries from \<open>p\<close> on, following \<open>next\<close> up to \<open>NULL\<close>.\<close>

partial_function (option) linked_entries ::
  "MMDB_data_pool_s \<Rightarrow> elem_ptr option \<Rightarrow> MMDB_entry_data_s list option" where
  "linked_entries pool p =
    (case p of
       None \<Rightarrow> Some []
     | Some q \<Rightarrow> do {
         el \<leftarrow> pool_get pool q;
         rest \<leftarrow> linked_entries pool (next_elem el);
         Some (entry_data el # rest) })"

declare linked_entries.simps [code]

definition get_list :: "MMDB_entry_s \<Rightarrow> process \<Rightarrow> list_result run" where
  "get_list start s = MMDB_get_entry_data_list (pool_ok (heap s) (next_addr (heap s))) start"

text \<open>\<open>MMDB_dump_entry_data_list\<close> on a stream; its recursion is not deeper than the list is long.\<close>

definition dump_list :: "MMDB_s \<Rightarrow> int \<Rightarrow> elem_ptr \<times> MMDB_data_pool_s \<Rightarrow> resources \<Rightarrow> (bytes \<times> resources) run" where
  "dump_list mmdb indent l h = do {
     es \<leftarrow> linked_entries (snd l) (Some (fst l));
     MMDB_dump_entry_data_list (length es) (mapping mmdb) indent es ([], h) }"

text \<open>The blocks of a list are accounted for by its pool.\<close>

definition free_list :: "list_result \<Rightarrow> process \<Rightarrow> process option" where
  "free_list l s =
    (case l of
       None \<Rightarrow> Some s
     | Some (p, pool) \<Rightarrow> do {
         _ \<leftarrow> MMDB_free_entry_data_list pool (Some p);
         Some s })"

section \<open>dump\_meta\<close>

text \<open>\<open>%s\<close> of an allocated string; \<open>NULL\<close> is an invalid access.\<close>

definition owned_text :: "bytes owned option \<Rightarrow> bytes option" where
  "owned_text p = map_option snd p"

definition language_text :: "MMDB_metadata_s \<Rightarrow> nat \<Rightarrow> bytes option" where
  "language_text m i = do {
     (_, names) \<leftarrow> languages_names m;
     name \<leftarrow> (if i < length names then owned_text (names ! i) else None);
     Some (name @ (if i < languages_count m - 1 then ascii '' '' else [])) }"

definition description_text :: "MMDB_metadata_s \<Rightarrow> nat \<Rightarrow> bytes option" where
  "description_text m i = do {
     (_, ds) \<leftarrow> descriptions m;
     (_, d) \<leftarrow> (if i < length ds then ds ! i else None);
     lang \<leftarrow> owned_text (language d);
     desc \<leftarrow> owned_text (description d);
     Some (ascii ''      '' @ lang @ ascii '':   '' @ desc @ [10]) }"

text \<open>The format \<open>meta_dump\<close>.\<close>

definition meta_dump :: "environment \<Rightarrow> MMDB_metadata_s \<Rightarrow> bytes \<Rightarrow> bytes" where
  "meta_dump env m db_type =
     line '''' @ line ''  Database metadata'' @
     ascii ''    Node count:    '' @ decimal (unat (node_count m)) @ [10] @
     ascii ''    Record size:   '' @ decimal (unat (record_size m)) @ line '' bits'' @
     ascii ''    IP version:    IPv'' @ decimal (unat (ip_version m)) @ [10] @
     ascii ''    Binary format: '' @ decimal (unat (binary_format_major_version m)) @ ascii ''.'' @
       decimal (unat (binary_format_minor_version m)) @ [10] @
     ascii ''    Build epoch:   '' @ decimal (unat (build_epoch m)) @ ascii '' ('' @
       (case env_date env (build_epoch m) of None \<Rightarrow> ascii ''out of range'' | Some d \<Rightarrow> d) @ line '')'' @
     ascii ''    Type:          '' @ db_type @ [10] @
     ascii ''    Languages:     ''"

definition print_each :: "(nat \<Rightarrow> bytes option) \<Rightarrow> nat \<Rightarrow> process \<Rightarrow> process option" where
  "print_each f n s = for_each [0..<n] (\<lambda>i s. do { t \<leftarrow> f i; Some (print_out t s) }) s"

definition dump_meta :: "environment \<Rightarrow> MMDB_s \<Rightarrow> process \<Rightarrow> process option" where
  "dump_meta env mmdb s = do {
     let m = db_metadata mmdb;
     db_type \<leftarrow> owned_text (database_type m);
     s \<leftarrow> print_each (language_text m) (languages_count m) (print_out (meta_dump env m db_type) s);
     let s = print_out (line '''' @ line ''    Description:'') s;
     s \<leftarrow> print_each (description_text m) (description_count m) s;
     Some (print_out (line '''') s) }"

section \<open>lookup\_from\_file\<close>

text \<open>\<open>fgets\<close>: at most \<open>n - 1\<close> bytes, up to and including a line break; then the rest of the stream.\<close>

fun fgets :: "nat \<Rightarrow> bytes \<Rightarrow> bytes \<times> bytes" where
  "fgets (Suc (Suc n)) (b # bs) = (if b = 10 then ([b], bs) else apfst ((#) b) (fgets (Suc n) bs))"
| "fgets n bs = ([], bs)"

lemma fgets_shorter: "bs \<noteq> [] \<Longrightarrow> length (snd (fgets (Suc (Suc n)) bs)) < length bs"
proof (induction n arbitrary: bs)
  case 0
  then show ?case by (cases bs) auto
next
  case (Suc n)
  then obtain b cs where bs: "bs = b # cs" by (cases bs) auto
  then show ?case using Suc.IH [of cs] by (cases cs) auto
qed

text \<open>The buffer up to its first line break, as a C string.\<close>

definition chomp :: "bytes \<Rightarrow> bytes" where
  "chomp buf = takeWhile (\<lambda>b. b \<noteq> 0 \<and> b \<noteq> 10) buf"

definition close_file :: "process \<Rightarrow> process" where
  "close_file s = s\<lparr>heap := close_fd (heap s)\<rparr>"

text \<open>The rest of a round, for a line that is not empty: whether the loop goes on.\<close>

definition lookup_line :: "environment \<Rightarrow> MMDB_s \<Rightarrow> bool \<Rightarrow> bytes \<Rightarrow> process \<Rightarrow> bool outcome" where
  "lookup_line env mmdb dump buf s =
    call (lookup_or_die env mmdb buf s) (\<lambda>result s.
      if \<not> found_entry result then returns True s
      else do {
        (status, l) \<leftarrow> get_list (result_entry result) s;
        if status \<noteq> MMDB_SUCCESS then do {
          s \<leftarrow> free_list l (close_file
            (print_err (ascii ''MMDB_get_entry_data_list(): '' @ strerror_text status @ [10]) s));
          returns False s }
        else
          case l of
            None \<Rightarrow> returns False (close_file (print_err (line ''entry_data_list is NULL'') s))
          | Some ptr \<Rightarrow>
              if dump then do {
                let s = print_out (buf @ line '':'') s;
                (status2, text, h) \<leftarrow> dump_list mmdb 0 ptr (heap s);
                let s = print_err text (s\<lparr>heap := h\<rparr>);
                if status2 \<noteq> MMDB_SUCCESS then do {
                  s \<leftarrow> free_list l (close_file
                    (print_err (ascii ''MMDB_dump_entry_data_list(): '' @ strerror_text status2 @ [10]) s));
                  returns False s }
                else do { s \<leftarrow> free_list l s; returns True s } }
              else do { s \<leftarrow> free_list l s; returns True s } })"

text \<open>
  The loop; \<open>i\<close> counts the addresses in 64 bits. The result is \<^term>\<open>None\<close> after an error, and
  the number of addresses at the end of the stream.
\<close>

function lookup_lines ::
  "environment \<Rightarrow> MMDB_s \<Rightarrow> bool \<Rightarrow> stream \<Rightarrow> bytes \<Rightarrow> u64 \<Rightarrow> process \<Rightarrow> u64 option outcome" where
  "lookup_lines env mmdb dump fh input i s =
    (if input = [] then
       if read_error fh then
         returns None (close_file (print_err (ascii ''fgets(): '' @ env_strerror env ''fgets'' @ [10]) s))
       else if close_error fh then
         returns None (print_err (ascii ''fclose(): '' @ env_strerror env ''fclose'' @ [10]) (close_file s))
       else returns (Some i) (close_file s)
     else
       let (chunk, rest) = fgets 1024 input; buf = chomp chunk in
       if length buf = 0 then lookup_lines env mmdb dump fh rest i s
       else
         call (lookup_line env mmdb dump buf s) (\<lambda>continue s.
           if continue then lookup_lines env mmdb dump fh rest (i + 1) s else returns None s))"
  by pat_completeness auto
termination
proof (relation "measure (\<lambda>(env, mmdb, dump, fh, input, i, s). length input)", goal_cases)
  case (2 env mmdb dump fh input i s x chunk rest buf)
  then show ?case using fgets_shorter [of input 1022] by (simp add: prod_eq_iff numeral_eq_Suc)
next
  case (3 env mmdb dump fh input i s x chunk rest buf continue s')
  then show ?case using fgets_shorter [of input 1022] by (simp add: prod_eq_iff numeral_eq_Suc)
qed simp

declare lookup_lines.simps [simp del]

definition lookup_from_file :: "environment \<Rightarrow> MMDB_s \<Rightarrow> bytes \<Rightarrow> bool \<Rightarrow> process \<Rightarrow> bool outcome" where
  "lookup_from_file env mmdb ip_file dump s =
    (case env_fopen env ip_file of
       None \<Rightarrow>
         returns False (print_err (ascii ''fopen(): '' @ ip_file @ ascii '': '' @ env_strerror env ''fopen'' @ [10]) s)
     | Some fh \<Rightarrow>
         call (lookup_lines env mmdb dump fh (content fh) 0 (s\<lparr>heap := (heap s)\<lparr>open_fds := open_fds (heap s) + 1\<rparr>\<rparr>))
           (\<lambda>looked_up s.
             case looked_up of
               None \<Rightarrow> returns False s
             | Some i \<Rightarrow>
                 let (seconds, rate) = env_times env (uint i) in
                 returns True (print_out (ascii ''Looked up '' @ decimal (unat i) @ ascii '' addresses in '' @ seconds @
                   ascii '' seconds. '' @ rate @ line '' lookups per second.'') s)))"

section \<open>lookup\_and\_print\<close>

text \<open>The status and the list that \<open>result\<close> and the lookup path lead to, before anything is dumped.\<close>

definition list_to_print ::
  "environment \<Rightarrow> MMDB_s \<Rightarrow> bytes list \<Rightarrow> MMDB_lookup_result_s \<Rightarrow> process \<Rightarrow> (mmdb_status \<times> list_result \<times> process) option" where
  "list_to_print env mmdb lookup_path result s =
    (if lookup_path \<noteq> [] then do {
       (status, entry_data) \<leftarrow> MMDB_aget_value (env_stacks env) (result_entry result) lookup_path;
       if status = MMDB_SUCCESS then
         if ed_offset entry_data \<noteq> 0 then do {
           (status, l) \<leftarrow> get_list \<lparr>entry_mmdb = mmdb, entry_offset = ed_offset entry_data\<rparr> s;
           Some (status, l, s) }
         else Some (MMDB_SUCCESS, None,
           print_out (line '''' @ line ''  No data was found at the lookup path you provided'' @ line '''') s)
       else Some (status, None, s) }
     else do {
       (status, l) \<leftarrow> get_list (result_entry result) s;
       Some (status, l, s) })"

text \<open>The body of \<open>lookup_and_print\<close> up to the label \<open>end\<close>, after the lookup: exit code and list.\<close>

definition print_result ::
  "environment \<Rightarrow> MMDB_s \<Rightarrow> bytes \<Rightarrow> bytes list \<Rightarrow> bool \<Rightarrow> MMDB_lookup_result_s \<Rightarrow> process \<Rightarrow>
     (int \<times> list_result \<times> process) option" where
  "print_result env mmdb ip_address lookup_path verbose result s0 =
    (let s = (if verbose
        then print_out (line '''' @ ascii ''  Record prefix length: '' @ decimal (unat (netmask result)) @ [10]) s0
        else s0)
     in if found_entry result then do {
          (status, l, s) \<leftarrow> list_to_print env mmdb lookup_path result s;
          if status \<noteq> MMDB_SUCCESS then
            Some (5, l, print_err (ascii ''Got an error looking up the entry data - '' @ strerror_text status @ [10]) s)
          else
            case l of
              None \<Rightarrow> Some (0, l, s)
            | Some ptr \<Rightarrow> do {
                (_, text, h) \<leftarrow> dump_list mmdb 2 ptr (heap s);
                Some (0, l, print_out (line '''' @ text @ line '''') (s\<lparr>heap := h\<rparr>)) } }
        else Some (6, None, print_err (line '''' @ ascii ''  Could not find an entry for this IP address ('' @
          ip_address @ line '')'' @ line '''') s))"

definition lookup_and_print ::
  "environment \<Rightarrow> MMDB_s \<Rightarrow> bytes \<Rightarrow> bytes list owned \<Rightarrow> bool \<Rightarrow> process \<Rightarrow> int outcome" where
  "lookup_and_print env mmdb ip_address lookup_path verbose s =
    call (lookup_or_die env mmdb ip_address s) (\<lambda>result s. do {
      (exit_code, l, s) \<leftarrow> print_result env mmdb ip_address (snd lookup_path) verbose result s;
      s \<leftarrow> free_list l s;
      (mmdb, h) \<leftarrow> MMDB_close (mmdb, heap s);
      h \<leftarrow> c_free (fst lookup_path) h;
      returns exit_code (s\<lparr>heap := h\<rparr>) })"

section \<open>benchmark\<close>

text \<open>\<open>snprintf(ip, 16, "%u.%u.%u.%u", ...)\<close> of the bytes of an integer, in little endian order.\<close>

definition random_ipv4 :: "u32 \<Rightarrow> bytes" where
  "random_ipv4 ip_int =
    take 15 (decimal (unat (take_bit 8 ip_int)) @ ascii ''.'' @ decimal (unat (take_bit 8 (drop_bit 8 ip_int))) @
      ascii ''.'' @ decimal (unat (take_bit 8 (drop_bit 16 ip_int))) @ ascii ''.'' @ decimal (unat (drop_bit 24 ip_int)))"

definition next_random_ipv4 :: "environment \<Rightarrow> process \<Rightarrow> bytes \<times> process" where
  "next_random_ipv4 env s = (random_ipv4 (env_rand env (rand_calls s)), s\<lparr>rand_calls := rand_calls s + 1\<rparr>)"

text \<open>The loop with \<open>n\<close> rounds left: whether it has run to its end.\<close>

fun benchmark_loop :: "environment \<Rightarrow> MMDB_s \<Rightarrow> nat \<Rightarrow> process \<Rightarrow> bool outcome" where
  "benchmark_loop env mmdb 0 s = returns True s"
| "benchmark_loop env mmdb (Suc n) s =
    (let (ip_address, s) = next_random_ipv4 env s in
     call (lookup_or_die env mmdb ip_address s) (\<lambda>result s.
       if found_entry result then do {
         (status, l) \<leftarrow> get_list (result_entry result) s;
         if status \<noteq> MMDB_SUCCESS then do {
           s \<leftarrow> free_list l (print_err (ascii ''Got an error looking up the entry data - '' @
             strerror_text status @ [10]) s);
           returns False s }
         else do { s \<leftarrow> free_list l s; benchmark_loop env mmdb n s } }
       else benchmark_loop env mmdb n s))"

definition benchmark :: "environment \<Rightarrow> MMDB_s \<Rightarrow> int \<Rightarrow> process \<Rightarrow> int outcome" where
  "benchmark env mmdb iterations s =
    call (benchmark_loop env mmdb (nat iterations) s) (\<lambda>finished s. do {
      let (seconds, rate) = env_times env iterations;
      let s = (if finished
        then print_out (line '''' @ ascii ''  Looked up '' @ signed_decimal iterations @ ascii '' addresses in '' @
          seconds @ ascii '' seconds. '' @ rate @ line '' lookups per second.'' @ line '''') s
        else s);
      (mmdb, h) \<leftarrow> MMDB_close (mmdb, heap s);
      returns (if finished then 0 else 5) (s\<lparr>heap := h\<rparr>) })"

section \<open>main\<close>

text \<open>\<open>main\<close> ends with an exit code, or it goes on with the threads of \<open>start_threaded_benchmark\<close>.\<close>

datatype main_end = Main_exit int | Main_threads MMDB_s int int

definition free_path :: "bytes list owned \<Rightarrow> process \<Rightarrow> process option" where
  "free_path lookup_path s = do { h \<leftarrow> c_free (fst lookup_path) (heap s); Some (s\<lparr>heap := h\<rparr>) }"

definition main_mode ::
  "environment \<Rightarrow> options \<Rightarrow> bytes list owned \<Rightarrow> MMDB_s \<Rightarrow> process \<Rightarrow> main_end outcome" where
  "main_mode env opts lookup_path mmdb s =
    (case opt_ip_file opts of
       Some ip_file \<Rightarrow> do {
         s \<leftarrow> free_path lookup_path s;
         call (lookup_from_file env mmdb ip_file (opt_verbose opts) s) (\<lambda>ok s. do {
           (mmdb, h) \<leftarrow> MMDB_close (mmdb, heap s);
           returns (Main_exit (if ok then 0 else 1)) (s\<lparr>heap := h\<rparr>) }) }
     | None \<Rightarrow>
         if opt_iterations opts = 0 then do {
           ip_address \<leftarrow> opt_ip opts;
           call (lookup_and_print env mmdb ip_address lookup_path (opt_verbose opts) s)
             (\<lambda>code. returns (Main_exit code)) }
         else do {
           s \<leftarrow> free_path lookup_path s;
           if opt_threads opts > 0 then returns (Main_threads mmdb (opt_threads opts) (opt_iterations opts)) s
           else call (benchmark env mmdb (opt_iterations opts) s) (\<lambda>code. returns (Main_exit code)) })"

definition main :: "environment \<Rightarrow> process \<Rightarrow> main_end outcome" where
  "main env s =
    call (get_options env s) (\<lambda>(opts, lookup_path) s. do {
      mmdb_file \<leftarrow> opt_file opts;
      call (open_or_die env mmdb_file s) (\<lambda>mmdb s. do {
        s \<leftarrow> (if opt_verbose opts then dump_meta env mmdb s else Some s);
        main_mode env opts lookup_path mmdb s }) })"

end
