(* ===== verification/Mmdblookup_Safety.thy ===== *)
theory Mmdblookup_Safety
  imports Mmdblookup
begin

text \<open>
  Safety of \<open>bin/mmdblookup.c\<close>: for every database file, every answer of the platform and every
  command line the process performs no invalid access, ends with one of its documented exit codes
  or starts its threads, and gives back what it has allocated, mapped and opened. The metadata of
  an open database is \<open>printable\<close>: no string that \<open>dump_meta\<close> prints is a null pointer.
\<close>

section \<open>The strings that dump\_meta prints\<close>

definition printable_languages :: "MMDB_metadata_s \<Rightarrow> bool" where
  "printable_languages m \<longleftrightarrow> (\<forall>i < languages_count m. \<exists>a ns.
     languages_names m = Some (a, ns) \<and> i < length ns \<and> ns ! i \<noteq> None)"

definition printable_descriptions :: "MMDB_metadata_s \<Rightarrow> bool" where
  "printable_descriptions m \<longleftrightarrow> (\<forall>i < description_count m. \<exists>a ds b d.
     descriptions m = Some (a, ds) \<and> i < length ds \<and> ds ! i = Some (b, d) \<and>
     language d \<noteq> None \<and> description d \<noteq> None)"

definition printable :: "MMDB_metadata_s \<Rightarrow> bool" where
  "printable m \<longleftrightarrow> database_type m \<noteq> None \<and> printable_languages m \<and> printable_descriptions m"

lemma chk_with_success:
  "chk_with g m f = Some (MMDB_SUCCESS, y) \<longleftrightarrow> (\<exists>x. m = Some (MMDB_SUCCESS, x) \<and> f x = Some (MMDB_SUCCESS, y))"
  by (cases m) (auto simp: chk_with_def split: if_splits)

lemma set_language_name_success:
  "set_language_name i name db = Some db' \<longleftrightarrow> (\<exists>a ns. languages_names (db_metadata db) = Some (a, ns) \<and>
     i < length ns \<and> db' = db\<lparr>db_metadata := (db_metadata db)\<lparr>languages_names := Some (a, ns[i := name])\<rparr>\<rparr>)"
  by (auto simp: set_language_name_def split: option.splits if_splits)

lemma set_description_success:
  "set_description i d db = Some db' \<longleftrightarrow> (\<exists>a ds. descriptions (db_metadata db) = Some (a, ds) \<and>
     i < length ds \<and> db' = db\<lparr>db_metadata := (db_metadata db)\<lparr>descriptions := Some (a, ds[i := d])\<rparr>\<rparr>)"
  by (auto simp: set_description_def split: option.splits if_splits)

lemma printable_languages_step:
  assumes "printable_languages m" and "languages_names m = Some (a, ns)" and "languages_count m = i" and "i < length ns"
  shows "printable_languages (m\<lparr>languages_names := Some (a, ns[i := Some x]), languages_count := i + 1\<rparr>)"
  using assms by (auto simp: printable_languages_def nth_list_update less_Suc_eq)

lemma populate_languages_from_printable:
  assumes "populate_languages_from pool k i member (db, h) = Some (MMDB_SUCCESS, (db', h'))"
    and "printable_languages (db_metadata db)" and "languages_count (db_metadata db) = i"
  shows "printable_languages (db_metadata db') \<and> but_languages (db_metadata db') = but_languages (db_metadata db)"
  using assms
proof (induction k arbitrary: i member db h)
  case (Suc k)
  from Suc.prems(1) obtain e member' str name h1 db1 where
    name: "set_language_name i name db = Some db1" "name \<noteq> None"
    and rest: "populate_languages_from pool k (i + 1) member' (set_languages_count (i + 1) db1, h1) =
      Some (MMDB_SUCCESS, (db', h'))"
    by (auto split: bind_splits if_splits)
  obtain a ns where ns: "languages_names (db_metadata db) = Some (a, ns)" "i < length ns"
    "db1 = db\<lparr>db_metadata := (db_metadata db)\<lparr>languages_names := Some (a, ns[i := name])\<rparr>\<rparr>"
    using name(1) by (auto simp: set_language_name_success)
  obtain x where x: "name = Some x" using name(2) by blast
  have "printable_languages (db_metadata (set_languages_count (i + 1) db1))"
    using printable_languages_step [OF Suc.prems(2) ns(1) Suc.prems(3) ns(2), of x] ns(3) x
    by (simp add: set_languages_count_def)
  from Suc.IH [OF rest this] show ?case
    using ns(3) by (simp add: set_languages_count_def but_languages_def)
qed auto

lemma printable_descriptions_step:
  assumes "printable_descriptions m" and "descriptions m = Some (a, ds)" and "description_count m = i" and "i < length ds"
    and "language d \<noteq> None" "description d \<noteq> None"
  shows "printable_descriptions (m\<lparr>descriptions := Some (a, ds[i := Some (b, d)]), description_count := i + 1\<rparr>)"
  using assms by (auto simp: printable_descriptions_def nth_list_update less_Suc_eq)

lemma populate_descriptions_from_printable:
  assumes "populate_descriptions_from pool k i member (db, h) = Some (MMDB_SUCCESS, (db', h'))"
    and "printable_descriptions (db_metadata db)" and "description_count (db_metadata db) = i"
  shows "printable_descriptions (db_metadata db') \<and> but_descriptions (db_metadata db') = but_descriptions (db_metadata db)"
  using assms
proof (induction k arbitrary: i member db h)
  case (Suc k)
  from Suc.prems(1) obtain b h1 db1 db2 db3 member' lang desc h2 where
    1: "set_description i (Some (b, \<lparr>language = None, description = None\<rparr>)) db = Some db1"
    and 2: "set_description i (Some (b, \<lparr>language = lang, description = None\<rparr>)) (set_description_count (i + 1) db1) = Some db2"
    and 3: "set_description i (Some (b, \<lparr>language = lang, description = desc\<rparr>)) db2 = Some db3"
    and some: "lang \<noteq> None" "desc \<noteq> None"
    and rest: "populate_descriptions_from pool k (i + 1) member' (db3, h2) = Some (MMDB_SUCCESS, (db', h'))"
    by (auto simp: Let_def split: bind_splits if_splits prod.splits option.splits)
  obtain a ds where ds: "descriptions (db_metadata db) = Some (a, ds)" "i < length ds"
    using 1 by (auto simp: set_description_success)
  have db3: "db3 = db\<lparr>db_metadata := (db_metadata db)\<lparr>
      descriptions := Some (a, ds[i := Some (b, \<lparr>language = lang, description = desc\<rparr>)]), description_count := i + 1\<rparr>\<rparr>"
    using 1 2 3 ds(1) by (auto simp: set_description_success set_description_count_def)
  have "printable_descriptions (db_metadata db3)"
    using printable_descriptions_step [OF Suc.prems(2) ds(1) Suc.prems(3) ds(2),
        of "\<lparr>language = lang, description = desc\<rparr>" b] some db3 by simp
  from Suc.IH [OF rest this] show ?case
    using db3 by (simp add: but_descriptions_def)
qed auto

lemma populate_languages_metadata_printable:
  assumes "populate_languages_metadata stacks mdb start (db, h) = Some (MMDB_SUCCESS, (db', h'))"
  shows "printable_languages (db_metadata db') \<and> but_languages (db_metadata db') = but_languages (db_metadata db)"
proof -
  let ?db = "\<lambda>a n. (set_languages_count 0 db)
    \<lparr>db_metadata := (db_metadata (set_languages_count 0 db))\<lparr>languages_names := Some (a, replicate n None)\<rparr>\<rparr>"
  obtain l where body: "Option.bind l (\<lambda>(member, pool). Option.bind (pool_entry pool member) (\<lambda>e.
      case c_malloc h of
        (None, h) \<Rightarrow> Some (MMDB_OUT_OF_MEMORY_ERROR, ((set_languages_count 0 db)
          \<lparr>db_metadata := (db_metadata (set_languages_count 0 db))\<lparr>languages_names := None\<rparr>\<rparr>, h))
      | (Some a, h) \<Rightarrow> populate_languages_from pool (unat (data_size e)) 0 member (?db a (unat (data_size e)), h))) =
      Some (MMDB_SUCCESS, (db', h'))"
    using assms by (auto simp: populate_languages_metadata_def chk_with_success Let_def split: if_splits)
  obtain member pool e where l: "l = Some (member, pool)" "pool_entry pool member = Some e"
    using body by (cases l) (auto simp: bind_eq_Some_conv)
  obtain a h1 where "c_malloc h = (Some a, h1)"
    using body l by (cases "c_malloc h"; cases "fst (c_malloc h)") auto
  with body l have "populate_languages_from pool (unat (data_size e)) 0 member (?db a (unat (data_size e)), h1) =
      Some (MMDB_SUCCESS, (db', h'))" by simp
  from populate_languages_from_printable [OF this] show ?thesis
    by (simp add: set_languages_count_def printable_languages_def but_languages_def)
qed

lemma populate_description_metadata_printable:
  assumes "populate_description_metadata stacks mdb start (db, h) = Some (MMDB_SUCCESS, (db', h'))"
  shows "printable_descriptions (db_metadata db') \<and> but_descriptions (db_metadata db') = but_descriptions (db_metadata db)"
proof -
  let ?none = "(set_description_count 0 db)\<lparr>db_metadata := (db_metadata (set_description_count 0 db))\<lparr>descriptions := None\<rparr>\<rparr>"
  let ?db = "\<lambda>a n. (set_description_count 0 db)
    \<lparr>db_metadata := (db_metadata (set_description_count 0 db))\<lparr>descriptions := Some (a, replicate n None)\<rparr>\<rparr>"
  obtain l where body: "Option.bind l (\<lambda>(member, pool). Option.bind (pool_entry pool member) (\<lambda>e.
      if unat (data_size e) = 0 then Some (MMDB_SUCCESS, (?none, h))
      else case c_malloc h of
        (None, h) \<Rightarrow> Some (MMDB_OUT_OF_MEMORY_ERROR, (?none, h))
      | (Some a, h) \<Rightarrow> populate_descriptions_from pool (unat (data_size e)) 0 member (?db a (unat (data_size e)), h))) =
      Some (MMDB_SUCCESS, (db', h'))"
    using assms by (auto simp: populate_description_metadata_def chk_with_success Let_def split: if_splits cong: if_cong)
  obtain member pool e where l: "l = Some (member, pool)" "pool_entry pool member = Some e"
    using body by (cases l) (auto simp: bind_eq_Some_conv)
  consider "db' = ?none"
    | a h1 where "populate_descriptions_from pool (unat (data_size e)) 0 member (?db a (unat (data_size e)), h1) =
      Some (MMDB_SUCCESS, (db', h'))"
    using body l by (cases "c_malloc h"; cases "fst (c_malloc h)") (auto split: if_splits)
  then show ?thesis
  proof cases
    case 2
    from populate_descriptions_from_printable [OF this] show ?thesis
      by (simp add: set_description_count_def printable_descriptions_def but_descriptions_def)
  qed (simp add: set_description_count_def printable_descriptions_def but_descriptions_def)
qed


text \<open>The other stages keep the strings.\<close>

definition same_strings :: "MMDB_metadata_s \<Rightarrow> MMDB_metadata_s \<Rightarrow> bool" where
  "same_strings m m' \<longleftrightarrow> database_type m' = database_type m \<and>
     languages_count m' = languages_count m \<and> languages_names m' = languages_names m \<and>
     description_count m' = description_count m \<and> descriptions m' = descriptions m"

lemma same_strings_printable:
  assumes "same_strings m m'"
  shows "printable m' = printable m" and "printable_languages m' = printable_languages m"
    and "database_type m' = database_type m"
  using assms by (simp_all add: same_strings_def printable_def printable_languages_def printable_descriptions_def)

lemma but_languages_database_type: "but_languages m = but_languages m' \<Longrightarrow> database_type m = database_type m'"
  by (drule arg_cong [of _ _ database_type]) (simp add: but_languages_def)

lemma but_descriptions_strings:
  assumes "but_descriptions m = but_descriptions m'"
  shows "database_type m = database_type m'" and "printable_languages m = printable_languages m'"
proof -
  show "database_type m = database_type m'"
    using arg_cong [OF assms, of database_type] by (simp add: but_descriptions_def)
  show "printable_languages m = printable_languages m'"
    using arg_cong [OF assms, of languages_count] arg_cong [OF assms, of languages_names]
    by (simp add: but_descriptions_def printable_languages_def)
qed

lemma read_stages_keep_strings:
  "read_node_count stacks start s = Some (MMDB_SUCCESS, s') \<Longrightarrow> same_strings (db_metadata (fst s)) (db_metadata (fst s'))"
  "read_record_size stacks start s = Some (MMDB_SUCCESS, s') \<Longrightarrow> same_strings (db_metadata (fst s)) (db_metadata (fst s'))"
  "read_ip_version stacks start s = Some (MMDB_SUCCESS, s') \<Longrightarrow> same_strings (db_metadata (fst s)) (db_metadata (fst s'))"
  "read_major_version stacks start s = Some (MMDB_SUCCESS, s') \<Longrightarrow> same_strings (db_metadata (fst s)) (db_metadata (fst s'))"
  "read_minor_version stacks start s = Some (MMDB_SUCCESS, s') \<Longrightarrow> same_strings (db_metadata (fst s)) (db_metadata (fst s'))"
  "read_build_epoch stacks start s = Some (MMDB_SUCCESS, s') \<Longrightarrow> same_strings (db_metadata (fst s)) (db_metadata (fst s'))"
  "set_record_layout s = Some (MMDB_SUCCESS, s') \<Longrightarrow> same_strings (db_metadata (fst s)) (db_metadata (fst s'))"
  by (cases s, auto simp: read_node_count_def read_record_size_def read_ip_version_def read_major_version_def
      read_minor_version_def read_build_epoch_def set_record_layout_def chk_with_success Let_def same_strings_def
      split: if_splits)+

lemma value_for_key_as_string_not_null:
  "value_for_key_as_string stacks start key s = Some (MMDB_SUCCESS, v, h) \<Longrightarrow> v \<noteq> None"
  by (auto simp: value_for_key_as_string_def chk_with_success bind_eq_Some_conv split: if_splits prod.splits)

lemma read_database_type_not_null:
  "read_database_type stacks start s = Some (MMDB_SUCCESS, s') \<Longrightarrow> database_type (db_metadata (fst s')) \<noteq> None"
  by (cases s) (auto simp: read_database_type_def dest: value_for_key_as_string_not_null)

lemma read_metadata_printable:
  assumes "read_metadata stacks s = Some (MMDB_SUCCESS, s')"
  shows "printable (db_metadata (fst s'))"
proof -
  define mdb where "mdb = make_fake_metadata_db (fst s)"
  define start where "start = \<lparr>entry_mmdb = mdb, entry_offset = 0\<rparr>"
  obtain s1 s2 s3 s4 s5 s6 s7 s8 s9 where
    "read_node_count stacks start s = Some (MMDB_SUCCESS, s1)"
    "read_record_size stacks start s1 = Some (MMDB_SUCCESS, s2)"
    "read_ip_version stacks start s2 = Some (MMDB_SUCCESS, s3)"
    and 4: "read_database_type stacks start s3 = Some (MMDB_SUCCESS, s4)"
    and 5: "populate_languages_metadata stacks mdb start s4 = Some (MMDB_SUCCESS, s5)"
    and 6: "read_major_version stacks start s5 = Some (MMDB_SUCCESS, s6)"
    and 7: "read_minor_version stacks start s6 = Some (MMDB_SUCCESS, s7)"
    and 8: "read_build_epoch stacks start s7 = Some (MMDB_SUCCESS, s8)"
    and 9: "populate_description_metadata stacks mdb start s8 = Some (MMDB_SUCCESS, s9)"
    and 10: "set_record_layout s9 = Some (MMDB_SUCCESS, s')"
    using assms by (auto simp only: read_metadata_def Let_def chk_with_success mdb_def start_def)
  have languages: "printable_languages (db_metadata (fst s5))"
    "database_type (db_metadata (fst s5)) = database_type (db_metadata (fst s4))"
    using populate_languages_metadata_printable [of stacks mdb start "fst s4" "snd s4" "fst s5" "snd s5"] 5
      but_languages_database_type [of "db_metadata (fst s5)"] by auto
  have same: "printable_languages (db_metadata (fst s8)) = printable_languages (db_metadata (fst s5))"
    "database_type (db_metadata (fst s8)) = database_type (db_metadata (fst s5))"
    using same_strings_printable(2,3) [OF read_stages_keep_strings(4) [OF 6]]
      same_strings_printable(2,3) [OF read_stages_keep_strings(5) [OF 7]]
      same_strings_printable(2,3) [OF read_stages_keep_strings(6) [OF 8]] by simp_all
  have descs: "printable_descriptions (db_metadata (fst s9))"
    "but_descriptions (db_metadata (fst s9)) = but_descriptions (db_metadata (fst s8))"
    using populate_description_metadata_printable [of stacks mdb start "fst s8" "snd s8" "fst s9" "snd s9"] 9 by auto
  have "printable (db_metadata (fst s9))"
    using descs(1) but_descriptions_strings [OF descs(2)] same languages read_database_type_not_null [OF 4]
    by (simp add: printable_def)
  then show ?thesis using same_strings_printable(1) [OF read_stages_keep_strings(7) [OF 10]] by simp
qed

lemma set_sections_metadata: "set_sections db = Some (st, db') \<Longrightarrow> db_metadata db' = db_metadata db"
  by (auto simp: set_sections_def Let_def split: if_splits)

lemma set_ipv4_start_metadata: "set_ipv4_start db = Some (st, db') \<Longrightarrow> db_metadata db' = db_metadata db"
  by (auto simp: set_ipv4_start_def find_ipv4_start_node_def Let_def chk_with_def
      split: if_splits option.splits prod.splits)

lemma MMDB_open_printable:
  assumes "MMDB_open os stacks filename flags s0 = Some (MMDB_SUCCESS, (db, h))"
  shows "printable (db_metadata db)"
proof -
  obtain db0 h0 where s0: "s0 = (db0, h0)" by (cases s0)
  obtain db1 h1 where dup: "mmdb_strdup filename h0 = (db1, h1)" by fastforce
  obtain s2 s3 db4 where
    meta: "open_metadata stacks s2 = Some (MMDB_SUCCESS, s3)"
    and secs: "set_sections (fst s3) = Some (MMDB_SUCCESS, db4)" and start: "set_ipv4_start db4 = Some (MMDB_SUCCESS, db)"
    using assms s0 dup
    by (auto simp: MMDB_open_def Let_def chk_with_success bind_eq_Some_conv split: if_splits prod.splits)
  obtain s2' where read: "read_metadata stacks s2' = Some (MMDB_SUCCESS, s3)"
    using meta by (auto simp: open_metadata_def chk_with_success bind_eq_Some_conv split: if_splits prod.splits option.splits)
  show ?thesis
    using read_metadata_printable [OF read] set_sections_metadata [OF secs] set_ipv4_start_metadata [OF start] by simp
qed

section \<open>Outcomes\<close>

text \<open>
  \<open>runs m codes Q\<close>: no invalid access; an \<open>exit\<close> has one of the codes, a return satisfies \<open>Q\<close>.
\<close>

definition runs :: "'a outcome \<Rightarrow> int set \<Rightarrow> ('a \<Rightarrow> process \<Rightarrow> bool) \<Rightarrow> bool" where
  "runs m codes Q =
    (case m of None \<Rightarrow> False | Some (Inl code, s) \<Rightarrow> code \<in> codes | Some (Inr x, s) \<Rightarrow> Q x s)"

lemma runs_simps [simp]:
  "\<not> runs None codes Q"
  "runs (returns x s) codes Q = Q x s"
  "runs (exit_with code s) codes Q \<longleftrightarrow> code \<in> codes"
  by (simp_all add: runs_def returns_def exit_with_def)

lemma runs_call:
  assumes m: "runs m codes P" and f: "\<And>x s. P x s \<Longrightarrow> runs (f x s) codes Q"
  shows "runs (call m f) codes Q"
proof -
  obtain r s where r: "m = Some (r, s)" using m by (cases m) auto
  then show ?thesis using m f by (cases r) (simp_all add: runs_def call_def)
qed

lemma runs_mono: "runs m codes P \<Longrightarrow> codes \<subseteq> codes' \<Longrightarrow> (\<And>x s. P x s \<Longrightarrow> Q x s) \<Longrightarrow> runs m codes' Q"
  by (auto simp: runs_def split: option.splits prod.splits sum.splits)

lemma runs_if: "(b \<Longrightarrow> runs m codes Q) \<Longrightarrow> (\<not> b \<Longrightarrow> runs m' codes Q) \<Longrightarrow> runs (if b then m else m') codes Q"
  by simp

lemma heap_print [simp]:
  "heap (print_out str s) = heap s" "heap (print_err str s) = heap s"
  by (simp_all add: print_out_def print_err_def)

section \<open>The lists of the tool\<close>

lemma list_entries_linked_entries: "list_entries pool n p = Some es \<Longrightarrow> linked_entries pool p = Some es"
proof (induction pool n p arbitrary: es rule: list_entries.induct)
  case (1 pool fuel)
  then show ?case by (simp add: linked_entries.simps [of pool None])
next
  case (3 pool fuel p)
  then show ?case by (auto simp: linked_entries.simps [of pool "Some p"] split: option.splits)
qed simp

text \<open>A list that \<open>MMDB_get_entry_data_list\<close> has returned.\<close>

definition list_ok :: "MMDB_s \<Rightarrow> list_result \<Rightarrow> bool" where
  "list_ok mmdb l \<longleftrightarrow> (\<exists>p pool e es. l = Some (p, pool) \<and> linked_entries pool (Some p) = Some (e # es) \<and>
     pending 1 (e # es) = Some 0 \<and> list_all (entry_ok mmdb) (e # es))"

lemma get_list_wp':
  assumes "wf_section mmdb" and "entry_mmdb start = mmdb"
  shows "wp (get_list start s) (\<lambda>st l. if st = MMDB_SUCCESS then list_ok mmdb l
    else l = None \<and> st \<in> {MMDB_INVALID_DATA_ERROR, MMDB_OUT_OF_MEMORY_ERROR})"
  unfolding get_list_def
proof (rule wp_mono [OF MMDB_get_entry_data_list_any])
  show "wf_section (entry_mmdb start)" using assms by simp
  fix st and r :: list_result
  assume post: "if st = MMDB_SUCCESS
    then \<exists>pool e es. r = Some ((0, 0), pool) \<and> list_entries pool (Suc (length es)) (Some (0, 0)) = Some (e # es) \<and>
      pending (children e) es = Some 0 \<and> list_all (entry_ok (entry_mmdb start)) (e # es)
    else r = None \<and> st \<in> {MMDB_INVALID_DATA_ERROR, MMDB_OUT_OF_MEMORY_ERROR}"
  show "if st = MMDB_SUCCESS then list_ok mmdb r
    else r = None \<and> st \<in> {MMDB_INVALID_DATA_ERROR, MMDB_OUT_OF_MEMORY_ERROR}"
  proof (cases "st = MMDB_SUCCESS")
    case True
    then obtain pool e es where "r = Some ((0, 0), pool)"
      and "list_entries pool (Suc (length es)) (Some (0, 0)) = Some (e # es)"
      and "pending (children e) es = Some 0" "list_all (entry_ok mmdb) (e # es)"
      using post assms(2) by auto
    then show ?thesis
      using True list_entries_linked_entries unfolding list_ok_def
      by (simp del: list_entries.simps)
  qed (use post in simp)
qed

lemma get_listE:
  assumes "wf_section mmdb" and "entry_mmdb start = mmdb"
  obtains st l where "get_list start s = Some (st, l)"
    and "st = MMDB_SUCCESS \<Longrightarrow> list_ok mmdb l" and "st \<noteq> MMDB_SUCCESS \<Longrightarrow> l = None"
  using get_list_wp' [OF assms, of s] unfolding wp_iff_ex by (metis (full_types))

lemma free_list_ok [simp]: "list_ok mmdb l \<Longrightarrow> free_list l s = Some s"
  by (auto simp: list_ok_def free_list_def MMDB_free_entry_data_list_def linked_entries.simps bind_eq_Some_conv)

lemma free_list_None [simp]: "free_list None s = Some s"
  by (simp add: free_list_def)

lemma dump_listE:
  assumes "list_ok mmdb (Some ptr)"
  obtains st str h' where "dump_list mmdb indent ptr h = Some (st, (str, h'))"
    and "live h' = live h" and "same_files h h'"
proof -
  obtain e es where es: "linked_entries (snd ptr) (Some (fst ptr)) = Some (e # es)"
    and ok: "pending 1 (e # es) = Some 0" "list_all (entry_ok mmdb) (e # es)"
    using assms by (auto simp: list_ok_def)
  from MMDB_dump_entry_data_list_wp [OF ok, of indent "[]" h] es that show ?thesis
    by (auto simp: dump_list_def wp_iff_ex)
qed

section \<open>Looking up\<close>

text \<open>What \<open>getaddrinfo\<close> promises: if it succeeds, its first address is well formed.\<close>

definition getaddrinfo_ok :: "environment \<Rightarrow> bool" where
  "getaddrinfo_ok env \<longleftrightarrow> (\<forall>str. case env_getaddrinfo env str of
     (gai, addr) \<Rightarrow> gai = 0 \<longrightarrow> (\<exists>sa. addr = Some sa \<and> sockaddr_ok sa))"

lemma lookup_or_die_runs:
  assumes "opened mmdb" and "getaddrinfo_ok env"
  shows "runs (lookup_or_die env mmdb ipstr s) {3, 4} (\<lambda>r s'. s' = s \<and> entry_mmdb (result_entry r) = mmdb)"
proof -
  obtain gai addr where g: "env_getaddrinfo env ipstr = (gai, addr)" by fastforce
  show ?thesis
  proof (cases "gai = 0")
    case True
    then obtain sa where sa: "addr = Some sa" "sockaddr_ok sa"
      using assms(2) g by (auto simp: getaddrinfo_ok_def split: prod.splits)
    then obtain st r where "MMDB_lookup_sockaddr mmdb sa = Some (st, r)" "entry_mmdb (result_entry r) = mmdb"
      using lookup_sockaddr_wp [of mmdb sa] opened_wf [OF assms(1)] by (auto simp: wp_iff_ex)
    then show ?thesis
      using g sa True by (simp add: lookup_or_die_def MMDB_lookup_string_def resolve_any_address_def)
  next
    case False
    then show ?thesis using g by (simp add: lookup_or_die_def MMDB_lookup_string_def resolve_any_address_def)
  qed
qed

text \<open>The memory and the mappings stay; \<open>k\<close> file descriptors have been closed.\<close>

definition kept :: "nat \<Rightarrow> process \<Rightarrow> process \<Rightarrow> bool" where
  "kept k s s' \<longleftrightarrow> live (heap s') = live (heap s) \<and> mappings (heap s') = mappings (heap s) \<and>
     open_fds (heap s') + k = open_fds (heap s)"

lemma kept_trans: "kept k s s' \<Longrightarrow> kept l s' s'' \<Longrightarrow> kept (k + l) s s''"
  by (simp add: kept_def)

lemma kept_print [simp]:
  "kept k s (print_out str s') = kept k s s'" "kept k s (print_err str s') = kept k s s'"
  by (simp_all add: kept_def)

lemma kept_refl [simp]: "kept 0 s s" by (simp add: kept_def)

lemma kept_close: "kept 0 s s' \<Longrightarrow> 0 < open_fds (heap s) \<Longrightarrow> kept (Suc 0) s (close_file s')"
  by (simp add: kept_def close_file_def close_fd_def)

lemma kept_heap: "kept 0 s s' \<Longrightarrow> live h = live (heap s') \<Longrightarrow> same_files (heap s') h \<Longrightarrow> kept 0 s (s'\<lparr>heap := h\<rparr>)"
  by (simp add: kept_def same_files_def)

lemma lookup_line_runs:
  assumes mmdb: "opened mmdb" "getaddrinfo_ok env" and fds: "0 < open_fds (heap s)"
  shows "runs (lookup_line env mmdb dump buf s) {3, 4} (\<lambda>continue s'. kept (if continue then 0 else 1) s s')"
  unfolding lookup_line_def
proof (rule runs_call [OF lookup_or_die_runs [OF mmdb]], elim conjE)
  fix r s1 assume s1: "s1 = s" and r: "entry_mmdb (result_entry r) = mmdb"
  have wf: "wf_section mmdb" using opened_wf mmdb(1) by blast
  obtain st l where get: "get_list (result_entry r) s = Some (st, l)"
    and l: "st = MMDB_SUCCESS \<Longrightarrow> list_ok mmdb l" "st \<noteq> MMDB_SUCCESS \<Longrightarrow> l = None"
    using get_listE [OF wf r, of s] by blast
  show "runs (if \<not> found_entry r then returns True s1
      else do {
        (status, l) \<leftarrow> get_list (result_entry r) s1;
        if status \<noteq> MMDB_SUCCESS then do {
          s \<leftarrow> free_list l (close_file
            (print_err (ascii ''MMDB_get_entry_data_list(): '' @ strerror_text status @ [10]) s1));
          returns False s }
        else
          case l of
            None \<Rightarrow> returns False (close_file (print_err (line ''entry_data_list is NULL'') s1))
          | Some ptr \<Rightarrow>
              if dump then do {
                let s = print_out (buf @ line '':'') s1;
                (status2, text, h) \<leftarrow> dump_list mmdb 0 ptr (heap s);
                let s = print_err text (s\<lparr>heap := h\<rparr>);
                if status2 \<noteq> MMDB_SUCCESS then do {
                  s \<leftarrow> free_list l (close_file
                    (print_err (ascii ''MMDB_dump_entry_data_list(): '' @ strerror_text status2 @ [10]) s));
                  returns False s }
                else do { s \<leftarrow> free_list l s; returns True s } }
              else do { s \<leftarrow> free_list l s1; returns True s } })
      {3, 4} (\<lambda>continue s'. kept (if continue then 0 else 1) s s')"
  proof (cases "found_entry r \<and> st = MMDB_SUCCESS")
    case False
    then show ?thesis using s1 get l(2) fds by (auto simp: kept_close)
  next
    case True
    then have ok: "list_ok mmdb l" using l(1) by simp
    then obtain ptr where ptr: "l = Some ptr" by (auto simp: list_ok_def)
    obtain st2 str h' where d: "dump_list mmdb 0 ptr (heap s) = Some (st2, (str, h'))"
      and h': "live h' = live (heap s)" "same_files (heap s) h'"
      using dump_listE [of mmdb ptr 0 "heap s"] ok ptr by blast
    have "kept 0 s ((print_out (buf @ line '':'') s)\<lparr>heap := h'\<rparr>)" using h' by (simp add: kept_heap)
    then show ?thesis
      using True s1 get ok ptr d fds by (auto simp: kept_close Let_def)
  qed
qed

lemma lookup_lines_runs:
  assumes mmdb: "opened mmdb" "getaddrinfo_ok env"
  shows "0 < open_fds (heap s) \<Longrightarrow> runs (lookup_lines env mmdb dump fh input i s) {3, 4} (\<lambda>r s'. kept 1 s s')"
  using mmdb
proof (induction env mmdb dump fh input i s rule: lookup_lines.induct)
  case (1 env mmdb dump fh input i s)
  obtain chunk rest where f: "fgets 1024 input = (chunk, rest)" by fastforce
  show ?case
  proof (cases "input = []")
    case True
    then show ?thesis using 1(3) by (simp add: lookup_lines.simps [of env mmdb dump fh "[]"] kept_close)
  next
    case False
    show ?thesis
    proof (cases "chomp chunk = []")
      case True
      then show ?thesis
        using 1(1) [OF False refl f [symmetric] refl] 1(3-) False f
        by (simp add: lookup_lines.simps [of env mmdb dump fh input])
    next
      case nonempty: False
      have "runs (call (lookup_line env mmdb dump (chomp chunk) s) (\<lambda>continue s.
          if continue then lookup_lines env mmdb dump fh rest (i + 1) s else returns None s)) {3, 4} (\<lambda>r s'. kept 1 s s')"
      proof (rule runs_call [OF lookup_line_runs [OF 1(4,5,3)]])
        fix continue s1 assume s1: "kept (if continue then 0 else 1) s s1"
        show "runs (if continue then lookup_lines env mmdb dump fh rest (i + 1) s1 else returns None s1) {3, 4} (\<lambda>r s'. kept 1 s s')"
        proof (cases continue)
          case True
          then have k: "kept 0 s s1" using s1 by simp
          then have "0 < open_fds (heap s1)" using 1(3) by (simp add: kept_def)
          then have "runs (lookup_lines env mmdb dump fh rest (i + 1) s1) {3, 4} (\<lambda>r s'. kept 1 s1 s')"
            using 1(2) [OF False refl f [symmetric] refl _ True] nonempty 1(4,5) by simp
          then show ?thesis using True kept_trans [OF k] by (auto elim: runs_mono)
        qed (use s1 in simp)
      qed
      then show ?thesis
        using False nonempty f by (simp add: lookup_lines.simps [of env mmdb dump fh input])
    qed
  qed
qed

lemma lookup_from_file_runs:
  assumes "opened mmdb" and "getaddrinfo_ok env"
  shows "runs (lookup_from_file env mmdb ip_file dump s) {3, 4} (\<lambda>ok s'. kept 0 s s')"
proof (cases "env_fopen env ip_file")
  case (Some fh)
  let ?s = "s\<lparr>heap := (heap s)\<lparr>open_fds := open_fds (heap s) + 1\<rparr>\<rparr>"
  have start: "runs (lookup_lines env mmdb dump fh (content fh) 0 ?s) {3, 4} (\<lambda>r s'. kept 1 ?s s')"
    by (rule lookup_lines_runs [OF assms]) simp
  show ?thesis
    unfolding lookup_from_file_def Some option.case
    by (rule runs_call [OF start]) (auto simp: kept_def Let_def split: option.splits prod.splits)
qed (simp add: lookup_from_file_def)

lemma benchmark_loop_runs:
  assumes mmdb: "opened mmdb" "getaddrinfo_ok env"
  shows "runs (benchmark_loop env mmdb n s) {3, 4} (\<lambda>r s'. kept 0 s s')"
proof (induction n arbitrary: s)
  case (Suc n)
  obtain ip s1 where ip: "next_random_ipv4 env s = (ip, s1)" by fastforce
  then have k: "kept 0 s s1" by (auto simp: next_random_ipv4_def kept_def)
  have wf: "wf_section mmdb" using opened_wf mmdb(1) by blast
  have rest: "runs (benchmark_loop env mmdb n s1) {3, 4} (\<lambda>r s'. kept 0 s s')"
    using runs_mono [OF Suc.IH [of s1] subset_refl] kept_trans [OF k] by force
  show ?case
    unfolding benchmark_loop.simps ip Let_def prod.case
  proof (rule runs_call [OF lookup_or_die_runs [OF mmdb]], elim conjE)
    fix r s2 assume s2: "s2 = s1" and r: "entry_mmdb (result_entry r) = mmdb"
    obtain st l where get: "get_list (result_entry r) s1 = Some (st, l)"
      and l: "st = MMDB_SUCCESS \<Longrightarrow> list_ok mmdb l" "st \<noteq> MMDB_SUCCESS \<Longrightarrow> l = None"
      using get_listE [OF wf r, of s1] by blast
    show "runs (if found_entry r then do {
         (status, l) \<leftarrow> get_list (result_entry r) s2;
         if status \<noteq> MMDB_SUCCESS then do {
           s \<leftarrow> free_list l (print_err (ascii ''Got an error looking up the entry data - '' @
             strerror_text status @ [10]) s2);
           returns False s }
         else do { s \<leftarrow> free_list l s2; benchmark_loop env mmdb n s } }
       else benchmark_loop env mmdb n s2) {3, 4} (\<lambda>r s'. kept 0 s s')"
      using s2 get l rest k by (cases "st = MMDB_SUCCESS") simp_all
  qed
qed simp

section \<open>Printing and closing\<close>

lemma handle_kept:
  "handle base h0 rest mmdb (heap s) \<Longrightarrow> kept 0 s s' \<Longrightarrow> handle base h0 rest mmdb (heap s')"
  by (simp add: handle_def freeable_def owns_def kept_def)

lemma MMDB_close_handle:
  assumes "handle base h0 rest mmdb h"
  obtains mmdb' h' where "MMDB_close (mmdb, h) = Some (mmdb', h')" and "owns h' base rest" and "same_files h0 h'"
proof -
  have "freeable base rest mmdb h" using assms by (simp add: handle_def)
  from free_mmdb_struct_owns [OF this] assms that show ?thesis
    by (auto simp: MMDB_close_def handle_def same_files_def)
qed

lemma print_each_ok:
  assumes "\<And>i. i < n \<Longrightarrow> \<exists>t. f i = Some t"
  shows "\<exists>s'. print_each f n s = Some s' \<and> kept 0 s s'"
  unfolding print_each_def
  by (rule for_each_upt) (use assms in force, simp)

lemma dump_meta_printable:
  assumes "printable (db_metadata mmdb)"
  shows "\<exists>s'. dump_meta env mmdb s = Some s' \<and> kept 0 s s'"
proof -
  let ?m = "db_metadata mmdb"
  obtain a where a: "database_type ?m = Some a" using assms by (auto simp: printable_def)
  have lang: "\<exists>t. language_text ?m i = Some t" if "i < languages_count ?m" for i
    using assms that by (fastforce simp: printable_def printable_languages_def language_text_def owned_text_def)
  have desc: "\<exists>t. description_text ?m i = Some t" if "i < description_count ?m" for i
    using assms that by (fastforce simp: printable_def printable_descriptions_def description_text_def owned_text_def)
  obtain s1 where s1: "print_each (language_text ?m) (languages_count ?m) (print_out (meta_dump env ?m (snd a)) s) = Some s1"
    and k1: "kept 0 s s1"
    using print_each_ok [of "languages_count ?m" "language_text ?m" "print_out (meta_dump env ?m (snd a)) s", OF lang]
    by (auto simp: kept_def)
  obtain s2 where "print_each (description_text ?m) (description_count ?m)
      (print_out (line '''' @ line ''    Description:'') s1) = Some s2" and "kept 0 s1 s2"
    using print_each_ok [of "description_count ?m" "description_text ?m"
        "print_out (line '''' @ line ''    Description:'') s1", OF desc] by (auto simp: kept_def)
  then show ?thesis using a s1 kept_trans [OF k1] by (simp add: dump_meta_def owned_text_def)
qed

section \<open>lookup\_and\_print and benchmark\<close>

lemma list_to_print_ok:
  assumes "opened mmdb" and r: "entry_mmdb (result_entry r) = mmdb"
  shows "\<exists>st l s'. list_to_print env mmdb path r s = Some (st, l, s') \<and> kept 0 s s' \<and>
    (l = None \<or> st = MMDB_SUCCESS \<and> list_ok mmdb l)"
proof -
  have wf: "wf_section mmdb" using opened_wf assms(1) by blast
  have get: "\<exists>st l. get_list start s = Some (st, l) \<and> (l = None \<or> st = MMDB_SUCCESS \<and> list_ok mmdb l)"
    if "entry_mmdb start = mmdb" for start
    using get_listE [OF wf that, of s] by metis
  obtain st e where aget: "MMDB_aget_value (env_stacks env) (result_entry r) path = Some (st, e)"
    using MMDB_aget_value_wp [of "result_entry r" "env_stacks env" path] wf r by (auto simp: wp_iff_ex)
  show ?thesis
  proof (cases "path \<noteq> [] \<and> st = MMDB_SUCCESS \<and> ed_offset e \<noteq> 0")
    case True
    obtain st2 l where "get_list \<lparr>entry_mmdb = mmdb, entry_offset = ed_offset e\<rparr> s = Some (st2, l)"
      "l = None \<or> st2 = MMDB_SUCCESS \<and> list_ok mmdb l"
      using get [of "\<lparr>entry_mmdb = mmdb, entry_offset = ed_offset e\<rparr>"] by auto
    then show ?thesis using True aget by (simp add: list_to_print_def)
  next
    case False
    obtain st2 l where "get_list (result_entry r) s = Some (st2, l)"
      "l = None \<or> st2 = MMDB_SUCCESS \<and> list_ok mmdb l"
      using get [OF r] by blast
    then show ?thesis using False aget by (auto simp: list_to_print_def)
  qed
qed

lemma print_result_ok:
  assumes mmdb: "opened mmdb" and r: "entry_mmdb (result_entry r) = mmdb"
  shows "\<exists>code l s'. print_result env mmdb ip path verbose r s = Some (code, l, s') \<and> kept 0 s s' \<and>
    code \<in> {0, 5, 6} \<and> (l = None \<or> list_ok mmdb l)"
proof -
  define s2 where "s2 = (if verbose
    then print_out (line '''' @ ascii ''  Record prefix length: '' @ decimal (unat (netmask r)) @ [10]) s else s)"
  have k2: "kept 0 s s2" by (simp add: s2_def)
  show ?thesis
  proof (cases "found_entry r")
    case False
    then show ?thesis using k2 by (simp add: print_result_def s2_def [symmetric])
  next
    case True
    obtain st l s3 where l: "list_to_print env mmdb path r s2 = Some (st, l, s3)" and k3: "kept 0 s2 s3"
      and ok: "l = None \<or> st = MMDB_SUCCESS \<and> list_ok mmdb l"
      using list_to_print_ok [OF mmdb r, of env path s2] by blast
    have k: "kept 0 s s3" using kept_trans [OF k2 k3] by simp
    show ?thesis
    proof (cases l)
      case None
      then show ?thesis using True l k by (simp add: print_result_def s2_def [symmetric])
    next
      case (Some ptr)
      obtain st2 str h' where "dump_list mmdb 2 ptr (heap s3) = Some (st2, (str, h'))"
        and h': "live h' = live (heap s3)" "same_files (heap s3) h'"
        using dump_listE [of mmdb ptr 2 "heap s3"] ok Some by blast
      then show ?thesis using True l ok Some kept_heap [OF k h'] by (simp add: print_result_def s2_def [symmetric])
    qed
  qed
qed

lemma lookup_and_print_runs:
  assumes mmdb: "opened mmdb" "getaddrinfo_ok env"
    and h: "handle base h0 {#a#} mmdb (heap s)"
  shows "runs (lookup_and_print env mmdb ip (a, path) verbose s) {3, 4}
    (\<lambda>code s'. code \<in> {0, 5, 6} \<and> live (heap s') = base \<and> same_files h0 (heap s'))"
  unfolding lookup_and_print_def
proof (rule runs_call [OF lookup_or_die_runs [OF mmdb]], elim conjE)
  fix r :: MMDB_lookup_result_s and s1 assume s1: "s1 = s" and r: "entry_mmdb (result_entry r) = mmdb"
  obtain code l s3 where body: "print_result env mmdb ip path verbose r s = Some (code, l, s3)" and k3: "kept 0 s s3"
    and code: "code \<in> {0, 5, 6}" and l: "l = None \<or> list_ok mmdb l"
    using print_result_ok [OF mmdb(1) r] by blast
  have free: "free_list l s3 = Some s3" using l by auto
  obtain mmdb' h' where close: "MMDB_close (mmdb, heap s3) = Some (mmdb', h')"
    and h': "owns h' base {#a#}" "same_files h0 h'"
    using MMDB_close_handle [OF handle_kept [OF h k3]] .
  have "c_free a h' = Some (h'\<lparr>live := base\<rparr>)" using h'(1) by (simp add: c_free_def owns_def)
  then show "runs (do {
      (exit_code, l, s) \<leftarrow> print_result env mmdb ip (snd (a, path)) verbose r s1;
      s \<leftarrow> free_list l s;
      (mmdb, h) \<leftarrow> MMDB_close (mmdb, heap s);
      h \<leftarrow> c_free (fst (a, path)) h;
      returns exit_code (s\<lparr>heap := h\<rparr>) }) {3, 4}
    (\<lambda>code s'. code \<in> {0, 5, 6} \<and> live (heap s') = base \<and> same_files h0 (heap s'))"
    using s1 body free close code h'(2) by (simp add: same_files_def)
qed

lemma benchmark_runs:
  assumes mmdb: "opened mmdb" "getaddrinfo_ok env" and h: "handle base h0 {#} mmdb (heap s)"
  shows "runs (benchmark env mmdb iterations s) {3, 4}
    (\<lambda>code s'. code \<in> {0, 5} \<and> live (heap s') = base \<and> same_files h0 (heap s'))"
  unfolding benchmark_def
proof (rule runs_call [OF benchmark_loop_runs [OF mmdb]])
  fix finished and s1 :: process assume k: "kept 0 s s1"
  obtain seconds rate where t: "env_times env iterations = (seconds, rate)" by fastforce
  obtain mmdb' h' where "MMDB_close (mmdb, heap s1) = Some (mmdb', h')" and "owns h' base {#}" "same_files h0 h'"
    using MMDB_close_handle [OF handle_kept [OF h k]] .
  then show "runs (let (seconds, rate) = env_times env iterations;
      s = (if finished
        then print_out (line '''' @ ascii ''  Looked up '' @ signed_decimal iterations @ ascii '' addresses in '' @
          seconds @ ascii '' seconds. '' @ rate @ line '' lookups per second.'' @ line '''') s1
        else s1) in do {
      (mmdb, h) \<leftarrow> MMDB_close (mmdb, heap s);
      returns (if finished then 0 else 5) (s\<lparr>heap := h\<rparr>) }) {3, 4}
    (\<lambda>code s'. code \<in> {0, 5} \<and> live (heap s') = base \<and> same_files h0 (heap s'))"
    using t by (simp add: Let_def owns_def)
qed

section \<open>main\<close>

lemma scan_options_runs:
  "runs (scan_options env opts o0 s) {1} (\<lambda>o' s'. kept 0 s s')"
proof (induction opts arbitrary: o0 s)
  case (Cons opt opts)
  have "runs (scan_option env opt o0 s) {1} (\<lambda>o' s'. kept 0 s s')"
    by (auto simp: scan_option_def usage_def Let_def split: prod.splits)
  then show ?case
    unfolding scan_options.simps
    by (rule runs_call) (use Cons.IH kept_trans in \<open>force elim: runs_mono\<close>)
qed simp

lemma get_options_runs:
  "runs (get_options env s) {0, 1} (\<lambda>(opts, path) s'. opt_file opts \<noteq> None \<and>
     (opt_ip opts = None \<longrightarrow> opt_iterations opts \<noteq> 0 \<or> opt_ip_file opts \<noteq> None) \<and>
     live (heap s') = add_mset (fst path) (live (heap s)) \<and> same_files (heap s) (heap s'))"
  unfolding get_options_def
proof (rule runs_call [OF runs_mono [OF scan_options_runs]])
  fix opts :: options and s1 :: process assume k: "kept 0 s s1"
  obtain r h where m: "c_malloc (heap s1) = (r, h)" by fastforce
  then show "runs (if opt_help opts then usage (env_program env) 0 None s1
      else if opt_version opts then
        exit_with 0 (print_out (line '''' @ ascii ''  '' @ env_program env @ ascii '' version '' @ env_version env @
          line '''' @ line '''') s1)
      else if opt_file opts = None then
        usage (env_program env) 1 (Some ''You must provide a filename with --file'') s1
      else if opt_ip opts = None \<and> opt_iterations opts = 0 \<and> opt_ip_file opts = None then
        usage (env_program env) 1 (Some ''You must provide an IP address with --ip'') s1
      else
        case c_malloc (heap s1) of
          (None, h) \<Rightarrow>
            exit_with 1 (print_err (ascii ''calloc(): '' @ env_strerror env ''calloc'' @ [10]) (s1\<lparr>heap := h\<rparr>))
        | (Some a, h) \<Rightarrow> returns (opts, (a, env_operands env)) (s1\<lparr>heap := h\<rparr>)) {0, 1}
    (\<lambda>(opts, path) s'. opt_file opts \<noteq> None \<and>
       (opt_ip opts = None \<longrightarrow> opt_iterations opts \<noteq> 0 \<or> opt_ip_file opts \<noteq> None) \<and>
       live (heap s') = add_mset (fst path) (live (heap s)) \<and> same_files (heap s) (heap s'))"
    using k c_malloc_live [OF m]
    by (cases r) (auto simp: usage_def kept_def same_files_def)
qed auto

text \<open>An address block of the caller is carried along by \<open>MMDB_open\<close>.\<close>

lemma open_or_die_runs:
  assumes "os_ok (env_os env)" and "metadata_at_end (env_os env)"
  shows "runs (open_or_die env fname s) {2} (\<lambda>mmdb s'. opened mmdb \<and> printable (db_metadata mmdb) \<and>
    handle (live (heap s)) (heap s) {#} mmdb (heap s'))"
proof -
  obtain st mmdb h where o: "MMDB_open (env_os env) (env_stacks env) fname MMDB_MODE_MMAP (env_mmdb env, heap s) =
      Some (st, (mmdb, h))"
    and ok: "st = MMDB_SUCCESS \<Longrightarrow> opened mmdb \<and> handle (live (heap s)) (heap s) {#} mmdb h"
    using MMDB_open_wp [OF assms, of "env_stacks env" fname MMDB_MODE_MMAP "env_mmdb env" "heap s"]
    by (fastforce simp: wp_iff_ex split: if_splits)
  show ?thesis
    using o ok MMDB_open_printable [of "env_os env" "env_stacks env" fname MMDB_MODE_MMAP "(env_mmdb env, heap s)" mmdb h]
    by (simp add: open_or_die_def Let_def)
qed

lemma handle_move_rest:
  "handle (add_mset a base) h0 {#} mmdb h \<Longrightarrow> handle base h0 {#a#} mmdb h"
  by (simp add: handle_def freeable_def owns_def)

lemma free_path_ok:
  assumes "handle base h0 {#a#} mmdb (heap s)"
  obtains s' where "free_path (a, path) s = Some s'" and "handle base h0 {#} mmdb (heap s')"
proof -
  have "live (heap s) = add_mset a (base + block_of (db_filename mmdb) + metadata_blocks (db_metadata mmdb))"
    using assms by (simp add: handle_def freeable_def owns_def ac_simps)
  then have "c_free a (heap s) = Some ((heap s)\<lparr>live := base + block_of (db_filename mmdb) + metadata_blocks (db_metadata mmdb)\<rparr>)"
    by (simp add: c_free_def)
  with assms that show ?thesis
    by (simp add: free_path_def handle_def freeable_def owns_def ac_simps)
qed

definition main_post :: "process \<Rightarrow> main_end \<Rightarrow> process \<Rightarrow> bool" where
  "main_post s0 r s \<longleftrightarrow>
    (case r of
       Main_exit code \<Rightarrow> code \<in> {0, 1, 5, 6} \<and> live (heap s) = live (heap s0) \<and> same_files (heap s0) (heap s)
     | Main_threads mmdb threads iterations \<Rightarrow>
         opened mmdb \<and> 0 < threads \<and> handle (live (heap s0)) (heap s0) {#} mmdb (heap s))"

lemma main_mode_runs:
  assumes mmdb: "opened mmdb" "getaddrinfo_ok env"
    and h: "handle (live (heap s0)) (heap s0) {#a#} mmdb (heap s)"
    and opts: "opt_ip opts = None \<longrightarrow> opt_iterations opts \<noteq> 0 \<or> opt_ip_file opts \<noteq> None"
  shows "runs (main_mode env opts (a, path) mmdb s) {3, 4} (main_post s0)"
proof -
  obtain s1 where free: "free_path (a, path) s = Some s1" and h1: "handle (live (heap s0)) (heap s0) {#} mmdb (heap s1)"
    using free_path_ok [OF h] .
  show ?thesis
  proof (cases "opt_ip_file opts")
    case (Some f)
    have "runs (call (lookup_from_file env mmdb f (opt_verbose opts) s1) (\<lambda>ok s. do {
        (mmdb, h) \<leftarrow> MMDB_close (mmdb, heap s);
        returns (Main_exit (if ok then 0 else 1)) (s\<lparr>heap := h\<rparr>) })) {3, 4} (main_post s0)"
    proof (rule runs_call [OF lookup_from_file_runs [OF mmdb]])
      fix ok and s2 :: process assume k: "kept 0 s1 s2"
      obtain mmdb' h' where "MMDB_close (mmdb, heap s2) = Some (mmdb', h')" "owns h' (live (heap s0)) {#}"
        "same_files (heap s0) h'"
        using MMDB_close_handle [OF handle_kept [OF h1 k]] .
      then show "runs (do {
          (mmdb, h) \<leftarrow> MMDB_close (mmdb, heap s2);
          returns (Main_exit (if ok then 0 else 1)) (s2\<lparr>heap := h\<rparr>) }) {3, 4} (main_post s0)"
        by (simp add: main_post_def owns_def)
    qed
    then show ?thesis using Some free by (simp add: main_mode_def)
  next
    case None
    show ?thesis
    proof (cases "opt_iterations opts = 0")
      case True
      then obtain ip where ip: "opt_ip opts = Some ip" using opts None by auto
      have "runs (call (lookup_and_print env mmdb ip (a, path) (opt_verbose opts) s)
          (\<lambda>code. returns (Main_exit code))) {3, 4} (main_post s0)"
        by (rule runs_call [OF lookup_and_print_runs [OF mmdb h]]) (auto simp: main_post_def)
      then show ?thesis using None True ip by (simp add: main_mode_def)
    next
      case False
      have "runs (call (benchmark env mmdb (opt_iterations opts) s1) (\<lambda>code. returns (Main_exit code))) {3, 4} (main_post s0)"
        by (rule runs_call [OF benchmark_runs [OF mmdb h1]]) (auto simp: main_post_def)
      then show ?thesis using None False free mmdb h1 by (simp add: main_mode_def main_post_def)
    qed
  qed
qed

lemma main_runs:
  assumes os: "os_ok (env_os env)" "metadata_at_end (env_os env)" and gai: "getaddrinfo_ok env"
  shows "runs (main env s) {0, 1, 2, 3, 4} (main_post s)"
  unfolding main_def
proof (rule runs_call [OF runs_mono [OF get_options_runs]])
  fix x :: "options \<times> bytes list owned" and s1 :: process
  assume post: "case x of (opts, path) \<Rightarrow> opt_file opts \<noteq> None \<and>
     (opt_ip opts = None \<longrightarrow> opt_iterations opts \<noteq> 0 \<or> opt_ip_file opts \<noteq> None) \<and>
     live (heap s1) = add_mset (fst path) (live (heap s)) \<and> same_files (heap s) (heap s1)"
  obtain opts a path where x: "x = (opts, (a, path))" by (metis prod_cases3)
  obtain f where f: "opt_file opts = Some f" using post x by auto
  have "runs (call (open_or_die env f s1) (\<lambda>mmdb s. do {
        s \<leftarrow> (if opt_verbose opts then dump_meta env mmdb s else Some s);
        main_mode env opts (a, path) mmdb s })) {0, 1, 2, 3, 4} (main_post s)"
  proof (rule runs_call [OF runs_mono [OF open_or_die_runs [OF os]]])
    fix mmdb :: MMDB_s and s2 :: process
    assume o: "opened mmdb \<and> printable (db_metadata mmdb) \<and> handle (live (heap s1)) (heap s1) {#} mmdb (heap s2)"
    obtain s3 where s3: "(if opt_verbose opts then dump_meta env mmdb s2 else Some s2) = Some s3" and k: "kept 0 s2 s3"
      using dump_meta_printable [of mmdb env s2] o by (cases "opt_verbose opts") auto
    have "handle (live (heap s1)) (heap s1) {#} mmdb (heap s3)" using handle_kept [OF _ k] o by blast
    then have "handle (live (heap s)) (heap s) {#a#} mmdb (heap s3)"
      using post x by (auto simp: handle_def same_files_def freeable_def owns_def)
    then have "runs (main_mode env opts (a, path) mmdb s3) {3, 4} (main_post s)"
      using main_mode_runs [OF _ gai] o post x by auto
    then show "runs (do {
        s \<leftarrow> (if opt_verbose opts then dump_meta env mmdb s2 else Some s2);
        main_mode env opts (a, path) mmdb s }) {0, 1, 2, 3, 4} (main_post s)"
      by (auto simp: s3 elim: runs_mono)
  qed auto
  then show "runs ((case x of (opts, lookup_path) \<Rightarrow> \<lambda>s. do {
      mmdb_file \<leftarrow> opt_file opts;
      call (open_or_die env mmdb_file s) (\<lambda>mmdb s. do {
        s \<leftarrow> (if opt_verbose opts then dump_meta env mmdb s else Some s);
        main_mode env opts lookup_path mmdb s }) }) s1) {0, 1, 2, 3, 4} (main_post s)"
    using x f by simp
qed auto

section \<open>Texts\<close>

lemma random_ipv4_complete:
  "random_ipv4 w = decimal (unat (take_bit 8 w)) @ ascii ''.'' @ decimal (unat (take_bit 8 (drop_bit 8 w))) @
     ascii ''.'' @ decimal (unat (take_bit 8 (drop_bit 16 w))) @ ascii ''.'' @ decimal (unat (drop_bit 24 w))"
  "length (random_ipv4 w) \<le> 15"
proof -
  have byte: "length (decimal (unat (take_bit 8 x))) \<le> 3" for x :: u32
  proof (rule decimal_length)
    show "unat (take_bit 8 x) < 1000"
      unfolding unsigned_take_bit_eq by (rule less_trans [OF take_bit_nat_less_exp]) simp
  qed
  have "unat (drop_bit 24 w) = unat w div 2 ^ 24" by (simp add: drop_bit_eq_div unat_div)
  moreover have "unat w div 2 ^ 24 < 2 ^ 8"
    using unat_u32_less [of w] by (simp add: less_mult_imp_div_less)
  ultimately have "length (decimal (unat (drop_bit 24 w))) \<le> 3" by (intro decimal_length) simp
  with byte [of w] byte [of "drop_bit 8 w"] byte [of "drop_bit 16 w"]
  have "length (decimal (unat (take_bit 8 w)) @ ascii ''.'' @ decimal (unat (take_bit 8 (drop_bit 8 w))) @
     ascii ''.'' @ decimal (unat (take_bit 8 (drop_bit 16 w))) @ ascii ''.'' @ decimal (unat (drop_bit 24 w))) \<le> 15"
    by (simp add: ascii_def)
  then show "random_ipv4 w = decimal (unat (take_bit 8 w)) @ ascii ''.'' @ decimal (unat (take_bit 8 (drop_bit 8 w))) @
     ascii ''.'' @ decimal (unat (take_bit 8 (drop_bit 16 w))) @ ascii ''.'' @ decimal (unat (drop_bit 24 w))"
    "length (random_ipv4 w) \<le> 15" by (simp_all add: random_ipv4_def)
qed

text \<open>
  What is printed for a stored value, when no allocation fails and the value has no more labels
  than a pool has room for.
\<close>

lemma get_list_value:
  assumes v: "represents mmdb a v n h" "h \<le> MAXIMUM_DATA_STRUCTURE_DEPTH"
    and start: "entry_mmdb start = mmdb" "entry_offset start = word_of_nat a"
    and memory: "\<forall>k l. pool_ok (heap s) k l" "length (flatten v) \<le> pool_capacity"
  shows "\<exists>ptr es. get_list start s = Some (MMDB_SUCCESS, Some ptr) \<and>
    linked_entries (snd ptr) (Some (fst ptr)) = Some es \<and> map (entry_head mmdb) es = map Some (flatten v)"
proof -
  have "represents (entry_mmdb start) a v n h" using v start by simp
  from MMDB_get_entry_data_list_flatten [OF this start(2) v(2), of "pool_ok (heap s) (next_addr (heap s))"]
  obtain pool es where get: "get_list start s = Some (MMDB_SUCCESS, Some ((0, 0), pool))"
    and l: "list_entries pool (length (flatten v)) (Some (0, 0)) = Some es"
    and es: "map (entry_head mmdb) es = map Some (flatten v)"
    using memory start(1) by (auto simp: wp_iff_ex get_list_def split: if_splits)
  then show ?thesis
    using get es list_entries_linked_entries [OF l]
    by (intro exI [of _ "((0, 0), pool)"] exI [of _ es]) simp
qed

lemma print_result_value:
  assumes r: "found_entry r" "entry_mmdb (result_entry r) = mmdb" "entry_offset (result_entry r) = word_of_nat a"
    and v: "represents mmdb a v n h" "h \<le> MAXIMUM_DATA_STRUCTURE_DEPTH"
    and memory: "\<forall>k. alloc_ok (heap s) k" "\<forall>k l. pool_ok (heap s) k l" "length (flatten v) \<le> pool_capacity"
  shows "\<exists>l s'. print_result env mmdb ip [] False r s = Some (0, l, s') \<and>
    out_text s' = out_text s @ line '''' @ value_text 2 v @ line '''' \<and> err_text s' = err_text s \<and> kept 0 s s'"
proof -
  obtain ptr es where get: "get_list (result_entry r) s = Some (MMDB_SUCCESS, Some ptr)"
    and l: "linked_entries (snd ptr) (Some (fst ptr)) = Some es" and es: "map (entry_head mmdb) es = map Some (flatten v)"
    using get_list_value [OF v r(2,3) memory(2,3)] by blast
  have "length es = length (flatten v)" using arg_cong [OF es, of length] by simp
  then have "nesting v \<le> length es" using nesting_le_labels [of v] by simp
  from dump_of_value [OF v(1) this es, of 2 "[]" "heap s"] memory(1)
  obtain h' where d: "MMDB_dump_entry_data_list (length es) (mapping mmdb) 2 es ([], heap s) =
      Some (MMDB_SUCCESS, (value_text 2 v, h'))" and h': "live h' = live (heap s)" "same_files (heap s) h'"
    by (auto split: if_splits)
  then have "dump_list mmdb 2 ptr (heap s) = Some (MMDB_SUCCESS, (value_text 2 v, h'))"
    using l by (simp add: dump_list_def)
  then show ?thesis
    using get r h'
    by (simp add: print_result_def list_to_print_def print_out_def kept_def same_files_def)
qed


lemma lookup_and_print_value:
  assumes look: "MMDB_lookup_string (env_getaddrinfo env) mmdb ip = Some (0, MMDB_SUCCESS, r)"
    and r: "found_entry r" "entry_mmdb (result_entry r) = mmdb" "entry_offset (result_entry r) = word_of_nat a"
    and v: "represents mmdb a v n h" "h \<le> MAXIMUM_DATA_STRUCTURE_DEPTH"
    and memory: "\<forall>k. alloc_ok (heap s) k" "\<forall>k l. pool_ok (heap s) k l" "length (flatten v) \<le> pool_capacity"
    and mmdb: "opened mmdb" and own: "handle base h0 {#b#} mmdb (heap s)"
  shows "\<exists>s'. lookup_and_print env mmdb ip (b, []) False s = Some (Inr 0, s') \<and>
    out_text s' = out_text s @ line '''' @ value_text 2 v @ line '''' \<and> err_text s' = err_text s \<and>
    live (heap s') = base \<and> same_files h0 (heap s')"
proof -
  have die: "lookup_or_die env mmdb ip s = Some (Inr r, s)" using look by (simp add: lookup_or_die_def returns_def)
  obtain l s1 where print: "print_result env mmdb ip [] False r s = Some (0, l, s1)"
    and s1: "out_text s1 = out_text s @ line '''' @ value_text 2 v @ line ''''" "err_text s1 = err_text s"
    and k: "kept 0 s s1"
    using print_result_value [OF r v memory] by blast
  have "l = None \<or> list_ok mmdb l" using print_result_ok [OF mmdb r(2), of env ip "[]" False s] print by auto
  then have free: "free_list l s1 = Some s1" by auto
  obtain mmdb' h' where close: "MMDB_close (mmdb, heap s1) = Some (mmdb', h')"
    and h': "owns h' base {#b#}" "same_files h0 h'"
    using MMDB_close_handle [OF handle_kept [OF own k]] .
  have "c_free b h' = Some (h'\<lparr>live := base\<rparr>)" using h'(1) by (simp add: c_free_def owns_def)
  then show ?thesis
    using die print free close h'(2) s1
    by (simp add: lookup_and_print_def call_def returns_def same_files_def)
qed

end
