(* ===== verification/Threads.thy ===== *)
theory Threads
  imports Mmdblookup_Safety
begin

text \<open>
  The threaded benchmark of \<open>bin/mmdblookup.c\<close>: \<open>thread\<close>, \<open>start_threaded_benchmark\<close> and the end of
  \<open>main\<close> after it, as a step relation. The main thread creates and joins the threads; each thread
  performs its rounds. A step is one round of a thread or one action of the main thread, so the
  scheduler is the choice of the next step. The threads read the database, which nobody writes,
  and the array \<open>tinfo\<close>, which the main thread frees.
\<close>

section \<open>thread\<close>

text \<open>One round of the loop: whether the thread goes on.\<close>

definition thread_round :: "environment \<Rightarrow> MMDB_s \<Rightarrow> process \<Rightarrow> bool outcome" where
  "thread_round env mmdb s0 =
    (let (ip_address, s) = next_random_ipv4 env s0 in
     call (lookup_or_die env mmdb ip_address s) (\<lambda>result s.
       if \<not> found_entry result then returns True s
       else do {
         (status, l) \<leftarrow> get_list (result_entry result) s;
         if status \<noteq> MMDB_SUCCESS then do {
           s \<leftarrow> free_list l (print_err (ascii ''MMDB_get_entry_data_list(): '' @ strerror_text status @ [10]) s);
           returns False s }
         else
           case l of
             None \<Rightarrow> returns False (print_err (line ''entry_data_list is NULL'') s)
           | Some _ \<Rightarrow> do { s \<leftarrow> free_list l s; returns True s } }))"

section \<open>start\_threaded\_benchmark\<close>

text \<open>
  The answers of the platform: whether the \<open>i\<close>-th \<open>pthread_create\<close> and \<open>pthread_join\<close> fail, and
  whether the two calls of \<open>get_time\<close> succeed.
\<close>

record pthreads =
  create_fails :: "nat \<Rightarrow> bool"
  join_fails :: "nat \<Rightarrow> bool"
  start_time_ok :: bool
  end_time_ok :: bool

datatype phase =
    Creating nat
  | Joining nat
  | Timing
  | Returned bool
  | Ended int
  | Faulted

text \<open>The rounds that a running thread has left; \<^term>\<open>None\<close> when it has returned.\<close>

record bench =
  bench_phase :: phase
  rounds :: "nat option list"
  bench_process :: process

definition get_time_error :: "environment \<Rightarrow> bytes" where
  "get_time_error env = ascii ''clock_gettime(): '' @ env_strerror env ''clock_gettime'' @ [10]"

definition total_ips :: "int \<Rightarrow> int \<Rightarrow> u64" where
  "total_ips iterations thread_count = word_of_int (cast_int (iterations * thread_count))"

definition bench_report :: "environment \<Rightarrow> int \<Rightarrow> int \<Rightarrow> bytes" where
  "bench_report env iterations thread_count =
    (let total = total_ips iterations thread_count; (elapsed, rate) = env_times env (uint total)
     in ascii ''Looked up '' @ decimal (unat total) @ ascii '' addresses using '' @ signed_decimal thread_count @
        ascii '' threads in '' @ elapsed @ ascii '' seconds. '' @ rate @ line '' lookups per second.'')"

text \<open>The start: the array is allocated and the clock is read.\<close>

definition bench_start :: "environment \<Rightarrow> pthreads \<Rightarrow> process \<Rightarrow> (addr option \<times> bench) option" where
  "bench_start env pt s =
    (case c_malloc (heap s) of
       (None, h) \<Rightarrow>
         Some (None, \<lparr>bench_phase = Returned False, rounds = [],
           bench_process = print_err (ascii ''calloc(): '' @ env_strerror env ''calloc'' @ [10]) (s\<lparr>heap := h\<rparr>)\<rparr>)
     | (Some tinfo, h) \<Rightarrow>
         if start_time_ok pt then
           Some (Some tinfo, \<lparr>bench_phase = Creating 0, rounds = [], bench_process = s\<lparr>heap := h\<rparr>\<rparr>)
         else do {
           h \<leftarrow> c_free tinfo h;
           Some (None, \<lparr>bench_phase = Returned False, rounds = [],
             bench_process = print_err (get_time_error env) (s\<lparr>heap := h\<rparr>)\<rparr>) })"

text \<open>Freeing \<open>tinfo\<close> and going on in the phase \<open>p\<close>.\<close>

definition free_tinfo :: "addr \<Rightarrow> bytes \<Rightarrow> phase \<Rightarrow> bench \<Rightarrow> bench" where
  "free_tinfo tinfo msg p b =
    (case c_free tinfo (heap (bench_process b)) of
       None \<Rightarrow> b\<lparr>bench_phase := Faulted\<rparr>
     | Some h \<Rightarrow> b\<lparr>bench_phase := p, bench_process := print_err msg ((bench_process b)\<lparr>heap := h\<rparr>)\<rparr>)"

definition tinfo_live :: "addr \<Rightarrow> bench \<Rightarrow> bool" where
  "tinfo_live tinfo b \<longleftrightarrow> tinfo \<in># live (heap (bench_process b))"

definition ended :: "bench \<Rightarrow> bool" where
  "ended b = (case bench_phase b of Ended _ \<Rightarrow> True | Faulted \<Rightarrow> True | _ \<Rightarrow> False)"

inductive bench_step ::
  "environment \<Rightarrow> pthreads \<Rightarrow> MMDB_s \<Rightarrow> int \<Rightarrow> int \<Rightarrow> addr \<Rightarrow> bench \<Rightarrow> bench \<Rightarrow> bool"
  for env :: environment and pt :: pthreads and mmdb :: MMDB_s and n :: int and iterations :: int and tinfo :: addr
where
  create: "bench_phase b = Creating i \<Longrightarrow> i < nat n \<Longrightarrow> tinfo_live tinfo b \<Longrightarrow> \<not> create_fails pt i \<Longrightarrow>
    bench_step env pt mmdb n iterations tinfo b
      (b\<lparr>bench_phase := Creating (i + 1), rounds := rounds b @ [Some (nat iterations)]\<rparr>)"
| create_fail: "bench_phase b = Creating i \<Longrightarrow> i < nat n \<Longrightarrow> create_fails pt i \<Longrightarrow>
    bench_step env pt mmdb n iterations tinfo b
      (free_tinfo tinfo (line ''pthread_create() failed'') (Returned False) b)"
| created: "bench_phase b = Creating i \<Longrightarrow> \<not> i < nat n \<Longrightarrow>
    bench_step env pt mmdb n iterations tinfo b (b\<lparr>bench_phase := Joining 0\<rparr>)"
| join: "bench_phase b = Joining i \<Longrightarrow> i < nat n \<Longrightarrow> \<not> join_fails pt i \<Longrightarrow> rounds b ! i = None \<Longrightarrow>
    bench_step env pt mmdb n iterations tinfo b (b\<lparr>bench_phase := Joining (i + 1)\<rparr>)"
| join_fail: "bench_phase b = Joining i \<Longrightarrow> i < nat n \<Longrightarrow> join_fails pt i \<Longrightarrow>
    bench_step env pt mmdb n iterations tinfo b
      (free_tinfo tinfo (line ''pthread_join() failed'') (Returned False) b)"
| joined: "bench_phase b = Joining i \<Longrightarrow> \<not> i < nat n \<Longrightarrow>
    bench_step env pt mmdb n iterations tinfo b (free_tinfo tinfo [] Timing b)"
| timed: "bench_phase b = Timing \<Longrightarrow> end_time_ok pt \<Longrightarrow>
    bench_step env pt mmdb n iterations tinfo b
      (b\<lparr>bench_phase := Returned True, bench_process := print_out (bench_report env iterations n) (bench_process b)\<rparr>)"
| untimed: "bench_phase b = Timing \<Longrightarrow> \<not> end_time_ok pt \<Longrightarrow>
    bench_step env pt mmdb n iterations tinfo b
      (b\<lparr>bench_phase := Returned False,
        bench_process := print_err (get_time_error env) (bench_process b)\<rparr>)"
| main_end: "bench_phase b = Returned ok \<Longrightarrow> MMDB_close (mmdb, heap (bench_process b)) = Some (mmdb', h) \<Longrightarrow>
    bench_step env pt mmdb n iterations tinfo b
      (b\<lparr>bench_phase := Ended (if ok then 0 else 1), bench_process := (bench_process b)\<lparr>heap := h\<rparr>\<rparr>)"
| main_fault: "bench_phase b = Returned ok \<Longrightarrow> MMDB_close (mmdb, heap (bench_process b)) = None \<Longrightarrow>
    bench_step env pt mmdb n iterations tinfo b (b\<lparr>bench_phase := Faulted\<rparr>)"
| thread_return: "\<not> ended b \<Longrightarrow> k < length (rounds b) \<Longrightarrow> rounds b ! k = Some 0 \<Longrightarrow> tinfo_live tinfo b \<Longrightarrow>
    bench_step env pt mmdb n iterations tinfo b (b\<lparr>rounds := (rounds b)[k := None]\<rparr>)"
| thread_go: "\<not> ended b \<Longrightarrow> k < length (rounds b) \<Longrightarrow> rounds b ! k = Some (Suc m) \<Longrightarrow> tinfo_live tinfo b \<Longrightarrow>
    thread_round env mmdb (bench_process b) = Some (Inr continue, s) \<Longrightarrow>
    bench_step env pt mmdb n iterations tinfo b
      (b\<lparr>rounds := (rounds b)[k := if continue then Some m else None], bench_process := s\<rparr>)"
| thread_exit: "\<not> ended b \<Longrightarrow> k < length (rounds b) \<Longrightarrow> rounds b ! k = Some (Suc m) \<Longrightarrow> tinfo_live tinfo b \<Longrightarrow>
    thread_round env mmdb (bench_process b) = Some (Inl code, s) \<Longrightarrow>
    bench_step env pt mmdb n iterations tinfo b (b\<lparr>bench_phase := Ended code, bench_process := s\<rparr>)"
| thread_fault: "\<not> ended b \<Longrightarrow> k < length (rounds b) \<Longrightarrow> rounds b ! k = Some (Suc m) \<Longrightarrow> tinfo_live tinfo b \<Longrightarrow>
    thread_round env mmdb (bench_process b) = None \<Longrightarrow>
    bench_step env pt mmdb n iterations tinfo b (b\<lparr>bench_phase := Faulted\<rparr>)"
| thread_dangling: "\<not> ended b \<Longrightarrow> k < length (rounds b) \<Longrightarrow> rounds b ! k \<noteq> None \<Longrightarrow> \<not> tinfo_live tinfo b \<Longrightarrow>
    bench_step env pt mmdb n iterations tinfo b (b\<lparr>bench_phase := Faulted\<rparr>)"

text \<open>A run of the scheduler.\<close>

abbreviation bench_run ::
  "environment \<Rightarrow> pthreads \<Rightarrow> MMDB_s \<Rightarrow> int \<Rightarrow> int \<Rightarrow> addr \<Rightarrow> bench \<Rightarrow> bench \<Rightarrow> bool" where
  "bench_run env pt mmdb n iterations tinfo \<equiv> rtranclp (bench_step env pt mmdb n iterations tinfo)"

section \<open>Every schedule ends\<close>

definition rounds_weight :: "nat option list \<Rightarrow> nat" where
  "rounds_weight rs = sum_list (map (\<lambda>r. case r of None \<Rightarrow> 0 | Some m \<Rightarrow> Suc m) rs)"

fun phase_weight :: "nat \<Rightarrow> nat \<Rightarrow> phase \<Rightarrow> nat" where
  "phase_weight n m (Creating i) = (n - i) * (m + 2) + n + 5"
| "phase_weight n m (Joining i) = (n - i) + 4"
| "phase_weight n m Timing = 3"
| "phase_weight n m (Returned ok) = 2"
| "phase_weight n m (Ended code) = 0"
| "phase_weight n m Faulted = 0"

definition bench_weight :: "int \<Rightarrow> int \<Rightarrow> bench \<Rightarrow> nat" where
  "bench_weight n iterations b = phase_weight (nat n) (nat iterations) (bench_phase b) + rounds_weight (rounds b)"

lemma rounds_weight_simps [simp]:
  "rounds_weight [] = 0"
  "rounds_weight (rs @ [r]) = rounds_weight rs + (case r of None \<Rightarrow> 0 | Some m \<Rightarrow> Suc m)"
  by (simp_all add: rounds_weight_def)

lemma rounds_weight_update:
  assumes "k < length rs" and "rs ! k = Some m" and "(case r of None \<Rightarrow> 0 | Some m \<Rightarrow> Suc m) < Suc m"
  shows "rounds_weight (rs[k := r]) < rounds_weight rs"
  using assms
proof (induction rs arbitrary: k)
  case (Cons x xs)
  then show ?case by (cases k) (auto simp: rounds_weight_def split: option.splits)
qed simp

lemma phase_weight_active: "\<not> ended b \<Longrightarrow> 2 \<le> phase_weight n m (bench_phase b)"
  by (cases "bench_phase b") (auto simp: ended_def)

lemma free_tinfo_weight:
  assumes "phase_weight (nat n) (nat iterations) p < phase_weight (nat n) (nat iterations) (bench_phase b)"
  shows "bench_weight n iterations (free_tinfo tinfo msg p b) < bench_weight n iterations b"
  using assms by (cases "c_free tinfo (heap (bench_process b))") (auto simp: free_tinfo_def bench_weight_def)

lemma bench_step_weight:
  assumes "bench_step env pt mmdb n iterations tinfo b b'"
  shows "bench_weight n iterations b' < bench_weight n iterations b"
  using assms
proof (cases rule: bench_step.cases)
  case (create i)
  then obtain d where "nat n = Suc (i + d)" using less_imp_Suc_add by blast
  with create show ?thesis by (simp add: bench_weight_def)
next
  case (thread_return k)
  then show ?thesis using rounds_weight_update [of k "rounds b" 0 None] by (simp add: bench_weight_def)
next
  case (thread_go k m continue s)
  then show ?thesis
    using rounds_weight_update [of k "rounds b" "Suc m" "if continue then Some m else None"]
    by (simp add: bench_weight_def)
next
  case (create_fail i)
  then show ?thesis using free_tinfo_weight [of n iterations "Returned False" b] by simp
next
  case (join_fail i)
  then show ?thesis using free_tinfo_weight [of n iterations "Returned False" b] by simp
next
  case (joined i)
  then show ?thesis using free_tinfo_weight [of n iterations Timing b] by simp
qed (use phase_weight_active [of b "nat n" "nat iterations"] in \<open>auto simp: bench_weight_def\<close>)

lemma bench_step_wf: "wfP (\<lambda>b' b. bench_step env pt mmdb n iterations tinfo b b')"
  by (rule wfp_if_convertible_to_nat [where f = "bench_weight n iterations"]) (rule bench_step_weight)

section \<open>The invariant\<close>

lemma thread_round_runs:
  assumes mmdb: "opened mmdb" "getaddrinfo_ok env"
  shows "runs (thread_round env mmdb s) {3, 4} (\<lambda>r s'. kept 0 s s')"
proof -
  obtain ip s1 where ip: "next_random_ipv4 env s = (ip, s1)" by fastforce
  then have k: "kept 0 s s1" by (auto simp: next_random_ipv4_def kept_def)
  have wf: "wf_section mmdb" using opened_wf mmdb(1) by blast
  show ?thesis
    unfolding thread_round_def ip Let_def prod.case
  proof (rule runs_call [OF lookup_or_die_runs [OF mmdb]], elim conjE)
    fix r :: MMDB_lookup_result_s and s2 assume s2: "s2 = s1" and r: "entry_mmdb (result_entry r) = mmdb"
    obtain st l where get: "get_list (result_entry r) s1 = Some (st, l)"
      and l: "st = MMDB_SUCCESS \<Longrightarrow> list_ok mmdb l" "st \<noteq> MMDB_SUCCESS \<Longrightarrow> l = None"
      using get_listE [OF wf r, of s1] by blast
    show "runs (if \<not> found_entry r then returns True s2
       else do {
         (status, l) \<leftarrow> get_list (result_entry r) s2;
         if status \<noteq> MMDB_SUCCESS then do {
           s \<leftarrow> free_list l (print_err (ascii ''MMDB_get_entry_data_list(): '' @ strerror_text status @ [10]) s2);
           returns False s }
         else
           case l of
             None \<Rightarrow> returns False (print_err (line ''entry_data_list is NULL'') s2)
           | Some _ \<Rightarrow> do { s \<leftarrow> free_list l s2; returns True s } }) {3, 4} (\<lambda>r s'. kept 0 s s')"
      using s2 get l k by (cases "st = MMDB_SUCCESS"; cases l) simp_all
  qed
qed

definition all_returned :: "bench \<Rightarrow> bool" where
  "all_returned b \<longleftrightarrow> (\<forall>k < length (rounds b). rounds b ! k = None)"

definition bench_inv ::
  "addr multiset \<Rightarrow> resources \<Rightarrow> MMDB_s \<Rightarrow> int \<Rightarrow> addr \<Rightarrow> bench \<Rightarrow> bool" where
  "bench_inv base h0 mmdb n tinfo b \<longleftrightarrow>
    (let h = heap (bench_process b) in
     case bench_phase b of
       Creating i \<Rightarrow> i \<le> nat n \<and> length (rounds b) = i \<and> handle base h0 {#tinfo#} mmdb h
     | Joining i \<Rightarrow> i \<le> nat n \<and> length (rounds b) = nat n \<and> (\<forall>k < i. rounds b ! k = None) \<and>
         handle base h0 {#tinfo#} mmdb h
     | Timing \<Rightarrow> all_returned b \<and> handle base h0 {#} mmdb h
     | Returned ok \<Rightarrow> all_returned b \<and> handle base h0 {#} mmdb h
     | Ended code \<Rightarrow> code \<in> {0, 1, 3, 4} \<and> (code \<in> {0, 1} \<longrightarrow> live h = base \<and> same_files h0 h)
     | Faulted \<Rightarrow> False)"

text \<open>
  Joining never fails, and creating fails for the first thread only, when no other thread can use
  the array.
\<close>

definition pthreads_ok :: "pthreads \<Rightarrow> bool" where
  "pthreads_ok pt \<longleftrightarrow> (\<forall>i. create_fails pt i \<longrightarrow> i = 0) \<and> (\<forall>i. \<not> join_fails pt i)"

lemma handle_free:
  assumes "handle base h0 {#a#} mmdb h"
  obtains h' where "c_free a h = Some h'" and "handle base h0 {#} mmdb h'"
proof -
  have "live h = add_mset a (base + block_of (db_filename mmdb) + metadata_blocks (db_metadata mmdb))"
    using assms by (simp add: handle_def freeable_def owns_def ac_simps)
  then have "c_free a h = Some (h\<lparr>live := base + block_of (db_filename mmdb) + metadata_blocks (db_metadata mmdb)\<rparr>)"
    by (simp add: c_free_def)
  with assms that show ?thesis by (simp add: handle_def freeable_def owns_def ac_simps)
qed

lemma handle_tinfo_live: "handle base h0 {#tinfo#} mmdb (heap (bench_process b)) \<Longrightarrow> tinfo_live tinfo b"
  by (simp add: tinfo_live_def handle_def freeable_def owns_def)

text \<open>A running thread belongs to a phase in which the array is allocated.\<close>

lemma bench_inv_running:
  assumes "bench_inv base h0 mmdb n tinfo b" and "\<not> ended b" and "k < length (rounds b)" and "rounds b ! k \<noteq> None"
  shows "(\<exists>i. bench_phase b = Creating i) \<or> (\<exists>i \<le> k. bench_phase b = Joining i)"
    and "handle base h0 {#tinfo#} mmdb (heap (bench_process b))"
proof -
  show "(\<exists>i. bench_phase b = Creating i) \<or> (\<exists>i \<le> k. bench_phase b = Joining i)"
    using assms by (cases "bench_phase b") (auto simp: bench_inv_def ended_def all_returned_def not_le [symmetric])
  then show "handle base h0 {#tinfo#} mmdb (heap (bench_process b))"
    using assms(1) by (auto simp: bench_inv_def)
qed

lemma bench_inv_update:
  assumes inv: "bench_inv base h0 mmdb n tinfo b" and "\<not> ended b" and "k < length (rounds b)" and "rounds b ! k \<noteq> None"
    and "kept 0 (bench_process b) s"
  shows "bench_inv base h0 mmdb n tinfo (b\<lparr>rounds := (rounds b)[k := r], bench_process := s\<rparr>)"
  using bench_inv_running [OF assms(1-4)] inv handle_kept [OF _ assms(5)]
  by (auto simp: bench_inv_def nth_list_update)

lemma bench_inv_free:
  assumes "handle base h0 {#tinfo#} mmdb (heap (bench_process b))" and "all_returned b"
    and "p = Timing \<or> p = Returned ok"
  shows "bench_inv base h0 mmdb n tinfo (free_tinfo tinfo msg p b)"
proof -
  obtain h' where "c_free tinfo (heap (bench_process b)) = Some h'" and "handle base h0 {#} mmdb h'"
    using handle_free [OF assms(1)] .
  then show ?thesis using assms(2,3) by (auto simp: free_tinfo_def bench_inv_def all_returned_def)
qed

lemma bench_step_inv:
  assumes mmdb: "opened mmdb" "getaddrinfo_ok env" and pt: "pthreads_ok pt"
    and step: "bench_step env pt mmdb n iterations tinfo b b'" and inv: "bench_inv base h0 mmdb n tinfo b"
  shows "bench_inv base h0 mmdb n tinfo b'"
  using step
proof (cases rule: bench_step.cases)
  case (create i)
  then show ?thesis using inv by (auto simp: bench_inv_def)
next
  case (create_fail i)
  then have "i = 0" using pt by (simp add: pthreads_ok_def)
  then have "all_returned b" "handle base h0 {#tinfo#} mmdb (heap (bench_process b))"
    using create_fail inv by (simp_all add: bench_inv_def all_returned_def)
  then show ?thesis using create_fail bench_inv_free [where ok = False] by simp
next
  case (created i)
  then show ?thesis using inv by (auto simp: bench_inv_def)
next
  case (join i)
  then show ?thesis using inv by (auto simp: bench_inv_def less_Suc_eq)
next
  case (join_fail i)
  then show ?thesis using pt by (simp add: pthreads_ok_def)
next
  case (joined i)
  then have "all_returned b" "handle base h0 {#tinfo#} mmdb (heap (bench_process b))"
    using inv by (simp_all add: bench_inv_def all_returned_def)
  then show ?thesis using joined bench_inv_free [where ok = False] by simp
next
  case timed
  then show ?thesis using inv by (simp add: bench_inv_def all_returned_def)
next
  case untimed
  then show ?thesis using inv by (simp add: bench_inv_def all_returned_def)
next
  case (main_end ok mmdb' h)
  then have "handle base h0 {#} mmdb (heap (bench_process b))" using inv by (simp add: bench_inv_def)
  from MMDB_close_handle [OF this] obtain db' h' where "MMDB_close (mmdb, heap (bench_process b)) = Some (db', h')"
    "owns h' base {#}" "same_files h0 h'" .
  then show ?thesis using main_end by (simp add: bench_inv_def owns_def)
next
  case (main_fault ok)
  then have "handle base h0 {#} mmdb (heap (bench_process b))" using inv by (simp add: bench_inv_def)
  from MMDB_close_handle [OF this] show ?thesis using main_fault by auto
next
  case (thread_return k)
  then show ?thesis using bench_inv_update [OF inv, of k "bench_process b" None] by simp
next
  case (thread_go k m continue s)
  then have "kept 0 (bench_process b) s"
    using thread_round_runs [OF mmdb, of "bench_process b"] by (simp add: runs_def)
  then show ?thesis using thread_go bench_inv_update [OF inv, of k s] by simp
next
  case (thread_exit k m code s)
  then have "code \<in> {3, 4}" using thread_round_runs [OF mmdb, of "bench_process b"] by (simp add: runs_def)
  then show ?thesis using thread_exit by (auto simp: bench_inv_def)
next
  case (thread_fault k m)
  then show ?thesis using thread_round_runs [OF mmdb, of "bench_process b"] by (simp add: runs_def)
next
  case (thread_dangling k)
  then show ?thesis using bench_inv_running(2) [OF inv, of k] handle_tinfo_live by auto
qed

lemma bench_run_inv:
  assumes "opened mmdb" "getaddrinfo_ok env" "pthreads_ok pt"
    and "bench_run env pt mmdb n iterations tinfo b b'" and "bench_inv base h0 mmdb n tinfo b"
  shows "bench_inv base h0 mmdb n tinfo b'"
  using assms(4,5) by (induction rule: rtranclp_induct) (auto intro: bench_step_inv [OF assms(1-3)])

text \<open>No schedule gets stuck before the process has ended.\<close>

lemma bench_progress:
  assumes inv: "bench_inv base h0 mmdb n tinfo b" and active: "\<not> ended b"
  shows "\<exists>b'. bench_step env pt mmdb n iterations tinfo b b'"
proof (cases "bench_phase b")
  case (Creating i)
  then have "tinfo_live tinfo b" using inv by (auto simp: bench_inv_def intro: handle_tinfo_live)
  then show ?thesis
    using bench_step.create [OF Creating] bench_step.create_fail [OF Creating] bench_step.created [OF Creating] by blast
next
  case (Joining i)
  show ?thesis
  proof (cases "i < nat n \<and> \<not> join_fails pt i \<and> rounds b ! i \<noteq> None")
    case False
    then consider "\<not> i < nat n" | "i < nat n" "join_fails pt i" | "i < nat n" "\<not> join_fails pt i" "rounds b ! i = None"
      by blast
    then show ?thesis
      using bench_step.join [OF Joining] bench_step.join_fail [OF Joining] bench_step.joined [OF Joining]
      by cases blast+
  next
    case True
    then have k: "i < length (rounds b)" and live: "tinfo_live tinfo b"
      using Joining inv by (auto simp: bench_inv_def intro: handle_tinfo_live)
    obtain m where m: "rounds b ! i = Some m" using True by auto
    show ?thesis
    proof (cases m)
      case 0
      then show ?thesis using bench_step.thread_return [OF active k _ live] m by blast
    next
      case (Suc m')
      note m' = m [unfolded Suc]
      show ?thesis
      proof (cases "thread_round env mmdb (bench_process b)")
        case None
        then show ?thesis using bench_step.thread_fault [OF active k m' live] by blast
      next
        case (Some rs)
        obtain r s where "thread_round env mmdb (bench_process b) = Some (r, s)" using Some by (cases rs) auto
        then show ?thesis
          using bench_step.thread_exit [OF active k m' live] bench_step.thread_go [OF active k m' live]
          by (cases r) blast+
      qed
    qed
  qed
next
  case Timing
  then show ?thesis using bench_step.timed [OF Timing] bench_step.untimed [OF Timing] by blast
next
  case (Returned ok)
  show ?thesis
  proof (cases "MMDB_close (mmdb, heap (bench_process b))")
    case None
    then show ?thesis using bench_step.main_fault [OF Returned] by blast
  next
    case (Some r)
    then obtain db' h where "MMDB_close (mmdb, heap (bench_process b)) = Some (db', h)" by (cases r) auto
    then show ?thesis using bench_step.main_end [OF Returned] by blast
  qed
qed (use active in \<open>simp_all add: ended_def\<close>)

lemma bench_start_inv:
  assumes h: "handle base h0 {#} mmdb (heap s)" and start: "bench_start env pt s = Some (r, b)"
  shows "bench_inv base h0 mmdb n (case r of None \<Rightarrow> tinfo | Some a \<Rightarrow> a) b"
proof -
  obtain r' h' where m: "c_malloc (heap s) = (r', h')" by fastforce
  show ?thesis
  proof (cases r')
    case None
    then have "handle base h0 {#} mmdb h'"
      using h c_malloc_live [OF m] by (simp add: handle_def freeable_def owns_def)
    then show ?thesis using start m None by (auto simp: bench_start_def bench_inv_def all_returned_def)
  next
    case (Some a)
    then have h': "handle base h0 {#a#} mmdb h'"
      using h c_malloc_live [OF m] by (simp add: handle_def freeable_def owns_def)
    from handle_free [OF this] obtain h'' where "c_free a h' = Some h''" "handle base h0 {#} mmdb h''" .
    then show ?thesis
      using start m Some h' by (auto simp: bench_start_def bench_inv_def all_returned_def split: if_splits)
  qed
qed

lemma bench_start_Some: "bench_start env pt s \<noteq> None"
proof -
  obtain r h where m: "c_malloc (heap s) = (r, h)" by fastforce
  then show ?thesis using c_malloc_live [OF m] by (cases r) (auto simp: bench_start_def c_free_def)
qed

text \<open>Every schedule can be continued until the process has ended.\<close>

lemma bench_ends:
  assumes "opened mmdb" "getaddrinfo_ok env" "pthreads_ok pt" and "bench_inv base h0 mmdb n tinfo b"
  shows "\<exists>b'. bench_run env pt mmdb n iterations tinfo b b' \<and> bench_inv base h0 mmdb n tinfo b' \<and> ended b'"
  using assms(4)
proof (induction b rule: wfp_induct_rule [OF bench_step_wf [of env pt mmdb n iterations tinfo]])
  case (1 b)
  show ?case
  proof (cases "ended b")
    case False
    then obtain b1 where step: "bench_step env pt mmdb n iterations tinfo b b1" using bench_progress 1(2) by blast
    then have "bench_inv base h0 mmdb n tinfo b1" using bench_run_inv [OF assms(1-3) _ 1(2)] by blast
    with 1(1) step show ?thesis by (blast intro: converse_rtranclp_into_rtranclp)
  qed (use 1(2) in blast)
qed

section \<open>A failure with threads running\<close>

text \<open>
  If the second thread cannot be created, the array is freed while the first thread still reads
  its number of iterations from it.
\<close>

lemma bench_use_after_free:
  assumes start: "bench_start env pt s = Some (Some tinfo, b)" and "2 \<le> n"
    and "\<not> create_fails pt 0" and "create_fails pt 1" and fresh: "tinfo \<notin># live (heap s)"
  shows "\<exists>b'. bench_run env pt mmdb n iterations tinfo b b' \<and> bench_phase b' = Faulted"
proof -
  obtain h where h: "c_malloc (heap s) = (Some tinfo, h)" and b: "b = \<lparr>bench_phase = Creating 0, rounds = [], bench_process = s\<lparr>heap := h\<rparr>\<rparr>"
    using start by (auto simp: bench_start_def split: prod.splits option.splits if_splits bind_splits)
  have live: "live h = add_mset tinfo (live (heap s))" using c_malloc_live [OF h] by simp
  define b1 where "b1 = b\<lparr>bench_phase := Creating 1, rounds := [Some (nat iterations)]\<rparr>"
  define b2 where "b2 = free_tinfo tinfo (line ''pthread_create() failed'') (Returned False) b1"
  have "bench_step env pt mmdb n iterations tinfo b b1"
    using bench_step.create [of b 0 n tinfo pt env mmdb iterations] assms(2,3) live
    by (simp add: b b1_def tinfo_live_def)
  moreover have "bench_step env pt mmdb n iterations tinfo b1 b2"
    using bench_step.create_fail [of b1 1 n pt env mmdb iterations tinfo] assms(2,4) by (simp add: b1_def b2_def)
  moreover have "bench_step env pt mmdb n iterations tinfo b2 (b2\<lparr>bench_phase := Faulted\<rparr>)"
    using live fresh
    by (intro bench_step.thread_dangling [where k = 0])
      (simp_all add: b2_def b1_def b free_tinfo_def c_free_def ended_def tinfo_live_def)
  ultimately show ?thesis
    by (intro exI [of _ "b2\<lparr>bench_phase := Faulted\<rparr>"])
      (auto intro: converse_rtranclp_into_rtranclp)
qed

end
