(* ===== verification/Debug.thy ===== *)
theory Debug
  imports Metadata
begin

text \<open>
  The helpers of the debug build in \<open>src/maxminddb.c\<close>: \<open>byte_to_binary\<close>, which formats the control
  byte of an entry, and \<open>type_num_to_name\<close>.
\<close>

definition byte_to_binary :: "u8 \<Rightarrow> resources \<Rightarrow> bytes owned option \<times> resources" where
  "byte_to_binary byte h =
    (case c_malloc h of
       (None, h) \<Rightarrow> (None, h)
     | (Some a, h) \<Rightarrow> (Some (a, map (\<lambda>i. if byte AND drop_bit i 128 \<noteq> 0 then 49 else 48) [0..<8]), h))"

definition type_num_to_name :: "u8 \<Rightarrow> string" where
  "type_num_to_name num =
    (if num = 0 then ''extended'' else if num = 1 then ''pointer'' else if num = 2 then ''utf8_string''
     else if num = 3 then ''double'' else if num = 4 then ''bytes'' else if num = 5 then ''uint16''
     else if num = 6 then ''uint32'' else if num = 7 then ''map'' else if num = 8 then ''int32''
     else if num = 9 then ''uint64'' else if num = 10 then ''uint128'' else if num = 11 then ''array''
     else if num = 12 then ''container'' else if num = 13 then ''end_marker'' else if num = 14 then ''boolean''
     else if num = 15 then ''float'' else ''unknown type'')"

text \<open>The digits are the bits of the byte, the most significant one first.\<close>

lemma byte_to_binary_bits:
  assumes "c_malloc h = (Some a, h')"
  shows "\<exists>bs. byte_to_binary byte h = (Some (a, bs), h') \<and> length bs = 8 \<and>
    (\<forall>i < 8. bs ! i = (if bit byte (7 - i) then 49 else 48))"
proof -
  have "byte AND drop_bit i 128 \<noteq> 0 \<longleftrightarrow> bit byte (7 - i)" if "i < 8" for i
  proof -
    have "i \<in> {0, 1, 2, 3, 4, 5, 6, 7}" using that by auto
    then have "drop_bit i (128 :: u8) = 2 ^ (7 - i)" by auto
    then show ?thesis by (simp add: and_exp_eq_0_iff_not_bit)
  qed
  then show ?thesis using assms by (simp add: byte_to_binary_def)
qed

lemma type_num_to_name_distinct:
  assumes "type_num_to_name a = type_num_to_name b" and "type_num_to_name a \<noteq> ''unknown type''"
  shows "a = b"
  using assms by (simp add: type_num_to_name_def split: if_splits)

end
