(* ===== verification/Metadata_Values.thy ===== *)
theory Metadata_Values
  imports Open_Close
begin

text \<open>
  What \<open>MMDB_open\<close> makes of a well-formed file. \<open>metadata_of_value\<close> says which metadata a stored
  value means; \<open>read_metadata\<close> implements it, and \<open>MMDB_open\<close> accepts exactly the files whose metadata
  it accepts, whose format is known and whose sections have room in the file.
\<close>

section \<open>The meaning of the metadata\<close>

text \<open>Strings are copied up to their first zero byte.\<close>

definition c_string :: "bytes \<Rightarrow> bytes" where
  "c_string bs = takeWhile (\<lambda>b. b \<noteq> 0) bs"

fun uint16_value :: "mmdb_value \<Rightarrow> u16 option" where
  "uint16_value (V_uint16 n) = Some n" | "uint16_value _ = None"

fun uint32_value :: "mmdb_value \<Rightarrow> u32 option" where
  "uint32_value (V_uint32 n) = Some n" | "uint32_value _ = None"

fun uint64_value :: "mmdb_value \<Rightarrow> u64 option" where
  "uint64_value (V_uint64 n) = Some n" | "uint64_value _ = None"

fun string_value :: "mmdb_value \<Rightarrow> bytes option" where
  "string_value (V_string s) = Some (c_string s)" | "string_value _ = None"

fun strings_value :: "mmdb_value \<Rightarrow> bytes list option" where
  "strings_value (V_array vs) = those (map string_value vs)" | "strings_value _ = None"

fun dictionary_value :: "mmdb_value \<Rightarrow> (bytes \<times> bytes) list option" where
  "dictionary_value (V_map kvs) = those (map (\<lambda>(k, v). map_option (Pair (c_string k)) (string_value v)) kvs)"
| "dictionary_value _ = None"

definition key_value :: "mmdb_value \<Rightarrow> string \<Rightarrow> mmdb_value option" where
  "key_value v key = (case lookup_value v [ascii key] of Inl _ \<Rightarrow> None | Inr w \<Rightarrow> Some w)"

definition checked :: "('a \<Rightarrow> bool) \<Rightarrow> 'a \<Rightarrow> 'a option" where
  "checked P x = (if P x then Some x else None)"

record file_metadata =
  fm_node_count :: u32
  fm_record_size :: u16
  fm_ip_version :: u16
  fm_database_type :: bytes
  fm_languages :: "bytes list"
  fm_major_version :: u16
  fm_minor_version :: u16
  fm_build_epoch :: u64
  fm_description :: "(bytes \<times> bytes) list"

definition metadata_of_value :: "mmdb_value \<Rightarrow> file_metadata option" where
  "metadata_of_value v = do {
     nodes \<leftarrow> key_value v ''node_count'' \<bind> uint32_value \<bind> checked (\<lambda>n. n \<noteq> 0);
     size0 \<leftarrow> key_value v ''record_size'' \<bind> uint16_value \<bind> checked (\<lambda>n. n = 24 \<or> n = 28 \<or> n = 32);
     version \<leftarrow> key_value v ''ip_version'' \<bind> uint16_value \<bind> checked (\<lambda>n. n = 4 \<or> n = 6);
     type \<leftarrow> key_value v ''database_type'' \<bind> string_value;
     languages \<leftarrow> key_value v ''languages'' \<bind> strings_value;
     major \<leftarrow> key_value v ''binary_format_major_version'' \<bind> uint16_value \<bind> checked (\<lambda>n. n \<noteq> 0);
     minor \<leftarrow> key_value v ''binary_format_minor_version'' \<bind> uint16_value;
     epoch \<leftarrow> key_value v ''build_epoch'' \<bind> uint64_value \<bind> checked (\<lambda>n. n \<noteq> 0);
     description \<leftarrow> key_value v ''description'' \<bind> dictionary_value;
     Some \<lparr>fm_node_count = nodes, fm_record_size = size0, fm_ip_version = version, fm_database_type = type,
       fm_languages = languages, fm_major_version = major, fm_minor_version = minor, fm_build_epoch = epoch,
       fm_description = description\<rparr> }"

text \<open>The same view of the structure that the library fills in.\<close>

definition description_view :: "MMDB_description_s owned option \<Rightarrow> (bytes \<times> bytes) option" where
  "description_view d = do { (_, x) \<leftarrow> d; (_, l) \<leftarrow> language x; (_, t) \<leftarrow> description x; Some (l, t) }"

definition languages_view :: "MMDB_metadata_s \<Rightarrow> bytes list option" where
  "languages_view m = do {
     (_, ns) \<leftarrow> languages_names m;
     those (map (map_option snd) (take (languages_count m) ns)) }"

definition descriptions_view :: "MMDB_metadata_s \<Rightarrow> (bytes \<times> bytes) list option" where
  "descriptions_view m =
    (if description_count m = 0 then Some []
     else do { (_, ds) \<leftarrow> descriptions m; those (map description_view (take (description_count m) ds)) })"

definition metadata_view :: "MMDB_metadata_s \<Rightarrow> file_metadata option" where
  "metadata_view m = do {
     (_, type) \<leftarrow> database_type m;
     languages \<leftarrow> languages_view m;
     description \<leftarrow> descriptions_view m;
     Some \<lparr>fm_node_count = node_count m, fm_record_size = record_size m, fm_ip_version = ip_version m,
       fm_database_type = type, fm_languages = languages, fm_major_version = binary_format_major_version m,
       fm_minor_version = binary_format_minor_version m, fm_build_epoch = build_epoch m,
       fm_description = description\<rparr> }"

lemma those_eq_Some: "those xs = Some ys \<longleftrightarrow> xs = map Some ys"
  by (induction xs arbitrary: ys) (auto split: option.splits)

lemma those_map_Some [simp]: "those (map Some xs) = Some xs"
  by (simp add: those_eq_Some)

section \<open>Calls that implement a specification\<close>

text \<open>
  \<open>implements p R m g\<close>: the call \<open>m\<close> succeeds with a result that is related to what \<open>g\<close> specifies; it
  fails when \<open>g\<close> specifies no value, or because memory is short, which it never is when \<open>p\<close> holds.
\<close>

definition implements :: "bool \<Rightarrow> ('a \<Rightarrow> 'x \<Rightarrow> bool) \<Rightarrow> 'a run \<Rightarrow> 'x option \<Rightarrow> bool" where
  "implements p R m g \<longleftrightarrow> wp m (\<lambda>st s.
     if st = MMDB_SUCCESS then \<exists>x. g = Some x \<and> R s x
     else g = None \<or> st = MMDB_OUT_OF_MEMORY_ERROR \<and> \<not> p)"

lemma implements_return: "R s x \<Longrightarrow> implements p R (Some (MMDB_SUCCESS, s)) (Some x)"
  by (simp add: implements_def)

lemma implements_fail: "st \<noteq> MMDB_SUCCESS \<Longrightarrow> implements p R (Some (st, s)) None"
  by (simp add: implements_def)

lemma implements_no_memory: "\<not> p \<Longrightarrow> implements p R (Some (MMDB_OUT_OF_MEMORY_ERROR, s)) g"
  by (simp add: implements_def)

lemma implements_chk:
  assumes "implements p R m g" and "\<And>s x. g = Some x \<Longrightarrow> R s x \<Longrightarrow> implements p S (f s) (k x)"
  shows "implements p S (chk_with c m f) (g \<bind> k)"
proof -
  obtain st s where m: "m = Some (st, s)"
    and g: "if st = MMDB_SUCCESS then \<exists>x. g = Some x \<and> R s x else g = None \<or> st = MMDB_OUT_OF_MEMORY_ERROR \<and> \<not> p"
    using assms(1) by (auto simp: implements_def wp_iff_ex)
  show ?thesis
  proof (cases "st = MMDB_SUCCESS")
    case True
    then obtain x where "g = Some x" "R s x" using g by auto
    then show ?thesis using assms(2) m True by simp
  qed (use g m in \<open>auto simp: implements_def\<close>)
qed

lemma implements_chk_eq:
  assumes "implements p (\<lambda>s x. s = r x) m g" and "\<And>x. g = Some x \<Longrightarrow> implements p S (f (r x)) (k x)"
  shows "implements p S (chk_with c m f) (g \<bind> k)"
  by (rule implements_chk [OF assms(1)]) (simp add: assms(2))

lemma implements_mono:
  assumes "implements p R m g" and "\<And>s x. R s x \<Longrightarrow> S s x"
  shows "implements p S m g"
  using assms by (auto simp: implements_def elim!: wp_mono split: if_splits)

lemma implements_weaken: "implements p R m g \<Longrightarrow> (p' \<Longrightarrow> p) \<Longrightarrow> implements p' R m g"
  by (auto simp: implements_def elim!: wp_mono split: if_splits)

lemma implements_map_option:
  assumes "implements p R m g" and "\<And>s x. R s x \<Longrightarrow> S (f s) x"
  shows "implements p S (map_option (\<lambda>(st, s). (st, f s)) m) g"
  using assms by (cases m) (auto simp: implements_def split: if_splits)

lemma implements_result:
  assumes "implements p R m g" and "\<And>s x. R s x \<Longrightarrow> S s (f x)"
  shows "implements p S m (map_option f g)"
  using assms by (cases m) (auto simp: implements_def split: if_splits)

section \<open>Single values\<close>

lemma implements_aget:
  assumes "represents (entry_mmdb start) a v n h" and "entry_offset start = word_of_nat a"
    and "h \<le> MAXIMUM_DATA_STRUCTURE_DEPTH"
  shows "implements p (\<lambda>e w. found_value (entry_mmdb start) h w e) (MMDB_aget_value stacks start [ascii key])
    (key_value v key)"
  unfolding implements_def
  by (rule wp_mono [OF MMDB_aget_value_lookup [OF assms]]) (auto simp: key_value_def split: sum.splits)

lemma found_head:
  assumes "found_value db h w e"
  shows "entry_head db e = Some (head_of w)" and "ed_type e \<noteq> MMDB_DATA_TYPE_POINTER"
  using assms by (auto simp: found_value_def entry_for_def)

lemma head_of_scalar: "H_scalar w = head_of v \<Longrightarrow> v = w"
  by (cases v) simp_all

lemma entry_head_number:
  assumes "entry_head db e = Some (head_of w)"
  shows "if ed_type e = MMDB_DATA_TYPE_UINT16 then \<exists>x. w = V_uint16 x \<and> union_uint16 (ed_value e) = Some x
      else uint16_value w = None"
    and "if ed_type e = MMDB_DATA_TYPE_UINT32 then \<exists>x. w = V_uint32 x \<and> union_uint32 (ed_value e) = Some x
      else uint32_value w = None"
    and "if ed_type e = MMDB_DATA_TYPE_UINT64 then \<exists>x. w = V_uint64 x \<and> union_uint64 (ed_value e) = Some x
      else uint64_value w = None"
  using assms by (cases "ed_value e"; cases w; auto simp: entry_head_def split: if_splits)+

lemma entry_head_string:
  assumes "entry_head db e = Some (head_of w)"
  shows "if ed_type e = MMDB_DATA_TYPE_UTF8_STRING
      then \<exists>s bs. w = V_string bs \<and> union_utf8_string (ed_value e) = Some s \<and>
        c_str_block (mapping db) s (unat (data_size e)) = Some bs
      else string_value w = None"
  using assms
  by (cases "ed_value e"; cases w; auto simp: entry_head_def str_bytes_block split: if_splits)

lemma entry_head_container:
  assumes "entry_head db e = Some (head_of w)"
  shows "if ed_type e = MMDB_DATA_TYPE_ARRAY then \<exists>vs. w = V_array vs \<and> unat (data_size e) = length vs
      else strings_value w = None"
    and "if ed_type e = MMDB_DATA_TYPE_MAP then \<exists>kvs. w = V_map kvs \<and> unat (data_size e) = length kvs
      else dictionary_value w = None"
  using assms by (cases "ed_value e"; cases w; auto simp: entry_head_def split: if_splits)+

lemma value_for_key_as_uint16_value:
  assumes "represents (entry_mmdb start) a v n h" and "entry_offset start = word_of_nat a"
    and "h \<le> MAXIMUM_DATA_STRUCTURE_DEPTH"
  shows "implements p (=) (value_for_key_as_uint16 stacks start (ascii key) x) (key_value v key \<bind> uint16_value)"
  unfolding value_for_key_as_uint16_def
  by (rule implements_chk [OF implements_aget [OF assms]])
    (use found_head(1) [THEN entry_head_number(1)] in \<open>fastforce simp: implements_def split: if_splits\<close>)

lemma value_for_key_as_uint32_value:
  assumes "represents (entry_mmdb start) a v n h" and "entry_offset start = word_of_nat a"
    and "h \<le> MAXIMUM_DATA_STRUCTURE_DEPTH"
  shows "implements p (=) (value_for_key_as_uint32 stacks start (ascii key) x) (key_value v key \<bind> uint32_value)"
  unfolding value_for_key_as_uint32_def
  by (rule implements_chk [OF implements_aget [OF assms]])
    (use found_head(1) [THEN entry_head_number(2)] in \<open>fastforce simp: implements_def split: if_splits\<close>)

lemma value_for_key_as_uint64_value:
  assumes "represents (entry_mmdb start) a v n h" and "entry_offset start = word_of_nat a"
    and "h \<le> MAXIMUM_DATA_STRUCTURE_DEPTH"
  shows "implements p (=) (value_for_key_as_uint64 stacks start (ascii key) x) (key_value v key \<bind> uint64_value)"
  unfolding value_for_key_as_uint64_def
  by (rule implements_chk [OF implements_aget [OF assms]])
    (use found_head(1) [THEN entry_head_number(3)] in \<open>fastforce simp: implements_def split: if_splits\<close>)

text \<open>The answers of the allocator do not change, only the number of calls.\<close>

definition same_memory :: "resources \<Rightarrow> resources \<Rightarrow> bool" where
  "same_memory h h' \<longleftrightarrow> alloc_ok h' = alloc_ok h \<and> pool_ok h' = pool_ok h"

definition plenty :: "resources \<Rightarrow> bool" where
  "plenty h \<longleftrightarrow> (\<forall>k. alloc_ok h k) \<and> (\<forall>k l. pool_ok h k l)"

lemma same_memory_simps [simp]: "same_memory h h"
  by (simp add: same_memory_def)

lemma same_memory_trans [trans]: "same_memory h h' \<Longrightarrow> same_memory h' h'' \<Longrightarrow> same_memory h h''"
  by (simp add: same_memory_def)

lemma same_memory_plenty: "same_memory h h' \<Longrightarrow> plenty h' = plenty h"
  by (simp add: same_memory_def plenty_def)

lemma c_malloc_memory:
  assumes "c_malloc h = (r, h')"
  shows "same_memory h h'" and "r = None \<Longrightarrow> \<not> plenty h"
  using assms by (auto simp: c_malloc_def Let_def same_memory_def plenty_def split: if_splits)

lemma mmdb_strndup_value:
  assumes "c_str_block m str n = Some bs"
  obtains r h' where "mmdb_strndup m str n h = Some (r, h')" and "same_memory h h'"
    and "r = None \<Longrightarrow> \<not> plenty h" and "\<And>a s. r = Some (a, s) \<Longrightarrow> s = c_string bs"
proof -
  obtain r h' where dup: "mmdb_strndup m str n h = Some (r, h')"
    and s: "\<forall>a s. r = Some (a, s) \<longrightarrow> s = c_string bs"
    using mmdb_strndup_owns [OF assms, of h "live h" "{#}"] by (auto simp: owns_def c_string_def)
  obtain r' h1 where "c_malloc h = (r', h1)" by fastforce
  then have "same_memory h h'" "r = None \<Longrightarrow> \<not> plenty h"
    using dup c_malloc_memory [of h r' h1] by (auto simp: mmdb_strndup_def split: bind_splits option.splits)
  then show ?thesis using that dup s by blast
qed

lemma read_database_type_value:
  assumes "represents (entry_mmdb start) a v n hh" and "entry_offset start = word_of_nat a"
    and "hh \<le> MAXIMUM_DATA_STRUCTURE_DEPTH"
  shows "implements (plenty h) (\<lambda>(db', h') x. same_memory h h' \<and>
      (\<exists>b. db' = db\<lparr>db_metadata := (db_metadata db)\<lparr>database_type := Some (b, x)\<rparr>\<rparr>))
    (read_database_type stacks start (db, h)) (key_value v ''database_type'' \<bind> string_value)"
proof -
  have "implements (plenty h) (\<lambda>(val, h') x. same_memory h h' \<and> (\<exists>b. val = Some (b, x)))
    (value_for_key_as_string stacks start (ascii ''database_type'') (database_type (db_metadata db), h))
    (key_value v ''database_type'' \<bind> string_value)"
    unfolding value_for_key_as_string_def prod.case
  proof (rule implements_chk [OF implements_aget [OF assms]])
    fix e w
    assume "key_value v ''database_type'' = Some w" and "found_value (entry_mmdb start) hh w e"
    note str = entry_head_string [OF found_head(1) [OF this(2)]]
    show "implements (plenty h) (\<lambda>(val, h') x. same_memory h h' \<and> (\<exists>b. val = Some (b, x)))
      (if ed_type e \<noteq> MMDB_DATA_TYPE_UTF8_STRING then Some (MMDB_INVALID_METADATA_ERROR, (database_type (db_metadata db), h))
       else do {
         str \<leftarrow> union_utf8_string (ed_value e);
         (copy, h) \<leftarrow> mmdb_strndup (mapping (entry_mmdb start)) str (unat (data_size e)) h;
         if copy = None then Some (MMDB_OUT_OF_MEMORY_ERROR, (copy, h)) else Some (MMDB_SUCCESS, (copy, h)) })
      (string_value w)"
    proof (cases "ed_type e = MMDB_DATA_TYPE_UTF8_STRING")
      case True
      then obtain s bs where s: "w = V_string bs" "union_utf8_string (ed_value e) = Some s"
        and bs: "c_str_block (mapping (entry_mmdb start)) s (unat (data_size e)) = Some bs" using str by auto
      obtain r h' where "mmdb_strndup (mapping (entry_mmdb start)) s (unat (data_size e)) h = Some (r, h')"
        "same_memory h h'" "r = None \<Longrightarrow> \<not> plenty h" "\<And>a s. r = Some (a, s) \<Longrightarrow> s = c_string bs"
        using mmdb_strndup_value [OF bs] by blast
      then show ?thesis using True s by (cases r) (auto simp: implements_def)
    qed (use str in \<open>auto simp: implements_def\<close>)
  qed
  moreover have "read_database_type stacks start (db, h) =
      map_option (\<lambda>(st, s). (st, case s of (v, h) \<Rightarrow> (db\<lparr>db_metadata := (db_metadata db)\<lparr>database_type := v\<rparr>\<rparr>, h)))
        (value_for_key_as_string stacks start (ascii ''database_type'') (database_type (db_metadata db), h))"
    by (simp add: read_database_type_def case_prod_unfold)
  ultimately show ?thesis
    by (simp only:) (erule implements_map_option, auto)
qed

section \<open>Languages\<close>

lemma populate_languages_from_value:
  assumes "list_from pool member (e0 # es)" and "map (entry_head mdb) es = map Some (concat (map flatten vs))"
    and "mapping mdb = mapping db" and "languages_names (db_metadata db) = Some (a, ns)"
    and "languages_count (db_metadata db) = i" and "length ns = i + length vs"
  shows "implements (plenty h) (\<lambda>(db', h') xs. same_memory h h' \<and> (\<exists>zs. map (map_option snd) zs = map Some xs \<and>
      db' = db\<lparr>db_metadata := (db_metadata db)\<lparr>languages_names := Some (a, take i ns @ zs),
        languages_count := i + length zs\<rparr>\<rparr>))
    (populate_languages_from pool (length vs) i member (db, h)) (those (map string_value vs))"
  using assms
proof (induction vs arbitrary: member e0 es db h i ns)
  case (Cons w vs)
  obtain hs where flat: "flatten w = head_of w # hs" by (cases w) auto
  then obtain e es' where es: "es = e # es'" and e: "entry_head mdb e = Some (head_of w)"
    using Cons.prems(2) by (cases es) auto
  obtain member' where m: "next_member pool member = Some (member', e)" "list_from pool member' (e # es')"
    using next_member_list Cons.prems(1) es by blast
  note str = entry_head_string [OF e]
  show ?case
  proof (cases "ed_type e = MMDB_DATA_TYPE_UTF8_STRING")
    case True
    then obtain s bs where s: "w = V_string bs" "union_utf8_string (ed_value e) = Some s"
      and bs: "c_str_block (mapping db) s (unat (data_size e)) = Some bs" using str Cons.prems(3) by auto
    obtain r h' where dup: "mmdb_strndup (mapping db) s (unat (data_size e)) h = Some (r, h')"
      and mem: "same_memory h h'" and r: "r = None \<Longrightarrow> \<not> plenty h" "\<And>a s. r = Some (a, s) \<Longrightarrow> s = c_string bs"
      using mmdb_strndup_value [OF bs] by blast
    show ?thesis
    proof (cases r)
      case None
      then show ?thesis
        using True m s dup r Cons.prems by (simp add: set_language_name_def implements_no_memory)
    next
      case (Some x)
      then have x: "snd x = c_string bs" using r(2) by (cases x) auto
      let ?ns = "ns[i := Some x]"
      let ?db = "db\<lparr>db_metadata := (db_metadata db)\<lparr>languages_names := Some (a, ?ns), languages_count := i + 1\<rparr>\<rparr>"
      have "map (entry_head mdb) es' = map Some (concat (map flatten vs))"
        using Cons.prems(2) s es by simp
      note IH = Cons.IH [OF m(2) this, of ?db ?ns "i + 1" h']
      have run: "populate_languages_from pool (length (w # vs)) i member (db, h) =
          populate_languages_from pool (length vs) (i + 1) member' (?db, h')"
        using True m s dup Some Cons.prems by (simp add: set_language_name_def set_languages_count_def)
      have take: "take (Suc i) ?ns = take i ns @ [Some x]"
        using Cons.prems(6) by (simp add: take_Suc_conv_app_nth)
      have "implements (plenty h') (\<lambda>(db', h') xs. same_memory h h' \<and> (\<exists>zs. map (map_option snd) zs = map Some xs \<and>
          db' = db\<lparr>db_metadata := (db_metadata db)\<lparr>languages_names := Some (a, take i ns @ zs),
            languages_count := i + length zs\<rparr>\<rparr>))
        (populate_languages_from pool (length vs) (i + 1) member' (?db, h'))
        (map_option ((#) (c_string bs)) (those (map string_value vs)))"
        by (rule implements_result, rule IH)
          (use Cons.prems take mem x Some in \<open>auto simp: fun_upd_def intro: same_memory_trans intro!: exI [of _ "Some x # _"]\<close>)
      then show ?thesis using run s same_memory_plenty [OF mem] by simp
    qed
  qed (use m str in \<open>auto simp: implements_def\<close>)
qed (simp add: implements_def)

lemma found_list_value:
  assumes "found_value mdb hh w e" and "hh \<le> MAXIMUM_DATA_STRUCTURE_DEPTH"
  shows "wp (MMDB_get_entry_data_list ok \<lparr>entry_mmdb = mdb, entry_offset = ed_offset e\<rparr>) (\<lambda>st r.
    if st = MMDB_SUCCESS
    then \<exists>pool e0 es. r = Some ((0, 0), pool) \<and> pool_entry pool (0, 0) = Some e0 \<and>
      list_from pool (0, 0) (e0 # es) \<and> map (entry_head mdb) (e0 # es) = map Some (flatten w)
    else st = MMDB_OUT_OF_MEMORY_ERROR \<and> ((\<forall>k. ok k) \<longrightarrow> pool_capacity < length (flatten w)))"
proof -
  obtain t c m h' n where t: "stored mdb t w c m h'" "h' \<le> hh" "entry_for mdb t w n e"
    using assms(1) by (auto simp: found_value_def)
  have "represents mdb t w m h'"
    by (rule stored_represents_represents_seq_represents_pairs.direct [OF t(1)])
  moreover have "ed_offset e = word_of_nat t" using t(3) by (simp add: entry_for_def)
  ultimately have "wp (MMDB_get_entry_data_list ok \<lparr>entry_mmdb = mdb, entry_offset = ed_offset e\<rparr>) (\<lambda>st r.
      if st = MMDB_SUCCESS
      then \<exists>pool es. r = Some ((0, 0), pool) \<and> list_entries pool (length (flatten w)) (Some (0, 0)) = Some es \<and>
        map (entry_head mdb) es = map Some (flatten w)
      else st = MMDB_OUT_OF_MEMORY_ERROR \<and> r = None \<and> ((\<forall>k. ok k) \<longrightarrow> pool_capacity < length (flatten w)))"
    using MMDB_get_entry_data_list_flatten [of "\<lparr>entry_mmdb = mdb, entry_offset = ed_offset e\<rparr>" t w m h' ok] t(2) assms(2)
    by (simp only: MMDB_entry_s.simps)
  then show ?thesis
  proof (rule wp_mono, goal_cases)
    case (1 st r)
    show ?case
    proof (cases "st = MMDB_SUCCESS")
      case True
      then obtain pool es where r: "r = Some ((0, 0), pool)" and es: "map (entry_head mdb) es = map Some (flatten w)"
        and l: "list_from pool (0, 0) es" using 1 by (auto simp: list_from_def)
      obtain e0 es' where "es = e0 # es'" using es flatten_not_Nil [of w] by (cases es) auto
      then show ?thesis using True r es l list_from_Cons [of pool "(0, 0)" e0 es'] by (auto simp: pool_entry_def)
    qed (use 1 in simp)
  qed
qed

lemma key_value_flatten:
  assumes "key_value v key = Some w"
  shows "length (flatten w) \<le> length (flatten v)"
proof (cases v)
  case (V_map kvs)
  then have "map_of kvs (ascii key) = Some w" using assms by (auto simp: key_value_def split: option.splits)
  then have "(ascii key, w) \<in> set kvs" by (rule map_of_SomeD)
  then have "\<exists>xs ys. kvs = xs @ (ascii key, w) # ys" by (rule split_list)
  then show ?thesis using V_map by auto
next
  case (V_array vs)
  then obtain j where j: "array_position (ascii key) (length vs) = Inr j" "w = vs ! j"
    using assms by (auto simp: key_value_def split: sum.splits)
  then have "j < length vs" by (auto simp: array_position_def Let_def split: prod.splits if_splits)
  then have "w \<in> set vs" using j by simp
  then have "\<exists>xs ys. vs = xs @ w # ys" by (rule split_list)
  then show ?thesis using V_array by auto
qed (use assms in \<open>simp_all add: key_value_def\<close>)

text \<open>The list of a value that was found under a key.\<close>

lemma implements_list:
  assumes "found_value mdb hh w e" and "hh \<le> MAXIMUM_DATA_STRUCTURE_DEPTH" and "key_value v key = Some w"
  shows "implements (plenty h \<and> length (flatten v) \<le> pool_capacity) (\<lambda>r _. \<exists>pool e0 es. r = Some ((0, 0), pool) \<and>
      pool_entry pool (0, 0) = Some e0 \<and> list_from pool (0, 0) (e0 # es) \<and>
      entry_head mdb e0 = Some (head_of w) \<and> map (entry_head mdb) es = map Some (tl (flatten w)))
    (MMDB_get_entry_data_list (pool_ok h (next_addr h)) \<lparr>entry_mmdb = mdb, entry_offset = ed_offset e\<rparr>) (Some ())"
proof -
  have "flatten w = head_of w # tl (flatten w)" by (cases w) simp_all
  then have "map (entry_head mdb) (e0 # es) = map Some (flatten w) \<longleftrightarrow>
      entry_head mdb e0 = Some (head_of w) \<and> map (entry_head mdb) es = map Some (tl (flatten w))" for e0 es
    by (metis list.inject list.simps(9))
  then show ?thesis
    using found_list_value [OF assms(1,2), of "pool_ok h (next_addr h)"] key_value_flatten [OF assms(3)]
    by (auto simp: implements_def plenty_def elim!: wp_mono split: if_splits)
qed

lemma populate_languages_metadata_value:
  assumes v: "represents mdb a v n hh" "hh \<le> MAXIMUM_DATA_STRUCTURE_DEPTH"
    and start: "entry_mmdb start = mdb" "entry_offset start = word_of_nat a" and same: "mapping mdb = mapping db"
  shows "implements (plenty h \<and> length (flatten v) \<le> pool_capacity)
    (\<lambda>(db', h') xs. same_memory h h' \<and> (\<exists>b zs. map (map_option snd) zs = map Some xs \<and>
      db' = db\<lparr>db_metadata := (db_metadata db)\<lparr>languages_names := Some (b, zs), languages_count := length zs\<rparr>\<rparr>))
    (populate_languages_metadata stacks mdb start (db, h)) (key_value v ''languages'' \<bind> strings_value)"
    (is "implements ?p ?R _ _")
proof -
  have "represents (entry_mmdb start) a v n hh" using v start by simp
  note get = implements_aget [OF this start(2) v(2), of ?p stacks "''languages''", unfolded start(1)]
  let ?fill = "\<lambda>(l :: (elem_ptr \<times> MMDB_data_pool_s) option). do {
      (member, pool) \<leftarrow> l;
      e \<leftarrow> pool_entry pool member;
      let array_size = unat (data_size e);
      let db = set_languages_count 0 db;
      case c_malloc h of
        (None, h) \<Rightarrow>
          Some (MMDB_OUT_OF_MEMORY_ERROR, (db\<lparr>db_metadata := (db_metadata db)\<lparr>languages_names := None\<rparr>\<rparr>, h))
      | (Some a, h) \<Rightarrow>
          populate_languages_from pool array_size 0 member
            (db\<lparr>db_metadata := (db_metadata db)\<lparr>languages_names := Some (a, replicate array_size None)\<rparr>\<rparr>, h) }"
  have fill: "implements ?p ?R (?fill (Some ((0, 0), pool))) (those (map string_value vs))"
    if e0: "pool_entry pool (0, 0) = Some e0" "entry_head mdb e0 = Some (H_array (length vs))"
      and es: "list_from pool (0, 0) (e0 # es)" "map (entry_head mdb) es = map Some (concat (map flatten vs))"
    for pool e0 es vs
  proof -
    have size0: "unat (data_size e0) = length vs" using e0(2) by (auto simp: entry_head_def split: if_splits)
    obtain r h1 where m: "c_malloc h = (r, h1)" by fastforce
    note mem = c_malloc_memory [OF m]
    show ?thesis
    proof (cases r)
      case None
      then show ?thesis using e0 m mem by (simp add: implements_no_memory Let_def)
    next
      case (Some b)
      let ?db = "db\<lparr>db_metadata := (db_metadata db)\<lparr>languages_count := 0,
          languages_names := Some (b, replicate (length vs) None)\<rparr>\<rparr>"
      have "implements (plenty h1) ?R (populate_languages_from pool (length vs) 0 (0, 0) (?db, h1)) (those (map string_value vs))"
        by (rule implements_mono, rule populate_languages_from_value [OF es, of _ b "replicate (length vs) None"])
          (use same mem(1) in \<open>auto intro: same_memory_trans\<close>)
      then have "implements ?p ?R (populate_languages_from pool (length vs) 0 (0, 0) (?db, h1)) (those (map string_value vs))"
        using same_memory_plenty [OF mem(1)] by (auto elim: implements_weaken)
      then show ?thesis using e0 m Some size0 by (simp add: set_languages_count_def Let_def)
    qed
  qed
  show ?thesis
    unfolding populate_languages_metadata_def
  proof (rule implements_chk [OF get], goal_cases)
    case (1 e w)
    note container = entry_head_container(1) [OF found_head(1) [OF 1(2)]]
    show ?case
    proof (cases "ed_type e = MMDB_DATA_TYPE_ARRAY")
      case True
      then obtain vs where w: "w = V_array vs" using container by auto
      have "implements ?p ?R (chk_with (\<lambda>_. (db, h)) (MMDB_get_entry_data_list (pool_ok h (next_addr h))
          \<lparr>entry_mmdb = mdb, entry_offset = ed_offset e\<rparr>) ?fill) (Some () \<bind> (\<lambda>_. those (map string_value vs)))"
        by (rule implements_chk [OF implements_list [OF 1(2) v(2) 1(1)]]) (use fill w in auto)
      then show ?thesis using True w by simp
    qed (use container in \<open>auto simp: implements_def\<close>)
  qed
qed

section \<open>Descriptions\<close>

text \<open>The next member, copied if it is a string.\<close>

lemma next_string_value:
  assumes "list_from pool member (e0 # e # es)" and "entry_head mdb e = Some (head_of w)" and "mapping mdb = m"
  obtains member' where "list_from pool member' (e # es)"
    and "case string_value w of
        None \<Rightarrow> next_string pool m member h = Some None
      | Some s \<Rightarrow> \<exists>r h'. next_string pool m member h = Some (Some (member', r, h')) \<and> same_memory h h' \<and>
          (r = None \<longrightarrow> \<not> plenty h) \<and> (\<forall>x. r = Some x \<longrightarrow> snd x = s)"
proof -
  obtain member' where m: "next_member pool member = Some (member', e)" "list_from pool member' (e # es)"
    using next_member_list [OF assms(1)] by blast
  note str = entry_head_string [OF assms(2)]
  show ?thesis
  proof (cases "ed_type e = MMDB_DATA_TYPE_UTF8_STRING")
    case True
    then obtain s bs where s: "w = V_string bs" "union_utf8_string (ed_value e) = Some s"
      and bs: "c_str_block m s (unat (data_size e)) = Some bs" using str assms(3) by auto
    obtain r h' where "mmdb_strndup m s (unat (data_size e)) h = Some (r, h')" "same_memory h h'"
      "r = None \<Longrightarrow> \<not> plenty h" "\<And>a s. r = Some (a, s) \<Longrightarrow> s = c_string bs"
      using mmdb_strndup_value [OF bs] by blast
    then show ?thesis using that [OF m(2)] True m s by (auto simp: next_string_def)
  qed (use that [OF m(2)] m str in \<open>auto simp: next_string_def\<close>)
qed

lemma populate_descriptions_from_value:
  assumes "list_from pool member (e0 # es)"
    and "map (entry_head mdb) es = map Some (concat (map (\<lambda>(k, v). H_scalar (V_string k) # flatten v) kvs))"
    and "mapping mdb = mapping db" and "descriptions (db_metadata db) = Some (a, ds)"
    and "description_count (db_metadata db) = i" and "length ds = i + length kvs"
  shows "implements (plenty h) (\<lambda>(db', h') xs. same_memory h h' \<and> (\<exists>zs. map description_view zs = map Some xs \<and>
      db' = db\<lparr>db_metadata := (db_metadata db)\<lparr>descriptions := Some (a, take i ds @ zs),
        description_count := i + length zs\<rparr>\<rparr>))
    (populate_descriptions_from pool (length kvs) i member (db, h))
    (those (map (\<lambda>(k, v). map_option (Pair (c_string k)) (string_value v)) kvs))"
  using assms
proof (induction kvs arbitrary: member e0 es db h i ds)
  case (Cons kv kvs)
  obtain k w where kv: "kv = (k, w)" by fastforce
  obtain hs where flat: "flatten w = head_of w # hs" by (cases w) auto
  then obtain e1 e2 es' where es: "es = e1 # e2 # es'" and e1: "entry_head mdb e1 = Some (head_of (V_string k))"
    and e2: "entry_head mdb e2 = Some (head_of w)"
    using Cons.prems(2) kv by (auto simp: Cons_eq_map_conv)
  obtain r h1 where m: "c_malloc h = (r, h1)" by fastforce
  note mem = c_malloc_memory [OF m]
  show ?case
  proof (cases r)
    case None
    then show ?thesis using m mem Cons.prems by (simp add: set_description_def implements_no_memory)
  next
    case (Some b)
    obtain member1 where m1: "list_from pool member1 (e1 # e2 # es')"
      and n1: "case string_value (V_string k) of
        None \<Rightarrow> next_string pool (mapping db) member h1 = Some None
      | Some s \<Rightarrow> \<exists>r h'. next_string pool (mapping db) member h1 = Some (Some (member1, r, h')) \<and> same_memory h1 h' \<and>
          (r = None \<longrightarrow> \<not> plenty h1) \<and> (\<forall>x. r = Some x \<longrightarrow> snd x = s)"
      using next_string_value [OF Cons.prems(1) [unfolded es] e1 Cons.prems(3), of h1] by blast
    then obtain lang h2 where lang: "next_string pool (mapping db) member h1 = Some (Some (member1, lang, h2))"
      "same_memory h1 h2" "lang = None \<Longrightarrow> \<not> plenty h1" "\<And>x. lang = Some x \<Longrightarrow> snd x = c_string k"
      unfolding string_value.simps option.case by blast
    obtain member2 where m2: "list_from pool member2 (e2 # es')"
      and n2: "case string_value w of
        None \<Rightarrow> next_string pool (mapping db) member1 h2 = Some None
      | Some s \<Rightarrow> \<exists>r h'. next_string pool (mapping db) member1 h2 = Some (Some (member2, r, h')) \<and> same_memory h2 h' \<and>
          (r = None \<longrightarrow> \<not> plenty h2) \<and> (\<forall>x. r = Some x \<longrightarrow> snd x = s)"
      using next_string_value [OF m1 e2 Cons.prems(3), of h2] by blast
    have p: "plenty h1 = plenty h" "plenty h2 = plenty h"
      using mem(1) lang(2) by (simp_all add: same_memory_plenty)
    consider "lang = None" | l where "lang = Some l" "string_value w = None" | l s where "lang = Some l" "string_value w = Some s"
      by (cases lang; cases "string_value w") auto
    then show ?thesis
    proof cases
      case 1
      then show ?thesis
        using m Some lang p Cons.prems
        by (simp add: set_description_def set_description_count_def implements_no_memory)
    next
      case 2
      then show ?thesis
        using m Some lang n2 Cons.prems kv
        by (simp add: set_description_def set_description_count_def implements_fail)
    next
      case (3 l s)
      then obtain desc h3 where desc: "next_string pool (mapping db) member1 h2 = Some (Some (member2, desc, h3))"
        "same_memory h2 h3" "desc = None \<Longrightarrow> \<not> plenty h2" "\<And>x. desc = Some x \<Longrightarrow> snd x = s"
        using n2 by auto
      have l: "snd l = c_string k" using lang(4) 3 by blast
      show ?thesis
      proof (cases desc)
        case None
        then show ?thesis
          using m Some lang desc p Cons.prems 3
          by (simp add: set_description_def set_description_count_def implements_no_memory)
      next
        case (Some t)
        let ?d = "Some (b, \<lparr>language = lang, description = desc\<rparr>)"
        let ?db = "db\<lparr>db_metadata := (db_metadata db)\<lparr>description_count := i + 1, descriptions := Some (a, ds[i := ?d])\<rparr>\<rparr>"
        have "string_value w = Some s" by (rule 3(2))
        then have "map (entry_head mdb) es' =
            map Some (concat (map (\<lambda>(k, v). H_scalar (V_string k) # flatten v) kvs))"
          using Cons.prems(2) es kv by (cases w) auto
        note IH = Cons.IH [OF m2 this, of ?db "ds[i := ?d]" "i + 1" h3]
        have run: "populate_descriptions_from pool (length (kv # kvs)) i member (db, h) =
            populate_descriptions_from pool (length kvs) (i + 1) member2 (?db, h3)"
          using m \<open>r = Some b\<close> lang desc Some 3 Cons.prems
          by (simp add: set_description_def set_description_count_def)
        have view: "description_view ?d = Some (c_string k, s)"
          using Some 3 l desc(4) by (auto simp: description_view_def case_prod_unfold)
        have take: "take (Suc i) (ds[i := ?d]) = take i ds @ [?d]"
          using Cons.prems(6) by (simp add: take_Suc_conv_app_nth)
        have mem3: "same_memory h h3" using mem(1) lang(2) desc(2) by (simp add: same_memory_def)
        have "implements (plenty h3) (\<lambda>(db', h') xs. same_memory h h' \<and> (\<exists>zs. map description_view zs = map Some xs \<and>
            db' = db\<lparr>db_metadata := (db_metadata db)\<lparr>descriptions := Some (a, take i ds @ zs),
              description_count := i + length zs\<rparr>\<rparr>))
          (populate_descriptions_from pool (length kvs) (i + 1) member2 (?db, h3))
          (map_option ((#) (c_string k, s)) (those (map (\<lambda>(k, v). map_option (Pair (c_string k)) (string_value v)) kvs)))"
          by (rule implements_result, rule IH)
            (use Cons.prems take mem3 view in \<open>auto intro: same_memory_trans intro!: exI [of _ "?d # _"]\<close>)
        then show ?thesis using run 3 kv same_memory_plenty [OF mem3] by simp
      qed
    qed
  qed
qed (simp add: implements_def)

lemma populate_description_metadata_value:
  assumes v: "represents mdb a v n hh" "hh \<le> MAXIMUM_DATA_STRUCTURE_DEPTH"
    and start: "entry_mmdb start = mdb" "entry_offset start = word_of_nat a" and same: "mapping mdb = mapping db"
  shows "implements (plenty h \<and> length (flatten v) \<le> pool_capacity)
    (\<lambda>(db', h') xs. \<exists>m. db' = db\<lparr>db_metadata := m\<rparr> \<and> but_descriptions m = but_descriptions (db_metadata db) \<and>
      descriptions_view m = Some xs)
    (populate_description_metadata stacks mdb start (db, h)) (key_value v ''description'' \<bind> dictionary_value)"
    (is "implements ?p ?R _ _")
proof -
  let ?pairs = "\<lambda>kvs. those (map (\<lambda>(k, v). map_option (Pair (c_string k)) (string_value v)) kvs)"
  have "represents (entry_mmdb start) a v n hh" using v start by simp
  note get = implements_aget [OF this start(2) v(2), of ?p stacks "''description''", unfolded start(1)]
  let ?fill = "\<lambda>(l :: (elem_ptr \<times> MMDB_data_pool_s) option). do {
      (member, pool) \<leftarrow> l;
      e \<leftarrow> pool_entry pool member;
      let map_size = unat (data_size e);
      let db = set_description_count 0 db;
      if map_size = 0 then
        Some (MMDB_SUCCESS, (db\<lparr>db_metadata := (db_metadata db)\<lparr>descriptions := None\<rparr>\<rparr>, h))
      else
        case c_malloc h of
          (None, h) \<Rightarrow> Some (MMDB_OUT_OF_MEMORY_ERROR, (db\<lparr>db_metadata := (db_metadata db)\<lparr>descriptions := None\<rparr>\<rparr>, h))
        | (Some a, h) \<Rightarrow>
            populate_descriptions_from pool map_size 0 member
              (db\<lparr>db_metadata := (db_metadata db)\<lparr>descriptions := Some (a, replicate map_size None)\<rparr>\<rparr>, h) }"
  have fill: "implements ?p ?R (?fill (Some ((0, 0), pool))) (?pairs kvs)"
    if e0: "pool_entry pool (0, 0) = Some e0" "entry_head mdb e0 = Some (H_map (length kvs))"
      and es: "list_from pool (0, 0) (e0 # es)"
        "map (entry_head mdb) es = map Some (concat (map (\<lambda>(k, v). H_scalar (V_string k) # flatten v) kvs))"
    for pool e0 es kvs
  proof -
    have size0: "unat (data_size e0) = length kvs" using e0(2) by (auto simp: entry_head_def split: if_splits)
    obtain r h1 where m: "c_malloc h = (r, h1)" by fastforce
    note mem = c_malloc_memory [OF m]
    consider "kvs = []" | "kvs \<noteq> []" "r = None" | b where "kvs \<noteq> []" "r = Some b" by (cases r) auto
    then show ?thesis
    proof cases
      case 1
      then show ?thesis
        using e0 size0
        by (auto simp: Let_def implements_def set_description_count_def but_descriptions_def descriptions_view_def
            intro: exI [of _ "(db_metadata db)\<lparr>description_count := 0, descriptions := None\<rparr>"])
    next
      case 2
      then show ?thesis using e0 size0 m mem by (simp add: implements_no_memory Let_def)
    next
      case (3 b)
      let ?db = "db\<lparr>db_metadata := (db_metadata db)\<lparr>description_count := 0,
          descriptions := Some (b, replicate (length kvs) None)\<rparr>\<rparr>"
      have "implements (plenty h1) ?R (populate_descriptions_from pool (length kvs) 0 (0, 0) (?db, h1)) (?pairs kvs)"
        by (rule implements_mono, rule populate_descriptions_from_value [OF es, of _ b "replicate (length kvs) None"])
          (use same in \<open>auto simp: but_descriptions_def descriptions_view_def those_eq_Some\<close>)
      then have "implements ?p ?R (populate_descriptions_from pool (length kvs) 0 (0, 0) (?db, h1)) (?pairs kvs)"
        using same_memory_plenty [OF mem(1)] by (auto elim: implements_weaken)
      then show ?thesis using e0 m 3 size0 by (simp add: set_description_count_def Let_def)
    qed
  qed
  show ?thesis
    unfolding populate_description_metadata_def
  proof (rule implements_chk [OF get], goal_cases)
    case (1 e w)
    note container = entry_head_container(2) [OF found_head(1) [OF 1(2)]]
    show ?case
    proof (cases "ed_type e = MMDB_DATA_TYPE_MAP")
      case True
      then obtain kvs where w: "w = V_map kvs" using container by auto
      have "implements ?p ?R (chk_with (\<lambda>_. (db, h)) (MMDB_get_entry_data_list (pool_ok h (next_addr h))
          \<lparr>entry_mmdb = mdb, entry_offset = ed_offset e\<rparr>) ?fill) (Some () \<bind> (\<lambda>_. ?pairs kvs))"
        by (rule implements_chk [OF implements_list [OF 1(2) v(2) 1(1)]]) (use fill w in auto)
      then show ?thesis using True w by (simp cong: if_cong)
    qed (use container in \<open>auto simp: implements_def\<close>)
  qed
qed

section \<open>read\_metadata\<close>

lemma read_node_count_value:
  assumes "represents (entry_mmdb start) a v n hh" and "entry_offset start = word_of_nat a"
    and "hh \<le> MAXIMUM_DATA_STRUCTURE_DEPTH"
  shows "implements p (\<lambda>s' x. s' = (db\<lparr>db_metadata := (db_metadata db)\<lparr>node_count := x\<rparr>\<rparr>, h))
    (read_node_count stacks start (db, h)) (key_value v ''node_count'' \<bind> uint32_value \<bind> checked (\<lambda>n. n \<noteq> 0))"
  unfolding read_node_count_def prod.case
  by (rule implements_chk [OF value_for_key_as_uint32_value [OF assms]])
    (auto simp: implements_def checked_def Let_def)

lemma read_record_size_value:
  assumes "represents (entry_mmdb start) a v n hh" and "entry_offset start = word_of_nat a"
    and "hh \<le> MAXIMUM_DATA_STRUCTURE_DEPTH"
  shows "implements p (\<lambda>s' x. s' = (db\<lparr>db_metadata := (db_metadata db)\<lparr>record_size := x\<rparr>\<rparr>, h))
    (read_record_size stacks start (db, h)) (key_value v ''record_size'' \<bind> uint16_value \<bind> checked (\<lambda>n. n = 24 \<or> n = 28 \<or> n = 32))"
  unfolding read_record_size_def prod.case
  by (rule implements_chk [OF value_for_key_as_uint16_value [OF assms]])
    (auto simp: implements_def checked_def Let_def)

lemma read_ip_version_value:
  assumes "represents (entry_mmdb start) a v n hh" and "entry_offset start = word_of_nat a"
    and "hh \<le> MAXIMUM_DATA_STRUCTURE_DEPTH"
  shows "implements p (\<lambda>s' x. s' = (db\<lparr>db_metadata := (db_metadata db)\<lparr>ip_version := x\<rparr>\<rparr>, h))
    (read_ip_version stacks start (db, h)) (key_value v ''ip_version'' \<bind> uint16_value \<bind> checked (\<lambda>n. n = 4 \<or> n = 6))"
  unfolding read_ip_version_def prod.case
  by (rule implements_chk [OF value_for_key_as_uint16_value [OF assms]])
    (auto simp: implements_def checked_def Let_def)

lemma read_major_version_value:
  assumes "represents (entry_mmdb start) a v n hh" and "entry_offset start = word_of_nat a"
    and "hh \<le> MAXIMUM_DATA_STRUCTURE_DEPTH"
  shows "implements p (\<lambda>s' x. s' = (db\<lparr>db_metadata := (db_metadata db)\<lparr>binary_format_major_version := x\<rparr>\<rparr>, h))
    (read_major_version stacks start (db, h)) (key_value v ''binary_format_major_version'' \<bind> uint16_value \<bind> checked (\<lambda>n. n \<noteq> 0))"
  unfolding read_major_version_def prod.case
  by (rule implements_chk [OF value_for_key_as_uint16_value [OF assms]])
    (auto simp: implements_def checked_def Let_def)

lemma read_minor_version_value:
  assumes "represents (entry_mmdb start) a v n hh" and "entry_offset start = word_of_nat a"
    and "hh \<le> MAXIMUM_DATA_STRUCTURE_DEPTH"
  shows "implements p (\<lambda>s' x. s' = (db\<lparr>db_metadata := (db_metadata db)\<lparr>binary_format_minor_version := x\<rparr>\<rparr>, h))
    (read_minor_version stacks start (db, h)) (key_value v ''binary_format_minor_version'' \<bind> uint16_value)"
  unfolding read_minor_version_def prod.case
  by (subst Option.bind_runit [symmetric], rule implements_chk [OF value_for_key_as_uint16_value [OF assms]])
    (auto simp: implements_def)

lemma read_build_epoch_value:
  assumes "represents (entry_mmdb start) a v n hh" and "entry_offset start = word_of_nat a"
    and "hh \<le> MAXIMUM_DATA_STRUCTURE_DEPTH"
  shows "implements p (\<lambda>s' x. s' = (db\<lparr>db_metadata := (db_metadata db)\<lparr>build_epoch := x\<rparr>\<rparr>, h))
    (read_build_epoch stacks start (db, h)) (key_value v ''build_epoch'' \<bind> uint64_value \<bind> checked (\<lambda>n. n \<noteq> 0))"
  unfolding read_build_epoch_def prod.case
  by (rule implements_chk [OF value_for_key_as_uint64_value [OF assms]])
    (auto simp: implements_def checked_def Let_def)

text \<open>The strings of the structure do not depend on its numbers.\<close>

lemma metadata_view_but_descriptions:
  assumes "but_descriptions m = but_descriptions m'" and "descriptions_view m = Some d"
  shows "metadata_view m = do { (_, type) \<leftarrow> database_type m'; languages \<leftarrow> languages_view m';
    Some \<lparr>fm_node_count = node_count m', fm_record_size = record_size m', fm_ip_version = ip_version m',
      fm_database_type = type, fm_languages = languages, fm_major_version = binary_format_major_version m',
      fm_minor_version = binary_format_minor_version m', fm_build_epoch = build_epoch m', fm_description = d\<rparr> }"
  using but_descriptions_eq [OF assms(1)] arg_cong [OF assms(1), of database_type]
    arg_cong [OF assms(1), of languages_names] arg_cong [OF assms(1), of languages_count]
    arg_cong [OF assms(1), of binary_format_minor_version] assms(2)
  by (simp add: metadata_view_def languages_view_def but_descriptions_def)

definition with_metadata :: "file_metadata \<Rightarrow> MMDB_s \<Rightarrow> MMDB_s \<Rightarrow> bool" where
  "with_metadata M db db' \<longleftrightarrow> (\<exists>m. metadata_view m = Some M \<and>
     db' = db\<lparr>db_metadata := m, full_record_byte_size := ucast ((ucast (fm_record_size M) * 2) div 8 :: u32),
       db_depth := (if fm_ip_version M = 4 then 32 else 128)\<rparr>)"

lemma read_metadata_value:
  assumes v: "represents (make_fake_metadata_db db) 0 v n hh" "hh \<le> MAXIMUM_DATA_STRUCTURE_DEPTH"
  shows "implements (plenty h \<and> length (flatten v) \<le> pool_capacity)
    (\<lambda>(db', h') M. with_metadata M db db') (read_metadata stacks (db, h)) (metadata_of_value v)"
proof -
  define mdb where "mdb = make_fake_metadata_db db"
  define start where "start = \<lparr>entry_mmdb = mdb, entry_offset = 0\<rparr>"
  have v0: "represents (entry_mmdb start) 0 v n hh" "entry_offset start = word_of_nat 0" "represents mdb 0 v n hh"
    "entry_mmdb start = mdb" "mapping mdb = mapping db"
    using v by (simp_all add: start_def mdb_def)
  note at = v0(1,2) v(2)
  let ?p = "plenty h \<and> length (flatten v) \<le> pool_capacity"
  have description: "implements ?p (\<lambda>(db', h') M. with_metadata M db db')
      (chk (populate_description_metadata stacks mdb start (db1, h1)) set_record_layout)
      (key_value v ''description'' \<bind> dictionary_value \<bind> (\<lambda>d. f d))"
    if mem: "same_memory h h1" and db1: "db1 = db\<lparr>db_metadata := m1\<rparr>"
      and f: "\<And>m d. but_descriptions m = but_descriptions m1 \<Longrightarrow> descriptions_view m = Some d \<Longrightarrow> metadata_view m = f d"
      and f': "\<And>d. f d = Some (F d)" "\<And>d. fm_record_size (F d) = record_size m1" "\<And>d. fm_ip_version (F d) = ip_version m1"
    for db1 h1 m1 f F
  proof (rule implements_chk [OF implements_weaken [OF populate_description_metadata_value [OF v0(3) v(2) v0(4,2)]]], goal_cases)
    case (3 s d)
    then obtain m h2 where s: "s = (db1\<lparr>db_metadata := m\<rparr>, h2)" and m: "but_descriptions m = but_descriptions m1"
      "descriptions_view m = Some d" using db1 by (cases s) auto
    then show ?case
      using f [OF m] f' but_descriptions_eq [OF m(1)] db1
      by (auto simp: set_record_layout_def implements_def with_metadata_def)
  qed (use db1 v0(5) same_memory_plenty [OF mem] in simp_all)
  show ?thesis
    unfolding read_metadata_def metadata_of_value_def Let_def fst_conv mdb_def [symmetric] start_def [symmetric]
  proof (rule implements_chk_eq [OF read_node_count_value [OF at]],
      rule implements_chk_eq [OF read_record_size_value [OF at]],
      rule implements_chk_eq [OF read_ip_version_value [OF at]],
      rule implements_chk [OF implements_weaken [OF read_database_type_value [OF at]]], simp, goal_cases)
    case (1 nodes size0 version s type)
    then obtain b h1 where s: "s = (db\<lparr>db_metadata := (db_metadata db)\<lparr>node_count := nodes, record_size := size0,
        ip_version := version, database_type := Some (b, type)\<rparr>\<rparr>, h1)" and mem: "same_memory h h1"
      by (cases s) auto
    show ?case
      unfolding s
    proof (rule implements_chk [OF implements_weaken [OF populate_languages_metadata_value [OF v0(3) v(2) v0(4,2)]]], goal_cases)
      case (3 s languages)
      then obtain a zs h2 where s: "s = (db\<lparr>db_metadata := (db_metadata db)\<lparr>node_count := nodes, record_size := size0,
          ip_version := version, database_type := Some (b, type), languages_names := Some (a, zs),
          languages_count := length zs\<rparr>\<rparr>, h2)" and zs: "map (map_option snd) zs = map Some languages"
        and mem2: "same_memory h1 h2"
        by (cases s) auto
      have "same_memory h h2" using mem mem2 by (rule same_memory_trans)
      then show ?case
        unfolding s
        by (intro implements_chk_eq [OF read_major_version_value [OF at]]
            implements_chk_eq [OF read_minor_version_value [OF at]]
            implements_chk_eq [OF read_build_epoch_value [OF at]] description)
          (auto dest!: metadata_view_but_descriptions simp: languages_view_def zs those_eq_Some)
    qed (use v0(5) same_memory_plenty [OF mem] in simp_all)
  qed
qed

end
