(* ===== verification/File_Tree.thy ===== *)
theory File_Tree
  imports Open_Close
begin

text \<open>
  Every handle that \<open>MMDB_open\<close> returns holds a tree: the bytes in front of the separator are the nodes
  of some tree, whatever they are. What the lookups do on stored trees, they do on every open
  database.
\<close>

section \<open>Decoding the nodes\<close>

lemma be_bytes_be: "be_bytes (length bs) (be bs) = bs"
proof (induction bs rule: rev_induct)
  case (snoc b bs)
  have "unat b < 256" by (rule unat_u8_less)
  then show ?case using snoc by (simp add: be_snoc)
qed simp

definition decode_node :: "bytes \<Rightarrow> nat \<times> nat" where
  "decode_node bs =
    (if length bs = 6 then (be (take 3 bs), be (drop 3 bs))
     else if length bs = 7 then
       (unat (bs ! 3) div 16 * 2 ^ 24 + be (take 3 bs), unat (bs ! 3) mod 16 * 2 ^ 24 + be (drop 4 bs))
     else (be (take 4 bs), be (drop 4 bs)))"

lemma be_take_drop:
  assumes "length bs = k"
  shows "be_bytes k (be bs) = bs" and "be bs < 256 ^ k"
  using be_bytes_be [of bs] be_bound [of bs] assms by simp_all

lemma encode_decode_node:
  assumes "length bs = sz" and "sz \<in> {6, 7, 8}"
  shows "encode_node sz (decode_node bs) = bs" and "fst (decode_node bs) < 2 ^ (4 * sz)" and "snd (decode_node bs) < 2 ^ (4 * sz)"
proof -
  consider "sz = 6" | "sz = 7" | "sz = 8" using assms(2) by auto
  then have "encode_node sz (decode_node bs) = bs \<and> fst (decode_node bs) < 2 ^ (4 * sz) \<and> snd (decode_node bs) < 2 ^ (4 * sz)"
  proof cases
    case 1
    then show ?thesis
      using assms be_take_drop [of "take 3 bs" 3] be_take_drop [of "drop 3 bs" 3]
      by (simp add: decode_node_def encode_node_def)
  next
    case 2
    let ?a = "be (take 3 bs)" and ?b = "be (drop 4 bs)" and ?m = "unat (bs ! 3)"
    have ab: "be_bytes 3 ?a = take 3 bs" "?a < 2 ^ 24" "be_bytes 3 ?b = drop 4 bs" "?b < 2 ^ 24"
      using assms 2 be_take_drop [of "take 3 bs" 3] be_take_drop [of "drop 4 bs" 3] by simp_all
    have m: "?m < 256" by (rule unat_u8_less)
    have split: "take 3 bs @ bs ! 3 # drop 4 bs = bs"
      using id_take_nth_drop [of 3 bs] assms 2 by (simp add: numeral_eq_Suc)
    have "(?m div 16 * 2 ^ 24 + ?a) mod 2 ^ 24 = ?a" "(?m div 16 * 2 ^ 24 + ?a) div 2 ^ 24 = ?m div 16"
      "(?m mod 16 * 2 ^ 24 + ?b) mod 2 ^ 24 = ?b" "(?m mod 16 * 2 ^ 24 + ?b) div 2 ^ 24 = ?m mod 16"
      using ab(2,4) by simp_all
    moreover have "16 * word_of_nat (?m div 16) + word_of_nat (?m mod 16) = bs ! 3"
    proof -
      have "16 * word_of_nat (?m div 16) + word_of_nat (?m mod 16) = (word_of_nat (16 * (?m div 16) + ?m mod 16) :: u8)"
        by (simp only: of_nat_add of_nat_mult of_nat_numeral)
      then show ?thesis by (simp only: mult_div_mod_eq of_nat_unat ucast_id)
    qed
    ultimately have "encode_node sz (decode_node bs) = bs"
      using 2 assms ab split by (simp add: decode_node_def encode_node_def)
    moreover have "?m div 16 < 16" "?m mod 16 < 16" using m by (simp_all add: less_mult_imp_div_less)
    then have "?m div 16 * 2 ^ 24 + ?a < 2 ^ 28" "?m mod 16 * 2 ^ 24 + ?b < 2 ^ 28" using ab(2,4) by auto
    ultimately show ?thesis using 2 assms by (simp add: decode_node_def)
  next
    case 3
    then show ?thesis
      using assms be_take_drop [of "take 4 bs" 4] be_take_drop [of "drop 4 bs" 4]
      by (simp add: decode_node_def encode_node_def)
  qed
  then show "encode_node sz (decode_node bs) = bs" "fst (decode_node bs) < 2 ^ (4 * sz)" "snd (decode_node bs) < 2 ^ (4 * sz)"
    by simp_all
qed

fun decode_nodes :: "nat \<Rightarrow> nat \<Rightarrow> bytes \<Rightarrow> (nat \<times> nat) list" where
  "decode_nodes sz 0 bs = []"
| "decode_nodes sz (Suc n) bs = decode_node (take sz bs) # decode_nodes sz n (drop sz bs)"

lemma decode_nodes_inverse:
  assumes "sz \<in> {6, 7, 8}" and "length bs = n * sz"
  shows "length (decode_nodes sz n bs) = n" and "concat (map (encode_node sz) (decode_nodes sz n bs)) = bs"
    and "records_below (2 ^ (4 * sz)) (decode_nodes sz n bs)"
  using assms
proof (induction n arbitrary: bs)
  case (Suc n)
  {
    case 1
    then show ?case using Suc.IH(1) [of "drop sz bs"] by simp
  next
    case 2
    then show ?case
      using Suc.IH(2) [of "drop sz bs"] encode_decode_node(1) [of "take sz bs" sz] by simp
  next
    case 3
    then show ?case
      using Suc.IH(3) [of "drop sz bs"] encode_decode_node(2,3) [of "take sz bs" sz]
      by (auto simp: records_below_def)
  }
qed (simp_all add: records_below_def)

section \<open>The tree of an open database\<close>

definition file_tree :: "MMDB_s \<Rightarrow> (nat \<times> nat) list" where
  "file_tree db = decode_nodes (unat (full_record_byte_size db)) (unat (node_count (db_metadata db)))
     (take (search_tree_size db) (mapping db))"

lemma layout_record_size:
  assumes "layout_ok db" and "metadata_ok (db_metadata db)"
  shows "unat (full_record_byte_size db) \<in> {6, 7, 8}"
proof -
  have "unat (full_record_byte_size db) * 4 \<in> {24, 28, 32}"
    using assms by (auto simp: layout_ok_def metadata_ok_def)
  then show ?thesis by auto
qed

lemma file_tree_stored:
  assumes "sections_ok db" and "layout_ok db" and "metadata_ok (db_metadata db)"
  shows "stored_tree db (file_tree db)" and "length (file_tree db) = unat (node_count (db_metadata db))"
proof -
  let ?sz = "unat (full_record_byte_size db)" and ?n = "unat (node_count (db_metadata db))"
  let ?bs = "take (search_tree_size db) (mapping db)"
  have sec: "file_content db = Some 0" "data_section db = Some (search_tree_size db + 16)"
    "search_tree_size db \<le> length (mapping db)" using assms(1) by (auto simp: sections_ok_def)
  have bs: "length ?bs = ?n * ?sz" using sec(3) by (simp add: search_tree_size_def)
  note nodes = decode_nodes_inverse [OF layout_record_size [OF assms(2,3)] bs, folded file_tree_def]
  have "bytes_at (mapping db) 0 ?bs" using sec(3) by (simp add: bytes_at_def min_def)
  then show "stored_tree db (file_tree db)" "length (file_tree db) = ?n"
    using nodes layout_record_size [OF assms(2,3)] sec by (simp_all add: stored_tree_def search_tree_size_def)
qed

lemma opened_stored_tree:
  assumes "opened db"
  shows "stored_tree db (file_tree db)" and "length (file_tree db) = unat (node_count (db_metadata db))"
  using file_tree_stored [of db] assms by (simp_all add: opened_def)

end
