(* ===== verification/Open_Correct.thy ===== *)
theory Open_Correct
  imports Metadata_Values File_Tree
begin

text \<open>
  \<open>MMDB_open\<close> as a whole: which files it accepts, what the handle says about them, and what a lookup
  on that handle gives, in terms of the bytes of the file.
\<close>

section \<open>Lookups on an open database\<close>

text \<open>The bits that an address stands for, or why it stands for none.\<close>

fun lookup_bits :: "u16 \<Rightarrow> sockaddr \<Rightarrow> mmdb_status + bool list" where
  "lookup_bits version (Sockaddr_in a) =
     Inr ((if version = 4 then [] else replicate 96 False) @ address_bits a)"
| "lookup_bits version (Sockaddr_in6 a) =
     (if version = 4 then Inl MMDB_IPV6_LOOKUP_IN_IPV4_DATABASE_ERROR else Inr (address_bits a))"
| "lookup_bits version (Sockaddr_other f) = Inl MMDB_INVALID_NETWORK_ADDRESS_ERROR"

definition tree_lookup :: "MMDB_s \<Rightarrow> sockaddr \<Rightarrow> mmdb_status \<times> MMDB_lookup_result_s" where
  "tree_lookup db sa =
    (case lookup_bits (ip_version (db_metadata db)) sa of
       Inl st \<Rightarrow> (st, no_result db)
     | Inr bs \<Rightarrow> outcome_of db (length (file_tree db)) (walk (node_step (file_tree db)) 0 bs))"

text \<open>The start node that \<open>MMDB_open\<close> computes once for all lookups of IPv4 addresses.\<close>

definition start_node_correct :: "MMDB_s \<Rightarrow> bool" where
  "start_node_correct db \<longleftrightarrow> (ip_version (db_metadata db) = 6 \<longrightarrow>
     (case walk (node_step (file_tree db)) 0 (replicate 96 False) of
        (w, k) \<Rightarrow> ipv4_start_node db = \<lparr>start_netmask = word_of_nat k, node_value = word_of_nat w\<rparr>))"

lemma opened_version:
  assumes "opened db"
  shows "ip_version (db_metadata db) = 4 \<and> db_depth db = 32 \<or> ip_version (db_metadata db) = 6 \<and> db_depth db = 128"
  using assms by (auto simp: opened_def metadata_ok_def layout_ok_def)

lemma opened_lookup:
  assumes db: "opened db" and start: "start_node_correct db" and sa: "sockaddr_ok sa"
  shows "MMDB_lookup_sockaddr db sa = Some (tree_lookup db sa)"
proof (cases sa)
  case (Sockaddr_in a)
  then have len: "length a = 4" using sa by simp
  from opened_version [OF db] show ?thesis
  proof
    assume v4: "ip_version (db_metadata db) = 4 \<and> db_depth db = 32"
    then show ?thesis
      using lookup_in4 [OF opened_stored_tree(1) [OF db] _ _ len] Sockaddr_in by (simp add: tree_lookup_def)
  next
    assume v6: "ip_version (db_metadata db) = 6 \<and> db_depth db = 128"
    define db0 where "db0 = db\<lparr>ipv4_start_node := \<lparr>start_netmask = 0, node_value = 0\<rparr>\<rparr>"
    have tree: "stored_tree db0 (file_tree db)"
      using opened_stored_tree(1) [OF db] by (simp add: db0_def stored_tree_def)
    obtain w k where walk: "walk (node_step (file_tree db)) 0 (replicate 96 False) = (w, k)" by fastforce
    then have "find_ipv4_start_node db0 = Some (MMDB_SUCCESS, db)"
      using find_ipv4_start_node_walk [OF tree] start v6 by (simp add: db0_def start_node_correct_def)
    then have "MMDB_lookup_sockaddr db (Sockaddr_in a) = MMDB_lookup_sockaddr db (Sockaddr_in6 (replicate 12 0 @ a))"
      using v6 by (intro lookup_in_of6 [OF tree _ _ len]) (simp_all add: db0_def)
    also have "\<dots> = Some (outcome_of db (length (file_tree db))
        (walk (node_step (file_tree db)) 0 (address_bits (replicate 12 0 @ a))))"
      using v6 len by (intro lookup_in6 [OF opened_stored_tree(1) [OF db]]) simp_all
    finally show ?thesis
      using v6 Sockaddr_in by (simp add: tree_lookup_def address_bits_append address_bits_zero)
  qed
next
  case (Sockaddr_in6 a)
  then show ?thesis
    using opened_version [OF db] lookup_in6 [OF opened_stored_tree(1) [OF db], of a] sa
    by (auto simp: tree_lookup_def MMDB_lookup_sockaddr_def)
next
  case (Sockaddr_other f)
  then show ?thesis
    using sa opened_version [OF db] by (auto simp: tree_lookup_def MMDB_lookup_sockaddr_def)
qed

section \<open>What the metadata says\<close>

lemma metadata_of_value_ok:
  assumes "metadata_of_value v = Some M"
  shows "fm_node_count M \<noteq> 0" and "fm_record_size M \<in> {24, 28, 32}" and "fm_ip_version M \<in> {4, 6}"
    and "fm_major_version M \<noteq> 0" and "fm_build_epoch M \<noteq> 0"
  using assms by (auto simp: metadata_of_value_def checked_def bind_eq_Some_conv split: if_splits)

lemma metadata_view_numbers:
  assumes "metadata_view m = Some M"
  shows "node_count m = fm_node_count M" and "record_size m = fm_record_size M" and "ip_version m = fm_ip_version M"
    and "binary_format_major_version m = fm_major_version M" and "build_epoch m = fm_build_epoch M"
  using assms by (auto simp: metadata_view_def bind_eq_Some_conv)

lemma record_bytes:
  assumes "rs \<in> {24, 28, 32 :: u16}"
  shows "unat (ucast ((ucast rs * 2) div 8 :: u32) :: u16) = unat rs div 4" and "unat rs div 4 * 4 = unat rs"
  using assms by auto

lemma with_metadata_view: "with_metadata M db db' \<Longrightarrow> metadata_view (db_metadata db') = Some M"
  by (auto simp: with_metadata_def)

lemma with_metadata_ok:
  assumes "with_metadata M db db'" and "metadata_of_value v = Some M"
  shows "metadata_ok (db_metadata db')" and "layout_ok db'" and "metadata_view (db_metadata db') = Some M"
    and "unat (full_record_byte_size db') = unat (fm_record_size M) div 4"
    and "mapping db' = mapping db" and "file_size db' = file_size db" and "file_content db' = file_content db"
proof -
  obtain m where m: "metadata_view m = Some M" and db': "db' = db\<lparr>db_metadata := m,
      full_record_byte_size := ucast ((ucast (fm_record_size M) * 2) div 8 :: u32),
      db_depth := (if fm_ip_version M = 4 then 32 else 128)\<rparr>"
    using assms(1) by (auto simp: with_metadata_def)
  note ok = metadata_of_value_ok [OF assms(2)] and num = metadata_view_numbers [OF m]
  show "metadata_ok (db_metadata db')" using ok num by (simp add: db' metadata_ok_def)
  show "layout_ok db'" using record_bytes [OF ok(2)] num by (simp add: db' layout_ok_def)
  show "unat (full_record_byte_size db') = unat (fm_record_size M) div 4" using record_bytes(1) [OF ok(2)] by (simp add: db')
qed (use assms(1) in \<open>auto simp: with_metadata_def\<close>)

section \<open>The room that the sections need\<close>

definition sections_fit :: "nat \<Rightarrow> file_metadata \<Rightarrow> bool" where
  "sections_fit len M \<longleftrightarrow>
     (let tree = unat (fm_node_count M) * (unat (fm_record_size M) div 4)
      in tree + 16 + 3 \<le> len \<and> len - tree - 16 < 2 ^ 32)"

lemma set_sections_fit:
  assumes M: "with_metadata M db0 db" "metadata_of_value v = Some M"
    and map: "mapped db"
  shows "\<exists>st db'. set_sections db = Some (st, db') \<and> (st = MMDB_SUCCESS \<longleftrightarrow> sections_fit (length (mapping db)) M) \<and>
    (\<exists>d n. db' = db\<lparr>data_section := d, data_section_size := n\<rparr>) \<and> (st = MMDB_SUCCESS \<longrightarrow> sections_ok db')"
proof -
  have mapped: "file_content db = Some 0" "file_size db = int (length (mapping db))"
    using map by (auto simp: mapped_def)
  from set_sections_wp [OF map] obtain st db' where run: "set_sections db = Some (st, db')"
    and db': "\<exists>d n. db' = db\<lparr>data_section := d, data_section_size := n\<rparr>" "st = MMDB_SUCCESS \<longrightarrow> sections_ok db'"
    by (auto simp: wp_iff_ex)
  note ok = with_metadata_ok [OF M]
  let ?n = "unat (node_count (db_metadata db))" and ?b = "unat (full_record_byte_size db)" and ?len = "int (length (mapping db))"
  define t where "t = ?n * ?b"
  define tree where "tree = int t"
  define sz where "sz = ?len - tree - 16"
  have "0 \<le> tree" by (simp add: tree_def)
  have n: "?n \<noteq> 0" using ok(1) by (simp add: metadata_ok_def unat_eq_0)
  have "?b \<le> 8" using layout_record_size [OF ok(2,1)] by auto
  moreover have "?n < 2 ^ 32" by (rule order_less_le_trans [OF unsigned_less]) simp
  ultimately have "?n * ?b \<le> 2 ^ 32 * 8" by (intro mult_le_mono) simp_all
  then have mult: "can_multiply (nat SSIZE_MAX) ?n ?b" using n by (simp add: can_multiply_iff)
  have "uint (node_count (db_metadata db)) * uint (full_record_byte_size db) = tree" by (simp add: tree_def t_def)
  then have run': "\<exists>db'. set_sections db = Some (
      if ?len < 16 \<or> tree > ?len - 16 then MMDB_INVALID_METADATA_ERROR
      else if sz > UINT32_MAX \<or> sz \<le> 0 then MMDB_INVALID_METADATA_ERROR
      else if (word_of_int sz :: u32) < 3 then MMDB_INVALID_DATA_ERROR else MMDB_SUCCESS, db')"
    using mult mapped by (simp add: set_sections_def Let_def sz_def)
  have "uint (word_of_int sz :: u32) = sz" if "0 < sz" "sz \<le> UINT32_MAX"
    using that by (simp add: uint_word_of_int take_bit_int_eq_self)
  then have small: "(word_of_int sz :: u32) < 3 \<longleftrightarrow> sz < 3" if "0 < sz" "sz \<le> UINT32_MAX"
    using that by (simp add: word_less_def)
  have "fm_node_count M = node_count (db_metadata db)" using metadata_view_numbers(1) [OF ok(3)] by simp
  then have "unat (fm_node_count M) * (unat (fm_record_size M) div 4) = t" using ok(4) by (simp add: t_def)
  then have "sections_fit (length (mapping db)) M \<longleftrightarrow> t + 19 \<le> length (mapping db) \<and> length (mapping db) - t - 16 < 2 ^ 32"
    by (simp add: sections_fit_def Let_def add.commute)
  also have "\<dots> \<longleftrightarrow> tree + 19 \<le> ?len \<and> ?len - tree - 16 < 2 ^ 32" unfolding tree_def
    by (rule iffI; elim conjE; intro conjI; simp)
  finally have "sections_fit (length (mapping db)) M \<longleftrightarrow> tree + 19 \<le> ?len \<and> ?len - tree - 16 < 2 ^ 32" .
  then have "st = MMDB_SUCCESS \<longleftrightarrow> sections_fit (length (mapping db)) M"
    using run run' small \<open>0 \<le> tree\<close> by (auto simp: sz_def not_less not_le split: if_splits)
  then show ?thesis using run db' by blast
qed

lemma set_ipv4_start_correct:
  assumes "sections_ok db" and "layout_ok db" and "metadata_ok (db_metadata db)"
  shows "\<exists>start. set_ipv4_start db = Some (MMDB_SUCCESS, db\<lparr>ipv4_start_node := start\<rparr>) \<and>
    start_node_correct (db\<lparr>ipv4_start_node := start\<rparr>)"
proof -
  let ?db = "db\<lparr>ipv4_start_node := \<lparr>start_netmask = 0, node_value = 0\<rparr>\<rparr>"
  have tree: "stored_tree ?db (file_tree db)"
    using file_tree_stored(1) [OF assms] by (simp add: stored_tree_def)
  have same: "file_tree (db\<lparr>ipv4_start_node := start\<rparr>) = file_tree db" for start
    by (simp add: file_tree_def search_tree_size_def)
  obtain w k where "walk (node_step (file_tree db)) 0 (replicate 96 False) = (w, k)" by fastforce
  then show ?thesis
    using find_ipv4_start_node_walk [OF tree] same
    by (auto simp: set_ipv4_start_def Let_def start_node_correct_def)
qed

section \<open>MMDB\_open\<close>

text \<open>The section of the metadata as the decoder sees it.\<close>

definition metadata_db :: "bytes \<Rightarrow> ptr \<Rightarrow> u32 \<Rightarrow> MMDB_s" where
  "metadata_db m p sz = (zero_mmdb m)\<lparr>data_section := Some p, data_section_size := sz\<rparr>"

lemma open_metadata_value:
  assumes map: "mapped db" and find: "find_metadata (mapping db) 0 (int (length (mapping db))) = Some (Some (p, sz))"
    and v: "represents (metadata_db (mapping db) p sz) 0 v n hh" "hh \<le> MAXIMUM_DATA_STRUCTURE_DEPTH"
  shows "implements (plenty h \<and> length (flatten v) \<le> pool_capacity)
    (\<lambda>(db', h') M. with_metadata M (db\<lparr>metadata_section := Some p, metadata_section_size := sz\<rparr>) db')
    (open_metadata stacks (db, h)) (metadata_of_value v \<bind> checked (\<lambda>M. fm_major_version M = 2))"
proof -
  let ?db = "db\<lparr>metadata_section := Some p, metadata_section_size := sz\<rparr>"
  have db: "file_content db = Some 0" "file_size db = int (length (mapping db))" using map by (auto simp: mapped_def)
  have "make_fake_metadata_db ?db = metadata_db (mapping db) p sz"
    by (simp add: make_fake_metadata_db_def metadata_db_def)
  then have "represents (make_fake_metadata_db ?db) 0 v n hh" using v by simp
  note read = read_metadata_value [OF this v(2), of h stacks]
  have "implements (plenty h \<and> length (flatten v) \<le> pool_capacity) (\<lambda>(db', h') M. with_metadata M ?db db')
    (chk (read_metadata stacks (?db, h)) (\<lambda>s. if binary_format_major_version (db_metadata (fst s)) \<noteq> 2
        then Some (MMDB_UNKNOWN_DATABASE_FORMAT_ERROR, s) else Some (MMDB_SUCCESS, s)))
    (metadata_of_value v \<bind> checked (\<lambda>M. fm_major_version M = 2))"
    by (rule implements_chk [OF read])
      (auto simp: implements_def checked_def dest!: with_metadata_view metadata_view_numbers(4))
  then show ?thesis using db find by (simp add: open_metadata_def)
qed

text \<open>The handle that \<open>MMDB_open\<close> returns for a file whose metadata means \<open>M\<close>.\<close>

definition describes :: "file_metadata \<Rightarrow> bytes \<Rightarrow> MMDB_s \<Rightarrow> bool" where
  "describes M m db \<longleftrightarrow> mapping db = m \<and> metadata_view (db_metadata db) = Some M \<and> start_node_correct db"

lemma open_sections_value:
  assumes M: "with_metadata M db0 db" "metadata_of_value v = Some M" and map: "mapped db"
  shows "implements p (\<lambda>(db', h') M. describes M (mapping db) db')
    (chk_with (\<lambda>db. (db, h)) (set_sections db) (\<lambda>db. map_option (\<lambda>(st, db). (st, (db, h))) (set_ipv4_start db)))
    (checked (sections_fit (length (mapping db))) M)"
proof -
  obtain st db' where run: "set_sections db = Some (st, db')"
    and st: "st = MMDB_SUCCESS \<longleftrightarrow> sections_fit (length (mapping db)) M"
    and db': "\<exists>d n. db' = db\<lparr>data_section := d, data_section_size := n\<rparr>" "st = MMDB_SUCCESS \<longrightarrow> sections_ok db'"
    using set_sections_fit [OF M map] by blast
  note ok = with_metadata_ok [OF M]
  show ?thesis
  proof (cases "st = MMDB_SUCCESS")
    case True
    have "layout_ok db'" "metadata_ok (db_metadata db')" using db'(1) ok by (auto simp: layout_ok_def)
    with True obtain start where start: "set_ipv4_start db' = Some (MMDB_SUCCESS, db'\<lparr>ipv4_start_node := start\<rparr>)"
      "start_node_correct (db'\<lparr>ipv4_start_node := start\<rparr>)"
      using set_ipv4_start_correct [of db'] db'(2) by blast
    have "describes M (mapping db) (db'\<lparr>ipv4_start_node := start\<rparr>)" using db'(1) ok start(2) by (auto simp: describes_def)
    then show ?thesis using run start(1) st True by (simp add: implements_def checked_def)
  qed (use run st in \<open>simp add: implements_def checked_def\<close>)
qed

lemma MMDB_open_value:
  assumes os: "os_open os filename \<ge> 0" "os_fstat os = 0" "os_mmap os = Inr m" "st_size os = int (length m)"
      "int (length m) \<le> SSIZE_MAX"
    and find: "find_metadata m 0 (int (length m)) = Some (Some (p, sz))" and sz: "3 \<le> sz"
    and v: "represents (metadata_db m p sz) 0 v n hh" "hh \<le> MAXIMUM_DATA_STRUCTURE_DEPTH"
  shows "implements (plenty h0 \<and> length (flatten v) \<le> pool_capacity) (\<lambda>(db, h) M. describes M m db)
    (MMDB_open os stacks filename flags (db0, h0))
    (metadata_of_value v \<bind> checked (\<lambda>M. fm_major_version M = 2 \<and> sections_fit (length m) M))"
    (is "implements ?p ?R ?open ?spec")
proof -
  obtain copy h1 where dup: "mmdb_strdup filename h0 = (copy, h1)" by fastforce
  obtain r where r: "c_malloc h0 = (r, h1)" "copy = map_option (\<lambda>a. (a, filename)) r"
    using dup by (auto simp: mmdb_strdup_def split: prod.splits)
  note mem = c_malloc_memory [OF r(1)]
  let ?db = "set_flags flags ((clear_handle db0)\<lparr>db_filename := copy\<rparr>)"
  let ?rest = "\<lambda>(db, h). chk_with (\<lambda>db. (db, h)) (set_sections db) (\<lambda>db. map_option (\<lambda>(st, db). (st, (db, h))) (set_ipv4_start db))"
  define body where "body = (if copy = None then Some (MMDB_OUT_OF_MEMORY_ERROR, ((clear_handle db0)\<lparr>db_filename := copy\<rparr>, h1))
    else chk (map_file os (?db, h1)) (\<lambda>s. chk (open_metadata stacks s) ?rest))"
  have body: "implements ?p ?R body ?spec"
  proof (cases r)
    case None
    then show ?thesis using mem r(2) by (simp add: body_def implements_no_memory)
  next
    case (Some a)
    define db1 where "db1 = ?db\<lparr>mapping := m, file_size := int (length m), file_content := Some 0\<rparr>"
    obtain h2 where run: "map_file os (?db, h1) = Some (MMDB_SUCCESS, (db1, h2))" and h2: "same_memory h1 h2"
      using os Some r(2)
      by (simp add: map_file_def set_flags_def db1_def Let_def close_fd_def same_memory_def)
    have map: "mapped db1" "mapping db1 = m" using os(5) by (simp_all add: db1_def mapped_def)
    have "implements (plenty h2 \<and> length (flatten v) \<le> pool_capacity) ?R (chk (open_metadata stacks (db1, h2)) ?rest)
      ((metadata_of_value v \<bind> checked (\<lambda>M. fm_major_version M = 2)) \<bind> checked (sections_fit (length m)))"
    proof (rule implements_chk [OF open_metadata_value [OF map(1), where p = p and sz = sz and v = v and n = n and hh = hh and h = h2 and stacks = stacks]], goal_cases)
      case (4 s M)
      then obtain db2 h3 where s: "s = (db2, h3)"
        and M: "with_metadata M (db1\<lparr>metadata_section := Some p, metadata_section_size := sz\<rparr>) db2" by (cases s) auto
      have spec: "metadata_of_value v = Some M" using 4(1) by (auto simp: checked_def bind_eq_Some_conv split: if_splits)
      note same = with_metadata_ok(5-7) [OF M spec]
      have "mapped db2" using map(1) same by (simp add: mapped_def)
      from open_sections_value [OF M spec this] show ?case using s same map(2) by simp
    qed (use find v map in simp_all)
    moreover have "(metadata_of_value v \<bind> checked (\<lambda>M. fm_major_version M = 2)) \<bind> checked (sections_fit (length m)) = ?spec"
      by (auto simp: checked_def split: bind_splits)
    ultimately show ?thesis
      using run Some r(2) same_memory_plenty [OF mem(1)] same_memory_plenty [OF h2] by (simp add: body_def)
  qed
  then obtain st s where st: "body = Some (st, s)" by (auto simp: implements_def wp_iff_ex)
  have open_eq: "?open = Option.bind (if st \<noteq> MMDB_SUCCESS then free_mmdb_struct s else Some s) (\<lambda>s. Some (st, s))"
    using st dup by (simp add: MMDB_open_def body_def Let_def split del: if_split)
  have "os_ok os" "metadata_at_end os" using os find sz by (simp_all add: os_ok_def metadata_at_end_def metadata_readable_def)
  from MMDB_open_wp [OF this, of stacks filename flags db0 h0] have "?open \<noteq> None" by (rule wp_not_None)
  then obtain s' where "?open = Some (st, s')" and "st = MMDB_SUCCESS \<longrightarrow> s' = s"
    using open_eq by (auto split: if_splits bind_splits)
  then show ?thesis using body st by (auto simp: implements_def)
qed

text \<open>Every handle that \<open>MMDB_open\<close> returns has the right start node.\<close>

lemma set_ipv4_start_only:
  "set_ipv4_start db = Some (st, db') \<Longrightarrow> \<exists>start. db' = db\<lparr>ipv4_start_node := start\<rparr>"
  by (auto simp: set_ipv4_start_def find_ipv4_start_node_def Let_def chk_with_def
      split: if_splits option.splits prod.splits)

lemma opened_start_node:
  assumes "set_ipv4_start db4 = Some (MMDB_SUCCESS, db)" and "opened db"
  shows "start_node_correct db"
proof -
  obtain start where db: "db = db4\<lparr>ipv4_start_node := start\<rparr>" using set_ipv4_start_only [OF assms(1)] by blast
  have "sections_ok db4" "layout_ok db4" "metadata_ok (db_metadata db4)"
    using assms(2) by (simp_all add: db opened_def sections_ok_def search_tree_size_def layout_ok_def)
  from set_ipv4_start_correct [OF this] show ?thesis using assms(1) by auto
qed

lemma MMDB_open_success:
  assumes os: "os_ok os" "metadata_at_end os"
    and success: "MMDB_open os stacks filename flags (db0, h0) = Some (MMDB_SUCCESS, (db, h))"
  shows "opened db" and "start_node_correct db"
proof -
  show db: "opened db" using MMDB_open_wp [OF os, of stacks filename flags db0 h0] success by simp
  obtain copy h1 where dup: "mmdb_strdup filename h0 = (copy, h1)" by fastforce
  obtain st s where body: "(if copy = None then Some (MMDB_OUT_OF_MEMORY_ERROR, ((clear_handle db0)\<lparr>db_filename := copy\<rparr>, h1))
      else chk (map_file os (set_flags flags ((clear_handle db0)\<lparr>db_filename := copy\<rparr>), h1)) (\<lambda>s.
        chk (open_metadata stacks s) (\<lambda>(db, h).
        chk_with (\<lambda>db. (db, h)) (set_sections db) (\<lambda>db. map_option (\<lambda>(st, db). (st, (db, h))) (set_ipv4_start db))))) =
      Some (st, s)" and last: "Option.bind (if st \<noteq> MMDB_SUCCESS then free_mmdb_struct s else Some s) (\<lambda>s. Some (st, s)) =
      Some (MMDB_SUCCESS, (db, h))"
    using success dup by (auto simp: MMDB_open_def Let_def bind_eq_Some_conv split del: if_split)
  have "st = MMDB_SUCCESS" "s = (db, h)" using last by (auto split: if_splits bind_splits)
  then obtain db4 where "set_ipv4_start db4 = Some (MMDB_SUCCESS, db)"
    using body by (auto simp: chk_with_def split: option.splits prod.splits if_splits)
  then show "start_node_correct db" using db by (rule opened_start_node)
qed

end
