(* ===== verification/Encoding.thy ===== *)
theory Encoding
  imports Dump
begin

text \<open>
  A writer for the data format: every value whose sizes fit the size fields has an encoding, and a
  section that holds the encoding stores the value. It shows that the specification \<open>represents\<close> is
  met by every value, and it gives the round trip of writing and reading.
\<close>

section \<open>Writing a value\<close>

text \<open>Integers are written without leading zero bytes.\<close>

definition short_bytes :: "nat \<Rightarrow> nat \<Rightarrow> bytes" where
  "short_bytes k n = dropWhile (\<lambda>b. b = 0) (be_bytes k n)"

definition entry_bytes :: "nat \<Rightarrow> bytes \<Rightarrow> bytes" where
  "entry_bytes ty payload = header_bytes ty (length payload) @ payload"

fun encode_value :: "mmdb_value \<Rightarrow> bytes" where
  "encode_value (V_string s) = entry_bytes 2 s"
| "encode_value (V_double w) = entry_bytes 3 (be_bytes 8 (unat w))"
| "encode_value (V_bytes bs) = entry_bytes 4 bs"
| "encode_value (V_uint16 w) = entry_bytes 5 (short_bytes 2 (unat w))"
| "encode_value (V_uint32 w) = entry_bytes 6 (short_bytes 4 (unat w))"
| "encode_value (V_int32 w) = entry_bytes 8 (short_bytes 4 (unat w))"
| "encode_value (V_uint64 w) = entry_bytes 9 (short_bytes 8 (unat w))"
| "encode_value (V_uint128 w) = entry_bytes 10 (short_bytes 16 (unat w))"
| "encode_value (V_float w) = entry_bytes 15 (be_bytes 4 (unat w))"
| "encode_value (V_bool b) = header_bytes 14 (if b then 1 else 0)"
| "encode_value (V_array vs) = header_bytes 11 (length vs) @ concat (map encode_value vs)"
| "encode_value (V_map kvs) =
     header_bytes 7 (length kvs) @ concat (map (\<lambda>(k, v). entry_bytes 2 k @ encode_value v) kvs)"

text \<open>The sizes fit the longest size field.\<close>

fun encodable :: "mmdb_value \<Rightarrow> bool" where
  "encodable (V_string s) \<longleftrightarrow> length s < size_limit"
| "encodable (V_bytes bs) \<longleftrightarrow> length bs < size_limit"
| "encodable (V_array vs) \<longleftrightarrow> length vs < size_limit \<and> (\<forall>v \<in> set vs. encodable v)"
| "encodable (V_map kvs) \<longleftrightarrow>
     length kvs < size_limit \<and> (\<forall>(k, v) \<in> set kvs. length k < size_limit \<and> encodable v)"
| "encodable _ \<longleftrightarrow> True"

section \<open>The section stores the value\<close>

lemma be_dropWhile: "be (dropWhile (\<lambda>b. b = 0) bs) = be bs"
  by (induction bs) (simp_all add: be_Cons)

lemma be_short_bytes:
  assumes "n < 256 ^ k"
  shows "be (short_bytes k n) = n" and "length (short_bytes k n) \<le> k"
  using assms be_be_bytes [of n k] length_dropWhile_le [of "\<lambda>b. b = 0" "be_bytes k n"]
  by (simp_all add: short_bytes_def be_dropWhile)

lemma unat_bound: "unat (w :: 'a::len word) < 2 ^ LENGTH('a)"
  by (rule unsigned_less)

lemma stored_scalar:
  assumes "section_bytes db a (entry_bytes ty bs)" and "scalar_of ty bs = Some v" and "length bs < size_limit"
  shows "stored db a v (a + length (header_bytes ty (length bs))) (a + length (entry_bytes ty bs)) (Suc h)"
proof -
  have "entry_header db a ty (length bs) (a + length (header_bytes ty (length bs)))"
    and "section_bytes db (a + length (header_bytes ty (length bs))) bs"
    using assms section_bytes_append [of db a "header_bytes ty (length bs)" bs]
    by (simp_all add: entry_bytes_def entry_header_def)
  from stored_represents_represents_seq_represents_pairs.scalar [OF this assms(2)]
  show ?thesis by (simp add: entry_bytes_def add.assoc)
qed

lemma scalar_of_encoding:
  "scalar_of 2 s = Some (V_string s)"
  "scalar_of 3 (be_bytes 8 (unat d)) = Some (V_double d)"
  "scalar_of 4 s = Some (V_bytes s)"
  "scalar_of 5 (short_bytes 2 (unat w16)) = Some (V_uint16 w16)"
  "scalar_of 6 (short_bytes 4 (unat w32)) = Some (V_uint32 w32)"
  "scalar_of 8 (short_bytes 4 (unat i32)) = Some (V_int32 i32)"
  "scalar_of 9 (short_bytes 8 (unat w64)) = Some (V_uint64 w64)"
  "scalar_of 10 (short_bytes 16 (unat w128)) = Some (V_uint128 w128)"
  "scalar_of 15 (be_bytes 4 (unat f)) = Some (V_float f)"
  using be_short_bytes [of "unat w16" 2] unat_bound [of w16] be_short_bytes [of "unat w32" 4] unat_bound [of w32]
    be_short_bytes [of "unat i32" 4] unat_bound [of i32] be_short_bytes [of "unat w64" 8] unat_bound [of w64]
    be_short_bytes [of "unat w128" 16] unat_bound [of w128] be_be_bytes [of "unat d" 8] unat_bound [of d]
    be_be_bytes [of "unat f" 4] unat_bound [of f]
  by simp_all

lemma represents_scalar:
  assumes "section_bytes db a (entry_bytes ty bs)" and "scalar_of ty bs = Some v" and "length bs < size_limit" and "0 < h"
  shows "represents db a v (a + length (entry_bytes ty bs)) h"
proof -
  obtain h' where "h = Suc h'" using assms(4) by (cases h) auto
  then show ?thesis
    using stored_scalar [OF assms(1-3)] by (blast intro: stored_represents_represents_seq_represents_pairs.direct)
qed

lemma short_bytes_limit: "k \<le> 16 \<Longrightarrow> length (short_bytes k n) < size_limit"
  using length_dropWhile_le [of "\<lambda>b. b = 0" "be_bytes k n"] by (simp add: short_bytes_def size_limit_def)

text \<open>The encodings of members in a row.\<close>

lemma represents_seq_encoding:
  assumes "\<And>v a h. v \<in> set vs \<Longrightarrow> section_bytes db a (encode_value v) \<Longrightarrow> nesting v \<le> h \<Longrightarrow>
      represents db a v (a + length (encode_value v)) h"
    and "section_bytes db a (concat (map encode_value vs))" and "\<forall>v \<in> set vs. nesting v \<le> h"
  shows "represents_seq db a vs (a + length (concat (map encode_value vs))) h"
  using assms
proof (induction vs arbitrary: a)
  case (Cons v vs)
  have bytes: "section_bytes db a (encode_value v)" "section_bytes db (a + length (encode_value v)) (concat (map encode_value vs))"
    using section_bytes_append Cons.prems(2) by auto
  have "represents db a v (a + length (encode_value v)) h" using Cons.prems(1) [OF _ bytes(1)] Cons.prems(3) by simp
  moreover have "represents_seq db (a + length (encode_value v)) vs
      (a + length (encode_value v) + length (concat (map encode_value vs))) h"
    using Cons.prems bytes(2) by (intro Cons.IH) auto
  ultimately show ?case
    using stored_represents_represents_seq_represents_pairs.seq_Cons by (fastforce simp: add.assoc)
qed (simp add: stored_represents_represents_seq_represents_pairs.seq_Nil)

lemma represents_pairs_encoding:
  assumes "\<And>k v a h. (k, v) \<in> set kvs \<Longrightarrow> section_bytes db a (encode_value v) \<Longrightarrow> nesting v \<le> h \<Longrightarrow>
      represents db a v (a + length (encode_value v)) h"
    and "section_bytes db a (concat (map (\<lambda>(k, v). entry_bytes 2 k @ encode_value v) kvs))"
    and "\<forall>(k, v) \<in> set kvs. nesting v \<le> h \<and> length k < size_limit" and "0 < h"
  shows "represents_pairs db a kvs (a + length (concat (map (\<lambda>(k, v). entry_bytes 2 k @ encode_value v) kvs))) h"
  using assms
proof (induction kvs arbitrary: a)
  case (Cons kv kvs)
  obtain k v where kv: "kv = (k, v)" by fastforce
  let ?rest = "concat (map (\<lambda>(k, v). entry_bytes 2 k @ encode_value v) kvs)"
  let ?b = "a + length (entry_bytes 2 k)"
  have "section_bytes db a (entry_bytes 2 k @ encode_value v @ ?rest)" using Cons.prems(2) kv by simp
  then have bytes: "section_bytes db a (entry_bytes 2 k)" "section_bytes db ?b (encode_value v)"
    "section_bytes db (?b + length (encode_value v)) ?rest"
    using section_bytes_append by blast+
  obtain h' where h: "h = Suc h'" using Cons.prems(4) by (cases h) auto
  have "stored db a (V_string k) (a + length (header_bytes 2 (length k))) ?b h"
    using stored_scalar [OF bytes(1) scalar_of_encoding(1)] Cons.prems(3) kv h by simp
  then have "represents db a (V_string k) ?b h" by (rule stored_represents_represents_seq_represents_pairs.direct)
  moreover have "represents db ?b v (?b + length (encode_value v)) h"
    using Cons.prems(1) [of k v, OF _ bytes(2)] Cons.prems(3) kv by simp
  moreover have "represents_pairs db (?b + length (encode_value v)) kvs (?b + length (encode_value v) + length ?rest) h"
    using Cons.prems bytes(3) by (intro Cons.IH) auto
  ultimately have "represents_pairs db a ((k, v) # kvs) (?b + length (encode_value v) + length ?rest) h"
    by (rule stored_represents_represents_seq_represents_pairs.pairs_Cons)
  then show ?case using kv by (simp add: add.assoc)
qed (simp add: stored_represents_represents_seq_represents_pairs.pairs_Nil)

lemma represents_encoding:
  "section_bytes db a (encode_value v) \<Longrightarrow> encodable v \<Longrightarrow> nesting v \<le> h \<Longrightarrow>
     represents db a v (a + length (encode_value v)) h"
proof (induction v arbitrary: a h)
  case (V_bool b)
  let ?n = "if b then 1 else 0 :: nat"
  have "entry_header db a 14 ?n (a + length (header_bytes 14 ?n))"
    using V_bool by (simp add: entry_header_def size_limit_def)
  from stored_represents_represents_seq_represents_pairs.boolean [OF this]
  show ?case using V_bool by (cases h) (auto intro: stored_represents_represents_seq_represents_pairs.direct split: if_splits)
next
  case (V_array vs)
  obtain h' where h: "h = Suc h'" using V_array.prems(3) by (cases h) auto
  let ?hd = "header_bytes 11 (length vs)" and ?rest = "concat (map encode_value vs)"
  have bytes: "section_bytes db a ?hd" "section_bytes db (a + length ?hd) ?rest"
    using V_array.prems(1) section_bytes_append by auto
  have "entry_header db a 11 (length vs) (a + length ?hd)"
    using V_array.prems(2) bytes(1) by (simp add: entry_header_def)
  moreover have "nesting v \<le> h'" if "v \<in> set vs" for v
    using nesting_element [OF that] V_array.prems(3) h by simp
  then have "represents_seq db (a + length ?hd) vs (a + length ?hd + length ?rest) h'"
    using V_array.IH V_array.prems(2) bytes(2) by (intro represents_seq_encoding) auto
  ultimately have "stored db a (V_array vs) (a + length ?hd) (a + length ?hd + length ?rest) h"
    unfolding h by (rule stored_represents_represents_seq_represents_pairs.array)
  then show ?case by (simp add: add.assoc stored_represents_represents_seq_represents_pairs.direct)
next
  case (V_map kvs)
  obtain h' where h: "h = Suc h'" using V_map.prems(3) by (cases h) auto
  let ?hd = "header_bytes 7 (length kvs)" and ?rest = "concat (map (\<lambda>(k, v). entry_bytes 2 k @ encode_value v) kvs)"
  have bytes: "section_bytes db a ?hd" "section_bytes db (a + length ?hd) ?rest"
    using V_map.prems(1) section_bytes_append by auto
  have "entry_header db a 7 (length kvs) (a + length ?hd)"
    using V_map.prems(2) bytes(1) by (simp add: entry_header_def)
  moreover have nest: "nesting v \<le> h'" if "(k, v) \<in> set kvs" for k v
    using nesting_member [OF that] V_map.prems(3) h by simp
  have "represents_pairs db (a + length ?hd) kvs (a + length ?hd + length ?rest) h'"
  proof (cases "kvs = []")
    case False
    then obtain k v where kv: "(k, v) \<in> set kvs" by (cases kvs) auto
    have "0 < nesting v" by (cases v) auto
    then have "0 < h'" using nest [OF kv] by simp
    then show ?thesis
      using V_map.IH V_map.prems(2) bytes(2) nest by (intro represents_pairs_encoding) fastforce+
  qed (simp add: stored_represents_represents_seq_represents_pairs.pairs_Nil)
  ultimately have "stored db a (V_map kvs) (a + length ?hd) (a + length ?hd + length ?rest) h"
    unfolding h by (intro stored_represents_represents_seq_represents_pairs.map)
  then show ?case by (simp add: add.assoc stored_represents_represents_seq_represents_pairs.direct)
qed (auto intro!: represents_scalar scalar_of_encoding short_bytes_limit simp: size_limit_def simp del: scalar_of.simps)

section \<open>The labels determine the value\<close>

lemma concat_flatten_inj:
  assumes "\<And>v w xs ys. v \<in> set vs \<Longrightarrow> flatten v @ xs = flatten w @ ys \<Longrightarrow> v = w \<and> xs = ys"
    and "concat (map flatten vs) @ xs = concat (map flatten ws) @ ys" and "length vs = length ws"
  shows "vs = ws \<and> xs = ys"
  using assms
proof (induction vs arbitrary: ws xs ys)
  case (Cons v vs)
  then obtain w ws' where ws: "ws = w # ws'" by (cases ws) auto
  have "v = w \<and> concat (map flatten vs) @ xs = concat (map flatten ws') @ ys"
    using Cons.prems(1) [of v "concat (map flatten vs) @ xs" w "concat (map flatten ws') @ ys"] Cons.prems(2) ws by simp
  then show ?case using Cons.IH [of xs ws' ys] Cons.prems(1,3) ws by auto
qed simp

lemma concat_pairs_inj:
  assumes "\<And>k v w xs ys. (k, v) \<in> set kvs \<Longrightarrow> flatten v @ xs = flatten w @ ys \<Longrightarrow> v = w \<and> xs = ys"
    and "concat (map (\<lambda>(k, v). H_scalar (V_string k) # flatten v) kvs) @ xs =
      concat (map (\<lambda>(k, v). H_scalar (V_string k) # flatten v) kws) @ ys" and "length kvs = length kws"
  shows "kvs = kws \<and> xs = ys"
  using assms
proof (induction kvs arbitrary: kws xs ys)
  case (Cons kv kvs)
  let ?flat = "\<lambda>kvs. concat (map (\<lambda>(k, v). H_scalar (V_string k) # flatten v) kvs)"
  obtain k v where kv: "kv = (k, v)" by fastforce
  obtain k' w kws' where kws: "kws = (k', w) # kws'" using Cons.prems(3) by (cases kws) auto
  have "k = k'" "flatten v @ ?flat kvs @ xs = flatten w @ ?flat kws' @ ys" using Cons.prems(2) kv kws by auto
  then have "v = w \<and> ?flat kvs @ xs = ?flat kws' @ ys"
    using Cons.prems(1) [of k v "?flat kvs @ xs" w "?flat kws' @ ys"] kv by simp
  moreover have "kvs = kws' \<and> xs = ys"
  proof (rule Cons.IH)
    show "v = w \<and> xs = ys" if "(k, v) \<in> set kvs" "flatten v @ xs = flatten w @ ys" for k v w xs ys
      using Cons.prems(1) [of k v xs w ys] that by simp
  qed (use calculation Cons.prems(3) kws in simp_all)
  ultimately show ?case using kv kws \<open>k = k'\<close> by simp
qed simp

lemma flatten_append_inj: "flatten v @ xs = flatten w @ ys \<Longrightarrow> v = w \<and> xs = ys"
proof (induction v arbitrary: w xs ys)
  case (V_array vs)
  then obtain ws where "w = V_array ws" "length vs = length ws" by (cases w) auto
  then show ?case using concat_flatten_inj [of vs xs ws ys] V_array by simp
next
  case (V_map kvs)
  then obtain kws where "w = V_map kws" "length kvs = length kws" by (cases w) auto
  then show ?case using concat_pairs_inj [of kvs xs kws ys] V_map by fastforce
qed (case_tac [!] w, auto)

lemma flatten_inj: "flatten v = flatten w \<Longrightarrow> v = w"
  using flatten_append_inj [of v "[]" w "[]"] by simp

end
