(* ===== verification/Pool_Test.thy ===== *)
theory Pool_Test
  imports Data_Pool "HOL-Library.Log_Nat"
begin

text \<open>
  \<open>src/t/data-pool-t.c\<close>, the test program of the data pool. An \<open>assert\<close> that fails, and an access
  through a null pointer, are \<^term>\<open>None\<close>; \<open>ok\<close> and \<open>cmp_ok\<close> of libtap record a boolean, and the program
  goes on. The test tries its list check on some sizes and counts; here it is shown to pass for
  all of them. All pools get the same answers of \<open>calloc\<close>.
\<close>

section \<open>The list check\<close>

definition c_assert :: "bool \<Rightarrow> unit option" where
  "c_assert b = (if b then Some () else None)"

lemma c_assert_bind [simp]: "Option.bind (c_assert b) f = (if b then f () else None)"
  by (simp add: c_assert_def)

text \<open>\<open>entry->entry_data.offset = offset\<close>\<close>

definition set_offset :: "MMDB_data_pool_s \<Rightarrow> elem_ptr \<Rightarrow> nat \<Rightarrow> MMDB_data_pool_s option" where
  "set_offset pool p offset = do {
     e \<leftarrow> pool_entry pool p;
     pool_set_entry pool p (e\<lparr>ed_offset := word_of_nat offset\<rparr>) }"

text \<open>The loop of \<open>check_block_count\<close>; on a cyclic list it would not return.\<close>

partial_function (option) count_blocks ::
  "MMDB_data_pool_s \<Rightarrow> elem_ptr option \<Rightarrow> nat \<Rightarrow> nat \<Rightarrow> (nat \<times> nat) option" where
  "count_blocks pool element got_blocks got_elements =
    (case element of
       None \<Rightarrow> Some (got_blocks, got_elements)
     | Some p \<Rightarrow> do {
         el \<leftarrow> pool_get pool p;
         count_blocks pool (next_elem el) (if elem_pool el then got_blocks + 1 else got_blocks)
           (got_elements + 1) })"

declare count_blocks.simps [code]

text \<open>
  The expected number of blocks, \<open>(size_t)log2(ceil(n / s)) + 1\<close>. The doubles are computed exactly:
  with at most 32 blocks the quotient is below \<open>2 ^ 32\<close>, far from the precision of a double.
\<close>

definition expected_block_count :: "nat \<Rightarrow> nat \<Rightarrow> nat" where
  "expected_block_count n s = (let a = (n + s - 1) div s in (floorlog 2 a - 1) + 1)"

lemma ceiling_quotient:
  assumes "0 < s"
  shows "\<lceil>real n / real s\<rceil> = int ((n + s - 1) div s)"
proof -
  let ?q = "(n + s - 1) div s"
  have up: "s * ?q \<le> n + s - 1" by (rule times_div_less_eq_dividend)
  have lo: "n + s - 1 < s * Suc ?q" using dividend_less_times_div [OF assms, of "n + s - 1"] by simp
  have "n \<le> s * ?q" using lo assms by simp
  then have "real n \<le> real s * real ?q" by (metis of_nat_le_iff of_nat_mult)
  moreover have "s * ?q < n + s" using up assms by linarith
  then have "real s * real ?q < real n + real s" by (metis of_nat_add of_nat_less_iff of_nat_mult)
  ultimately show ?thesis
    using assms by (intro ceiling_unique) (simp_all add: field_simps)
qed

lemma expected_block_count_real:
  assumes "0 < n" and "0 < s"
  shows "expected_block_count n s = nat \<lfloor>log 2 (real_of_int \<lceil>real n / real s\<rceil>)\<rfloor> + 1"
proof -
  have "s \<le> n + s - 1" using assms(1) by simp
  then have "0 < (n + s - 1) div s" using assms(2) by (simp add: div_greater_zero_iff)
  then show ?thesis using assms by (simp add: expected_block_count_def Let_def ceiling_quotient floorlog_def)
qed

definition check_block_count :: "MMDB_data_pool_s \<Rightarrow> elem_ptr option \<Rightarrow> nat \<Rightarrow> unit option" where
  "check_block_count pool list initial_size = do {
     (got_blocks, got_elements) \<leftarrow> count_blocks pool list 0 0;
     c_assert (got_blocks = expected_block_count got_elements initial_size) }"

text \<open>
  \<open>create_and_check_list\<close>: \<open>array_ok\<close> tells whether the array of pointers can be allocated. The result
  are the blocks that are freed at the end.
\<close>

definition fill_pool ::
  "calloc_env \<Rightarrow> nat \<Rightarrow> MMDB_data_pool_s \<Rightarrow> (MMDB_data_pool_s \<times> elem_ptr option list) option" where
  "fill_pool calloc_ok element_count pool =
     for_each [0..<element_count] (\<lambda>i (pool, entry_array).
       case data_pool_alloc calloc_ok pool of (entry, pool) \<Rightarrow> do {
         c_assert (entry \<noteq> None);
         p \<leftarrow> entry;
         pool \<leftarrow> set_offset pool p i;
         Some (pool, entry_array[i := entry]) }) (pool, replicate element_count None)"

definition check_element ::
  "MMDB_data_pool_s \<Rightarrow> elem_ptr option list \<Rightarrow> nat \<Rightarrow> elem_ptr option \<Rightarrow> elem_ptr option option" where
  "check_element pool entry_array i element = do {
     p \<leftarrow> element;
     el \<leftarrow> pool_get pool p;
     c_assert (ed_offset (entry_data el) = word_of_nat i);
     c_assert (element = entry_array ! i);
     Some (next_elem el) }"

definition create_and_check_list :: "calloc_env \<Rightarrow> bool \<Rightarrow> nat \<Rightarrow> nat \<Rightarrow> nat list option" where
  "create_and_check_list calloc_ok array_ok initial_size element_count = do {
     pool \<leftarrow> data_pool_new calloc_ok initial_size;
     c_assert (pool_used pool = 0);
     c_assert array_ok;
     (pool, entry_array) \<leftarrow> fill_pool calloc_ok element_count pool;
     (list, pool) \<leftarrow> data_pool_to_list pool;
     if element_count = 0 then do {
       c_assert (list = None);
       Some (data_pool_destroy pool) }
     else do {
       c_assert (list \<noteq> None);
       element \<leftarrow> for_each [0..<element_count] (check_element pool entry_array) list;
       c_assert (element = None);
       check_block_count pool list initial_size;
       Some (data_pool_destroy pool) } }"

section \<open>The flag of the first element of a block\<close>

text \<open>\<open>MMDB_free_entry_data_list\<close> and the test rely on it: the first element of every block knows the pool.\<close>

definition pool_flags :: "MMDB_data_pool_s \<Rightarrow> bool list option list" where
  "pool_flags pool = map (map_option (map elem_pool)) (pool_blocks pool)"

definition flags_ok :: "nat \<Rightarrow> MMDB_data_pool_s \<Rightarrow> bool" where
  "flags_ok s0 pool \<longleftrightarrow>
     (\<forall>b \<le> pool_index pool. pool_flags pool ! b = Some (True # replicate (s0 * 2 ^ b - 1) False))"

definition frame :: "MMDB_data_pool_s \<Rightarrow> bool list option list \<times> nat" where
  "frame pool = (pool_flags pool, pool_index pool)"

lemma flags_ok_frame: "frame pool' = frame pool \<Longrightarrow> flags_ok s0 pool' = flags_ok s0 pool"
  by (simp add: frame_def flags_ok_def)

lemma pool_put_frame:
  assumes "pool_get pool p = Some el0" and "elem_pool el = elem_pool el0" and "pool_put pool p el = Some pool'"
  shows "frame pool' = frame pool"
proof -
  obtain bl where b: "fst p < length (pool_blocks pool)" "pool_blocks pool ! fst p = Some bl"
    "snd p < length bl" "bl ! snd p = el0"
    using assms(1) by (auto simp: pool_get_def split: if_splits option.splits)
  then have p': "pool' = pool\<lparr>pool_blocks := (pool_blocks pool)[fst p := Some (bl[snd p := el])]\<rparr>"
    using assms(3) by (simp add: pool_put_def)
  have "(map elem_pool bl)[snd p := map elem_pool bl ! snd p] = map elem_pool bl" by (rule list_update_id)
  then have "map elem_pool (bl[snd p := el]) = map elem_pool bl"
    using b assms(2) by (simp add: map_update)
  then have "pool_flags pool' = pool_flags pool"
    using b list_update_id [of "pool_flags pool" "fst p"] by (simp add: p' pool_flags_def map_update)
  then show ?thesis by (simp add: frame_def p')
qed

lemma pool_set_entry_frame: "pool_set_entry pool p e = Some pool' \<Longrightarrow> frame pool' = frame pool"
proof -
  assume "pool_set_entry pool p e = Some pool'"
  then obtain el where "pool_get pool p = Some el" "pool_put pool p (el\<lparr>entry_data := e\<rparr>) = Some pool'"
    by (auto simp: pool_set_entry_def bind_eq_Some_conv)
  then show "frame pool' = frame pool" by (intro pool_put_frame) simp_all
qed

lemma set_next_frame: "set_next p target pool = Some pool' \<Longrightarrow> frame pool' = frame pool"
proof -
  assume "set_next p target pool = Some pool'"
  then obtain el where "pool_get pool p = Some el" "pool_put pool p (el\<lparr>next_elem := target\<rparr>) = Some pool'"
    by (auto simp: set_next_def bind_eq_Some_conv)
  then show "frame pool' = frame pool" by (intro pool_put_frame) simp_all
qed

lemma link_block_frame: "link_block i pool = Some pool' \<Longrightarrow> frame pool' = frame pool"
  by (auto simp: link_block_def Let_def bind_eq_Some_conv split: if_splits
      dest!: for_each_keeps [where q = frame, rotated] set_next_frame)

lemma data_pool_to_list_frame: "data_pool_to_list pool = Some (list, pool') \<Longrightarrow> frame pool' = frame pool"
  by (auto simp: data_pool_to_list_def bind_eq_Some_conv split: if_splits
      dest!: for_each_keeps [where q = frame, rotated] link_block_frame)

lemma map_elem_pool_new: "0 < n \<Longrightarrow>
    map elem_pool (set_elem_pool (replicate n zero_elem)) = True # replicate (n - 1) False"
  by (cases n) (simp_all add: set_elem_pool_def zero_elem_def)

lemma data_pool_new_flags: "data_pool_new calloc_ok s0 = Some pool \<Longrightarrow> flags_ok s0 pool"
  by (auto simp: data_pool_new_def flags_ok_def pool_flags_def map_elem_pool_new can_multiply_iff split: if_splits)

lemma data_pool_alloc_flags:
  assumes flags: "flags_ok s0 pool" and shape: "pool_shape s0 pool"
    and alloc: "data_pool_alloc calloc_ok pool = (Some r, pool')"
  shows "flags_ok s0 pool'"
proof (cases "pool_used pool < pool_size pool")
  case True
  then show ?thesis using alloc flags by (auto simp: data_pool_alloc_def flags_ok_def pool_flags_def)
next
  case False
  let ?n = "pool_index pool + 1" and ?sz = "pool_size pool * 2"
  have sz: "?sz < 2 ^ 64" if "can_multiply SIZE_MAX (pool_size pool) 2"
    using that by (simp add: can_multiply_iff)
  from False alloc have new: "?n < DATA_POOL_NUM_BLOCKS"
    and p': "pool' = pool\<lparr>pool_blocks := (pool_blocks pool)[?n := Some (set_elem_pool (replicate ?sz zero_elem))],
      pool_index := ?n, pool_block := Some ?n, pool_size := ?sz, pool_sizes := (pool_sizes pool)[?n := ?sz],
      pool_used := 1\<rparr>"
    using sz shape
    by (auto simp: data_pool_alloc_def Let_def can_multiply_iff pool_shape_def split: if_splits)
  have "?sz = s0 * 2 ^ ?n" "0 < ?sz" using shape by (simp_all add: pool_shape_def)
  then show ?thesis
    using flags new shape
    by (auto simp: flags_ok_def pool_flags_def p' map_update nth_list_update map_elem_pool_new pool_shape_def le_Suc_eq)
qed

lemma elem_flag:
  assumes flags: "flags_ok s0 pool" and shape: "pool_shape s0 pool" and p: "elem_valid s0 pool p"
    and get: "pool_get pool p = Some el"
  shows "elem_pool el \<longleftrightarrow> snd p = 0"
proof -
  have b: "fst p \<le> pool_index pool" using elem_valid_bound [OF shape p] by simp
  obtain bl where bl: "fst p < length (pool_blocks pool)" "pool_blocks pool ! fst p = Some bl"
    "snd p < length bl" "bl ! snd p = el"
    using get by (auto simp: pool_get_def split: if_splits option.splits)
  have "pool_flags pool ! fst p = Some (True # replicate (s0 * 2 ^ fst p - 1) False)"
    using flags b unfolding flags_ok_def by blast
  moreover have "pool_flags pool ! fst p = Some (map elem_pool bl)" using bl by (simp add: pool_flags_def)
  ultimately have "map elem_pool bl = True # replicate (s0 * 2 ^ fst p - 1) False" by simp
  then have "elem_pool (bl ! snd p) = (True # replicate (s0 * 2 ^ fst p - 1) False) ! snd p" and
    "length bl = Suc (s0 * 2 ^ fst p - 1)"
    using bl(3) by (metis nth_map, metis length_map length_Cons length_replicate)
  then show ?thesis using bl by (cases "snd p") auto
qed

section \<open>Filling the pool\<close>

text \<open>There is room for \<open>s0 * (2 ^ m - 1)\<close> elements when the block number \<open>m - 1\<close> can be allocated.\<close>

lemma alloc_has_room:
  assumes inv: "pool_inv s0 pool" and ok: "\<forall>k. calloc_ok k"
    and m: "m \<le> DATA_POOL_NUM_BLOCKS" "s0 * 2 ^ m * 32 \<le> SIZE_MAX"
    and room: "length (pool_items s0 pool) < s0 * (2 ^ m - 1)"
  obtains r pool' where "data_pool_alloc calloc_ok pool = (Some r, pool')"
proof -
  have shape: "pool_shape s0 pool" using inv by (simp add: pool_inv_def)
  let ?i = "pool_index pool"
  have sh: "pool_block pool = Some ?i" "pool_size pool = s0 * 2 ^ ?i" "pool_used pool \<le> pool_size pool" "0 < s0"
    using shape by (auto simp: pool_shape_def)
  show ?thesis
  proof (cases "pool_used pool < pool_size pool")
    case True
    then show ?thesis using that sh by (simp add: data_pool_alloc_def)
  next
    case False
    then have "elem_pos s0 (Suc ?i, 0) < s0 * (2 ^ m - 1)"
      using room sh elem_pos_next [of s0 ?i] by (simp add: length_pool_items [OF shape] pool_count_def)
    then have "(2 :: nat) ^ Suc ?i - 1 < 2 ^ m - 1" by (simp add: elem_pos_def)
    then have "(2 :: nat) ^ Suc ?i < 2 ^ m" by linarith
    then have i: "Suc ?i < m" by (rule power_less_imp_less_exp [rotated]) simp
    then have "(2 :: nat) ^ Suc (Suc ?i) \<le> 2 ^ m" by (intro power_increasing) auto
    then have "s0 * 2 ^ Suc (Suc ?i) \<le> s0 * 2 ^ m" by (rule mult_le_mono2)
    then have "s0 * 2 ^ Suc (Suc ?i) * 32 \<le> SIZE_MAX" using m(2) by (meson le_trans mult_le_mono1)
    then have "s0 * 2 ^ ?i * 2 * 64 \<le> SIZE_MAX" by simp
    then show ?thesis
      using that False ok i m(1) sh by (simp add: data_pool_alloc_def Let_def can_multiply_iff)
  qed
qed

definition numbered :: "nat \<Rightarrow> MMDB_entry_data_s" where
  "numbered i = zero_entry\<lparr>ed_offset := word_of_nat i\<rparr>"

text \<open>After \<open>i\<close> steps: the entries are numbered, and the pointers are those of their places.\<close>

definition filled :: "nat \<Rightarrow> nat \<Rightarrow> nat \<Rightarrow> MMDB_data_pool_s \<times> elem_ptr option list \<Rightarrow> bool" where
  "filled s0 n i s \<longleftrightarrow>
     pool_inv s0 (fst s) \<and> flags_ok s0 (fst s) \<and> pool_items s0 (fst s) = map numbered [0..<i] \<and> length (snd s) = n \<and>
     (\<forall>j < i. \<exists>q. snd s ! j = Some q \<and> elem_valid s0 (fst s) q \<and> elem_pos s0 q = j)"

lemma fill_step:
  assumes filled: "filled s0 n i (pool, arr)" and i: "i < n" and ok: "\<forall>k. calloc_ok k"
    and m: "m \<le> DATA_POOL_NUM_BLOCKS" "s0 * 2 ^ m * 32 \<le> SIZE_MAX" "n \<le> s0 * (2 ^ m - 1)"
  obtains q pool1 pool2 where "data_pool_alloc calloc_ok pool = (Some q, pool1)"
    and "set_offset pool1 q i = Some pool2" and "filled s0 n (Suc i) (pool2, arr[i := Some q])"
proof -
  have inv: "pool_inv s0 pool" and flags: "flags_ok s0 pool" and items: "pool_items s0 pool = map numbered [0..<i]"
    and len: "length arr = n" and arr: "\<forall>j < i. \<exists>q. arr ! j = Some q \<and> elem_valid s0 pool q \<and> elem_pos s0 q = j"
    using filled by (simp_all add: filled_def del: split_paired_Ex)
  obtain q pool1 where alloc: "data_pool_alloc calloc_ok pool = (Some q, pool1)"
    using alloc_has_room [OF inv ok m(1,2)] items i m(3) by auto
  have pool1: "pool_inv s0 pool1" "pool_items s0 pool1 = map numbered [0..<i] @ [zero_entry]" "elem_valid s0 pool1 q"
    "elem_pos s0 q = i"
    using dp.alloc_Some [OF inv alloc] items by simp_all
  have flags1: "flags_ok s0 pool1"
    using data_pool_alloc_flags [OF flags _ alloc] inv by (simp add: pool_inv_def)
  obtain pool2 where set: "pool_set_entry pool1 q (numbered i) = Some pool2" and pool2: "pool_inv s0 pool2"
    "pool_items s0 pool2 = map numbered [0..<Suc i]" "\<forall>q'. elem_valid s0 pool2 q' = elem_valid s0 pool1 q'"
    using dp.write_items [OF pool1(1,3), of "map numbered [0..<i]" zero_entry "[]" "numbered i"] pool1(2,4) by auto
  have "pool_entry pool1 q = Some zero_entry" using dp.read_valid [OF pool1(1,3)] pool1(2,4) by (simp add: nth_append)
  then have "set_offset pool1 q i = Some pool2" using set by (simp add: set_offset_def numbered_def)
  moreover have "flags_ok s0 pool2" using flags_ok_frame [OF pool_set_entry_frame [OF set]] flags1 by simp
  moreover have "\<exists>q'. arr[i := Some q] ! j = Some q' \<and> elem_valid s0 pool2 q' \<and> elem_pos s0 q' = j" if "j < Suc i" for j
    using that arr pool2(3) pool1(3,4) dp.alloc_valid [OF inv alloc] len i
    by (cases "j = i") (auto simp: less_Suc_eq simp del: split_paired_All split_paired_Ex)
  ultimately show ?thesis
    using that alloc pool2(1,2) len by (simp add: filled_def del: split_paired_All split_paired_Ex upt_Suc)
qed

lemma fill_pool_filled:
  assumes new: "data_pool_new calloc_ok s0 = Some pool" and ok: "\<forall>k. calloc_ok k"
    and m: "m \<le> DATA_POOL_NUM_BLOCKS" "s0 * 2 ^ m * 32 \<le> SIZE_MAX" "n \<le> s0 * (2 ^ m - 1)"
  shows "\<exists>s. fill_pool calloc_ok n pool = Some s \<and> filled s0 n n s"
  unfolding fill_pool_def
proof (rule for_each_upt [where I = "filled s0 n"])
  show "filled s0 n 0 (pool, replicate n None)"
    using data_pool_new_inv [OF new] data_pool_new_flags [OF new] by (simp add: filled_def)
  fix i s
  assume i: "i < n" and s: "filled s0 n i s"
  obtain pool arr where s_eq: "s = (pool, arr)" by fastforce
  obtain q pool1 pool2 where "data_pool_alloc calloc_ok pool = (Some q, pool1)"
    "set_offset pool1 q i = Some pool2" "filled s0 n (Suc i) (pool2, arr[i := Some q])"
    by (rule fill_step [OF s [unfolded s_eq] i ok m])
  then show "\<exists>s'. (case s of (pool, entry_array) \<Rightarrow>
      case data_pool_alloc calloc_ok pool of (entry, pool) \<Rightarrow> do {
        c_assert (entry \<noteq> None); p \<leftarrow> entry; pool \<leftarrow> set_offset pool p i;
        Some (pool, entry_array[i := entry]) }) = Some s' \<and> filled s0 n (Suc i) s'"
    by (simp add: s_eq)
qed

section \<open>Walking the list\<close>

lemma linked_elem:
  assumes lk: "linked_to s0 pool (pool_count s0 pool - 1) s" and inv: "pool_inv s0 pool"
    and used: "0 < pool_used pool" and q: "elem_valid s0 pool q"
  obtains el where "pool_get s q = Some el" and "entry_data el = pool_items s0 pool ! elem_pos s0 q"
    and "next_elem el = (if elem_pos s0 q + 1 < pool_count s0 pool then Some (elem_succ s0 q) else None)"
proof -
  have shape: "pool_shape s0 pool" using inv by (simp add: pool_inv_def)
  have shape_s: "pool_shape s0 s" and same: "pool_index s = pool_index pool" "pool_used s = pool_used pool"
    and data: "map entry_data (pool_cells s) = map entry_data (pool_cells pool)"
    and nx: "next_elem (pool_cells s ! elem_pos s0 q) =
        (if elem_pos s0 q < pool_count s0 pool - 1 then Some (elem_succ s0 q) else None)"
    using lk q by (simp_all add: linked_to_def del: split_paired_All)
  have q': "elem_valid s0 s q" using q elem_valid_cong [OF same] by simp
  have k: "elem_pos s0 q < pool_count s0 pool" using elem_valid_cell(2) [OF shape q] .
  have items: "pool_items s0 pool = take (pool_count s0 pool) (map entry_data (pool_cells s))"
    by (simp add: pool_items_def data take_map)
  have "entry_data (pool_cells s ! elem_pos s0 q) = pool_items s0 pool ! elem_pos s0 q"
    using k pool_count_le [OF shape_s] same by (simp add: items pool_count_def)
  then show ?thesis using that elem_valid_cell(1) [OF shape_s q'] nx by (simp add: less_diff_conv)
qed

lemma linked_succ:
  assumes shape: "pool_shape s0 pool" and used: "0 < pool_used pool" and q: "elem_valid s0 pool q"
    and more: "elem_pos s0 q + 1 < pool_count s0 pool"
  shows "elem_valid s0 pool (elem_succ s0 q)" and "elem_pos s0 (elem_succ s0 q) = elem_pos s0 q + 1"
  using elem_succ_valid [OF shape used q more] elem_pos_succ [of s0 q] elem_valid_bound [OF shape q] shape
  by (simp_all add: pool_shape_def)

text \<open>The blocks whose first element lies before \<open>p\<close>.\<close>

definition blocks_before :: "elem_ptr \<Rightarrow> nat" where
  "blocks_before p = (if snd p = 0 then fst p else fst p + 1)"

lemma blocks_before_succ: "blocks_before (elem_succ s0 q) = fst q + 1"
  by (simp add: blocks_before_def elem_succ_def)

lemma count_blocks_linked:
  assumes lk: "linked_to s0 pool (pool_count s0 pool - 1) s" and inv: "pool_inv s0 pool"
    and used: "0 < pool_used pool" and flags: "flags_ok s0 s"
  shows "elem_valid s0 pool q \<Longrightarrow>
    count_blocks s (Some q) (blocks_before q) (elem_pos s0 q) = Some (pool_index pool + 1, pool_count s0 pool)"
proof (induction "pool_count s0 pool - elem_pos s0 q" arbitrary: q)
  have shape: "pool_shape s0 pool" using inv by (simp add: pool_inv_def)
  have shape_s: "pool_shape s0 s" and same: "pool_index s = pool_index pool" "pool_used s = pool_used pool"
    using lk by (simp_all add: linked_to_def)
  {
    case 0
    then show ?case using elem_valid_cell(2) [OF shape 0(2)] by simp
  next
    case (Suc d)
    obtain el where get: "pool_get s q = Some el"
      and nx: "next_elem el = (if elem_pos s0 q + 1 < pool_count s0 pool then Some (elem_succ s0 q) else None)"
      by (rule linked_elem [OF lk inv used Suc.prems])
    have "elem_valid s0 s q" using Suc.prems elem_valid_cong [OF same] by simp
    then have "(if elem_pool el then blocks_before q + 1 else blocks_before q) = fst q + 1"
      using elem_flag [OF flags shape_s _ get] by (simp add: blocks_before_def)
    then have step: "count_blocks s (Some q) (blocks_before q) (elem_pos s0 q) =
        count_blocks s (next_elem el) (fst q + 1) (elem_pos s0 q + 1)"
      using get by (simp add: count_blocks.simps [of s "Some q"])
    show ?case
    proof (cases "elem_pos s0 q + 1 < pool_count s0 pool")
      case True
      note succ = linked_succ [OF shape used Suc.prems True]
      have "d = pool_count s0 pool - elem_pos s0 (elem_succ s0 q)" using Suc.hyps(2) succ(2) by simp
      from Suc.hyps(1) [OF this succ(1)] show ?thesis
        using step nx True succ(2) blocks_before_succ by simp
    next
      case False
      have "elem_pos s0 q < pool_count s0 pool" using elem_valid_cell(2) [OF shape Suc.prems] .
      with False have last: "elem_pos s0 q + 1 = pool_count s0 pool" by simp
      have "fst q = pool_index pool"
      proof (rule ccontr)
        assume "fst q \<noteq> pool_index pool"
        then have "fst q < pool_index pool" using elem_valid_bound [OF shape Suc.prems] by simp
        moreover have "snd q < s0 * 2 ^ fst q" "0 < s0" using elem_valid_bound [OF shape Suc.prems] shape
          by (simp_all add: pool_shape_def)
        ultimately have "elem_pos s0 q < elem_pos s0 (pool_index pool, 0)"
          using elem_pos_block_mono [of s0 "fst q" "pool_index pool" "snd q" 0] by simp
        then show False using last used by (simp add: pool_count_def elem_pos_def)
      qed
      then show ?thesis using step nx False last by (simp add: count_blocks.simps [of s None])
    qed
  }
qed

section \<open>The check passes\<close>

lemma floorlog_eqI:
  assumes "2 ^ k \<le> a" and "a < 2 ^ Suc k"
  shows "floorlog 2 a = Suc k"
proof -
  have "0 < a" using assms(1) by (metis gr0I le_zero_eq power_not_zero zero_neq_numeral)
  then have "2 ^ (floorlog 2 a - 1) \<le> a" "a < 2 ^ floorlog 2 a" using floorlog_bounds [of a 2] by simp_all
  then have "(2 :: nat) ^ (floorlog 2 a - 1) < 2 ^ Suc k" "(2 :: nat) ^ k < 2 ^ floorlog 2 a"
    using assms by (simp_all only: le_less_trans less_le_trans)
  then have "floorlog 2 a - 1 < Suc k" and "k < floorlog 2 a"
    using power_less_imp_less_exp [of "2 :: nat"] one_less_numeral_iff semiring_norm(76) by blast+
  then show ?thesis by simp
qed

lemma expected_blocks:
  assumes shape: "pool_shape s0 pool" and used: "0 < pool_used pool"
  shows "expected_block_count (pool_count s0 pool) s0 = pool_index pool + 1"
proof -
  let ?k = "pool_index pool" and ?u = "pool_used pool" and ?n = "pool_count s0 pool"
  have s0: "0 < s0" "?u \<le> s0 * 2 ^ ?k" using shape by (simp_all add: pool_shape_def)
  have "s0 * (2 ^ ?k - 1) + s0 = s0 * 2 ^ ?k" by (simp add: right_diff_distrib' s0)
  then have n: "?n + s0 - 1 = s0 * 2 ^ ?k + (?u - 1)" using used by (simp add: pool_count_def elem_pos_def)
  have "s0 * 2 ^ ?k \<le> ?n + s0 - 1" using n by simp
  then have "2 ^ ?k \<le> (?n + s0 - 1) div s0" using s0 by (simp add: less_eq_div_iff_mult_less_eq mult.commute)
  moreover have "?n + s0 - 1 < 2 ^ Suc ?k * s0" using n s0 used by (simp add: mult.commute)
  then have "(?n + s0 - 1) div s0 < 2 ^ Suc ?k" using s0 by (simp only: div_less_iff_less_mult)
  ultimately show ?thesis by (simp only: expected_block_count_def Let_def floorlog_eqI)
qed

lemma data_pool_destroy_all:
  assumes "pool_shape s0 pool"
  shows "data_pool_destroy pool = [0..<pool_index pool + 1]"
proof -
  have "\<forall>i \<in> set [0..<pool_index pool + 1]. pool_blocks pool ! i \<noteq> None"
    using pool_blks_nth [OF assms] by auto
  then show ?thesis unfolding data_pool_destroy_def by (rule filter_True)
qed

lemma check_elements:
  assumes filled: "filled s0 n n (pool, arr)" and lk: "linked_to s0 pool (pool_count s0 pool - 1) s"
    and used: "0 < pool_used pool"
  shows "for_each [0..<n] (check_element s arr) (Some (0, 0)) = Some None"
proof -
  have inv: "pool_inv s0 pool" and items: "pool_items s0 pool = map numbered [0..<n]"
    and arr: "\<forall>j < n. \<exists>q. arr ! j = Some q \<and> elem_valid s0 pool q \<and> elem_pos s0 q = j"
    using filled by (simp_all add: filled_def del: split_paired_Ex)
  have shape: "pool_shape s0 pool" using inv by (simp add: pool_inv_def)
  have count: "pool_count s0 pool = n" using items by (simp flip: length_pool_items [OF shape])
  let ?I = "\<lambda>i e. if i < n then \<exists>q. e = Some q \<and> elem_valid s0 pool q \<and> elem_pos s0 q = i else e = None"
  have "\<exists>e. for_each [0..<n] (check_element s arr) (Some (0, 0)) = Some e \<and> ?I n e"
  proof (rule for_each_upt [where I = ?I])
    have "elem_valid s0 pool (0, 0)" using shape used by (simp add: elem_valid_def pool_shape_def)
    then show "?I 0 (Some (0, 0))"
      using used count by (auto simp: elem_pos_def pool_count_def)
    fix i e
    assume i: "i < n" and "?I i e"
    then obtain q where q: "e = Some q" "elem_valid s0 pool q" "elem_pos s0 q = i" by auto
    obtain el where get: "pool_get s q = Some el" and data: "entry_data el = pool_items s0 pool ! i"
      and nx: "next_elem el = (if i + 1 < n then Some (elem_succ s0 q) else None)"
      using linked_elem [OF lk inv used q(2)] unfolding q(3) count by blast
    obtain q' where q': "arr ! i = Some q'" "elem_valid s0 pool q'" "elem_pos s0 q' = i" using arr i by blast
    then have "q' = q" using elem_pos_inj [OF shape q'(2) q(2)] q(3) by simp
    moreover have "ed_offset (entry_data el) = word_of_nat i" using i by (simp add: data items numbered_def)
    ultimately have "check_element s arr i e = Some (next_elem el)"
      using get q(1) q'(1) by (simp add: check_element_def)
    moreover have "?I (Suc i) (next_elem el)"
      using nx linked_succ [OF shape used q(2)] q(3) count by auto
    ultimately show "\<exists>e'. check_element s arr i e = Some e' \<and> ?I (Suc i) e'" by blast
  qed
  then show ?thesis by simp
qed

lemma create_and_check_list_passes:
  assumes ok: "\<forall>k. calloc_ok k" and s0: "0 < s0"
    and m: "0 < m" "m \<le> DATA_POOL_NUM_BLOCKS" "s0 * 2 ^ m * 32 \<le> SIZE_MAX" "n \<le> s0 * (2 ^ m - 1)"
  shows "create_and_check_list calloc_ok True s0 n = Some [0..<expected_block_count n s0]"
proof -
  have "(2 :: nat) ^ 1 \<le> 2 ^ m" using m(1) by (intro power_increasing) auto
  then have "s0 * 2 * 32 \<le> s0 * 2 ^ m * 32" by simp
  then have "s0 * 64 \<le> SIZE_MAX" using m(3) by linarith
  then obtain pool where new: "data_pool_new calloc_ok s0 = Some pool"
    using ok s0 by (auto simp: data_pool_new_def can_multiply_iff)
  then have used0: "pool_used pool = 0" by (auto simp: data_pool_new_def split: if_splits)
  obtain pool1 arr where fill: "fill_pool calloc_ok n pool = Some (pool1, arr)" and filled: "filled s0 n n (pool1, arr)"
    using fill_pool_filled [OF new ok m(2-)] by fastforce
  have inv: "pool_inv s0 pool1" and flags: "flags_ok s0 pool1" and items: "pool_items s0 pool1 = map numbered [0..<n]"
    using filled by (simp_all add: filled_def del: split_paired_Ex)
  have shape: "pool_shape s0 pool1" using inv by (simp add: pool_inv_def)
  have count: "pool_count s0 pool1 = n" using items by (simp flip: length_pool_items [OF shape])
  show ?thesis
  proof (cases "n = 0")
    case True
    then have empty: "data_pool_to_list pool1 = Some (None, pool1)" using data_pool_to_list_empty [OF inv] items by simp
    have "pool_index pool1 = 0" using count True shape by (cases "pool_index pool1") (auto simp: pool_count_def elem_pos_def pool_shape_def)
    moreover have "expected_block_count 0 s0 = 1" using s0 by (simp add: expected_block_count_def floorlog_def)
    ultimately show ?thesis
      using new used0 fill empty True data_pool_destroy_all [OF shape] by (simp add: create_and_check_list_def)
  next
    case False
    then have used: "0 < pool_used pool1"
      using count shape by (cases "pool_index pool1") (auto simp: pool_count_def elem_pos_def pool_shape_def)
    obtain s where list: "data_pool_to_list pool1 = Some (Some (0, 0), s)"
      and lk: "linked_to s0 pool1 (pool_count s0 pool1 - 1) s"
      using data_pool_to_list_linked [OF inv used] by blast
    have fr: "frame s = frame pool1" by (rule data_pool_to_list_frame [OF list])
    have v: "elem_valid s0 pool1 (0, 0)" using shape used by (simp add: elem_valid_def pool_shape_def)
    have "count_blocks s (Some (0, 0)) 0 0 = Some (pool_index pool1 + 1, n)"
      using count_blocks_linked [OF lk inv used _ v] flags_ok_frame [OF fr] flags count
      by (simp add: blocks_before_def elem_pos_def)
    then have "check_block_count s (Some (0, 0)) s0 = Some ()"
      using expected_blocks [OF shape used] count by (simp add: check_block_count_def c_assert_def)
    moreover have "data_pool_destroy s = [0..<expected_block_count n s0]"
      using data_pool_destroy_all [of s0 s] lk expected_blocks [OF shape used] count fr
      by (simp add: linked_to_def frame_def)
    ultimately show ?thesis
      using new used0 fill list check_elements [OF filled lk used] False by (simp add: create_and_check_list_def)
  qed
qed

section \<open>The tests\<close>

text \<open>
  The booleans that \<open>ok\<close> and \<open>cmp_ok\<close> record, in order. Where the test goes on to use a pointer, the
  check that it is not null records \<^term>\<open>True\<close>, since the use of a null pointer is \<^term>\<open>None\<close>. The final
  \<open>data_pool_destroy\<close> of each test, which only frees blocks, records nothing and is left out here; the
  list check above returns the blocks it frees.
\<close>

definition test_data_pool_new :: "calloc_env \<Rightarrow> bool list option" where
  "test_data_pool_new calloc_ok = do {
     pool \<leftarrow> data_pool_new calloc_ok 512;
     Some [data_pool_new calloc_ok 0 = None,
           data_pool_new calloc_ok (SIZE_MAX - 10) = None,
           True, pool_size pool = 512, pool_used pool = 0] }"

definition test_data_pool_destroy :: "calloc_env \<Rightarrow> bool list" where
  "test_data_pool_destroy calloc_ok = [data_pool_new calloc_ok 512 \<noteq> None]"

text \<open>A pool that grows by one block, of one element and of ten.\<close>

definition test_alloc_second_block :: "calloc_env \<Rightarrow> bool list option" where
  "test_alloc_second_block calloc_ok = do {
     pool0 \<leftarrow> data_pool_new calloc_ok 1;
     let (entry1, pool1) = data_pool_alloc calloc_ok pool0;
     p1 \<leftarrow> entry1;
     pool2 \<leftarrow> set_offset pool1 p1 123;
     let (entry2, pool3) = data_pool_alloc calloc_ok pool2;
     e1 \<leftarrow> pool_entry pool3 p1;
     Some [True, pool_used pool0 = 0, entry1 \<noteq> None,
           pool_size pool2 = 1, pool_used pool2 = 1,
           entry2 \<noteq> None, entry1 \<noteq> entry2,
           pool_size pool3 = 2, pool_used pool3 = 1,
           ed_offset e1 = 123] }"

definition check_offset ::
  "MMDB_data_pool_s \<Rightarrow> nat \<Rightarrow> elem_ptr option \<times> bool list \<Rightarrow> (elem_ptr option \<times> bool list) option" where
  "check_offset pool i s = (case s of (element, results) \<Rightarrow> do {
     p \<leftarrow> element;
     el \<leftarrow> pool_get pool p;
     Some (next_elem el, results @ [ed_offset (entry_data el) = word_of_nat i]) })"

definition test_alloc_grow :: "calloc_env \<Rightarrow> bool list option" where
  "test_alloc_grow calloc_ok = (let initial_size = 10 in do {
     pool \<leftarrow> data_pool_new calloc_ok initial_size;
     (pool1, entry1) \<leftarrow> for_each [0..<initial_size] (\<lambda>i (pool, entry1).
       case data_pool_alloc calloc_ok pool of (entry, pool) \<Rightarrow> do {
         p \<leftarrow> entry;
         pool \<leftarrow> set_offset pool p i;
         Some (pool, if i = 0 then entry else entry1) }) (pool, None);
     let (entry, pool2) = data_pool_alloc calloc_ok pool1;
     p \<leftarrow> entry;
     pool3 \<leftarrow> set_offset pool2 p initial_size;
     (list, pool4) \<leftarrow> data_pool_to_list pool3;
     (element, offsets) \<leftarrow> for_each [0..<initial_size + 1] (check_offset pool4) (list, []);
     p1 \<leftarrow> entry1;
     e1 \<leftarrow> pool_entry pool4 p1;
     Some ([True] @ replicate initial_size True @
           [pool_size pool1 = initial_size, pool_used pool1 = initial_size, entry \<noteq> None,
            pool_size pool3 = initial_size * 2, pool_used pool3 = 1] @ offsets @ [ed_offset e1 = 0]) })"

text \<open>Lists of one and of two elements; the first pool is turned into a list twice.\<close>

definition next_of :: "MMDB_data_pool_s \<Rightarrow> elem_ptr option \<Rightarrow> elem_ptr option option" where
  "next_of pool element = do { p \<leftarrow> element; el \<leftarrow> pool_get pool p; Some (next_elem el) }"

definition test_list_twice :: "calloc_env \<Rightarrow> bool list option" where
  "test_list_twice calloc_ok = do {
     pool \<leftarrow> data_pool_new calloc_ok 16;
     let (entry1, pool) = data_pool_alloc calloc_ok pool;
     (list_one_element, pool) \<leftarrow> data_pool_to_list pool;
     next1 \<leftarrow> next_of pool list_one_element;
     let (entry2, pool) = data_pool_alloc calloc_ok pool;
     (list_two_elements, pool) \<leftarrow> data_pool_to_list pool;
     second_element \<leftarrow> next_of pool list_two_elements;
     next2 \<leftarrow> next_of pool second_element;
     Some [True, entry1 \<noteq> None,
           list_one_element \<noteq> None, list_one_element = entry1, next1 = None,
           entry2 \<noteq> None,
           list_two_elements \<noteq> None, list_two_elements = entry1, second_element \<noteq> None,
           second_element = entry2, next2 = None] }"

definition test_list_one :: "calloc_env \<Rightarrow> bool list option" where
  "test_list_one calloc_ok = do {
     pool \<leftarrow> data_pool_new calloc_ok 1;
     let (entry1, pool) = data_pool_alloc calloc_ok pool;
     (list_one_element, pool) \<leftarrow> data_pool_to_list pool;
     next1 \<leftarrow> next_of pool list_one_element;
     Some [True, entry1 \<noteq> None, list_one_element \<noteq> None, list_one_element = entry1, next1 = None] }"

definition test_list_two :: "calloc_env \<Rightarrow> bool list option" where
  "test_list_two calloc_ok = do {
     pool \<leftarrow> data_pool_new calloc_ok 2;
     let (entry1, pool) = data_pool_alloc calloc_ok pool;
     let (entry2, pool) = data_pool_alloc calloc_ok pool;
     (list_element1, pool) \<leftarrow> data_pool_to_list pool;
     list_element2 \<leftarrow> next_of pool list_element1;
     next2 \<leftarrow> next_of pool list_element2;
     Some [True, entry1 \<noteq> None, entry2 \<noteq> None, entry1 \<noteq> entry2,
           list_element1 \<noteq> None, list_element1 = entry1, list_element2 = entry2, next2 = None] }"

text \<open>The list checks: eight that are recorded, and those of the two nested loops.\<close>

definition list_check_counts :: "nat list" where
  "list_check_counts = [2, 3, 3 + 1, 3 + 3 * 2 - 1, 3 + 3 * 2, 3 + 3 * 2 + 1,
     3 + 3 * 2 + 3 * 2 * 2 - 1, 3 + 3 * 2 + 3 * 2 * 2]"

definition max_element_count :: nat where "max_element_count = 4096"

definition nested_list_checks :: "calloc_env \<Rightarrow> bool \<Rightarrow> unit option" where
  "nested_list_checks calloc_ok array_ok =
     for_each [1, 2, 32, 64, 128, 256] (\<lambda>initial_size _.
       for_each [0..<max_element_count] (\<lambda>element_count _. do {
         freed \<leftarrow> create_and_check_list calloc_ok array_ok initial_size element_count;
         Some () }) ()) ()"

definition test_data_pool_to_list :: "calloc_env \<Rightarrow> bool \<Rightarrow> bool list option" where
  "test_data_pool_to_list calloc_ok array_ok = do {
     twice \<leftarrow> test_list_twice calloc_ok;
     one \<leftarrow> test_list_one calloc_ok;
     two \<leftarrow> test_list_two calloc_ok;
     checks \<leftarrow> for_each list_check_counts (\<lambda>element_count results. do {
       freed \<leftarrow> create_and_check_list calloc_ok array_ok 3 element_count;
       Some (results @ [True]) }) [];
     nested_list_checks calloc_ok array_ok;
     Some (twice @ one @ two @ checks) }"

definition data_pool_tests :: "calloc_env \<Rightarrow> bool \<Rightarrow> bool list option" where
  "data_pool_tests calloc_ok array_ok = do {
     new \<leftarrow> test_data_pool_new calloc_ok;
     let destroy = test_data_pool_destroy calloc_ok;
     alloc1 \<leftarrow> test_alloc_second_block calloc_ok;
     alloc2 \<leftarrow> test_alloc_grow calloc_ok;
     to_list \<leftarrow> test_data_pool_to_list calloc_ok array_ok;
     Some (new @ destroy @ alloc1 @ alloc2 @ to_list) }"

text \<open>\<open>test_can_multiply\<close> of \<open>src/data-pool.c\<close>\<close>

definition test_can_multiply :: "bool list" where
  "test_can_multiply = [can_multiply SIZE_MAX 1 SIZE_MAX, \<not> can_multiply SIZE_MAX 2 SIZE_MAX,
     can_multiply SIZE_MAX 10240 sizeof_elem]"

lemma data_pool_new_tests_pass:
  "test_data_pool_new (\<lambda>_. True) = Some [True, True, True, True, True]"
  "test_data_pool_destroy (\<lambda>_. True) = [True]"
  by (simp_all add: test_data_pool_new_def test_data_pool_destroy_def data_pool_new_def can_multiply_iff)

lemma small_lists_pass:
  "test_alloc_second_block (\<lambda>_. True) = Some (replicate 10 True)"
  "test_alloc_grow (\<lambda>_. True) = Some (replicate 28 True)"
  "test_list_twice (\<lambda>_. True) = Some (replicate 11 True)"
  "test_list_one (\<lambda>_. True) = Some (replicate 5 True)"
  "test_list_two (\<lambda>_. True) = Some (replicate 8 True)"
  by code_simp+

lemma check_passes_below:
  assumes "0 < s0" and "s0 \<le> 256" and "n \<le> s0 * 8191"
  shows "create_and_check_list (\<lambda>_. True) True s0 n = Some [0..<expected_block_count n s0]"
  using assms by (intro create_and_check_list_passes [of _ s0 13]) auto

lemma for_each_unit:
  "(\<And>i. i \<in> set xs \<Longrightarrow> body i () = Some ()) \<Longrightarrow> for_each xs body () = Some ()"
  by (induction xs) simp_all

lemma nested_checks_pass: "nested_list_checks (\<lambda>_. True) True = Some ()"
  unfolding nested_list_checks_def
  by (intro for_each_unit) (auto simp: check_passes_below max_element_count_def simp del: upt_Suc)

lemma data_pool_tests_pass: "\<exists>results. data_pool_tests (\<lambda>_. True) True = Some results \<and> list_all id results"
proof -
  have "for_each list_check_counts (\<lambda>element_count results. do {
       freed \<leftarrow> create_and_check_list (\<lambda>_. True) True 3 element_count;
       Some (results @ [True]) }) [] = Some [True, True, True, True, True, True, True, True]"
    by (simp add: list_check_counts_def check_passes_below)
  then have "\<exists>results. test_data_pool_to_list (\<lambda>_. True) True = Some results \<and> list_all id results"
    by (simp add: test_data_pool_to_list_def small_lists_pass nested_checks_pass list_all_iff del: upt_Suc)
  then show ?thesis
    by (auto simp: data_pool_tests_def data_pool_new_tests_pass small_lists_pass list_all_iff)
qed

lemma can_multiply_test_passes: "list_all id test_can_multiply"
  by (simp add: test_can_multiply_def can_multiply_iff)

end
