(* ===== verification/Test_Programs.thy ===== *)
theory Test_Programs
  imports Mmdblookup_Safety
begin

text \<open>
  Programs under \<open>src/t\<close> that open a database and use it: the fuzz target \<open>fuzz_mmdb.c\<close>, and the
  regression tests \<open>double_close_t.c\<close>, \<open>invalid_sockaddr_t.c\<close> and \<open>gai_error_t.c\<close> with \<open>open_ok\<close> of
  \<open>maxminddb_test_helper.c\<close>. The tests read one fixture each; here the file is arbitrary, and they
  are shown to pass for every file that can be opened. The results are the booleans that \<open>ok\<close> and \<open>cmp_ok\<close>
  record. The path of the database is the argument \<open>db_file\<close>, \<open>BAIL_OUT\<close> is the value \<open>Inl ()\<close>.
\<close>

section \<open>The programs\<close>

abbreviation (input) kMinInputLength :: nat where "kMinInputLength \<equiv> 2"
abbreviation (input) kMaxInputLength :: nat where "kMaxInputLength \<equiv> 4048"

text \<open>
  \<open>os_for data\<close> are the answers of the system once the file holds \<open>data\<close>; \<open>fopen_ok\<close> tells whether it
  can be written. \<open>db0\<close> is the handle on the stack, before \<open>MMDB_open\<close> sets it.
\<close>

definition LLVMFuzzerTestOneInput ::
  "bool \<Rightarrow> (bytes \<Rightarrow> os_answers) \<Rightarrow> stack_content \<Rightarrow> bytes \<Rightarrow> MMDB_s \<Rightarrow> bytes \<Rightarrow> resources \<Rightarrow> (int \<times> resources) option" where
  "LLVMFuzzerTestOneInput fopen_ok os_for stacks filename db0 data h =
    (if length data < kMinInputLength \<or> length data > kMaxInputLength then Some (0, h)
     else if \<not> fopen_ok then Some (0, h)
     else do {
       (status, (mmdb, h)) \<leftarrow> MMDB_open (os_for data) stacks filename MMDB_MODE_MMAP (db0, h);
       (mmdb, h) \<leftarrow> (if status = MMDB_SUCCESS then MMDB_close (mmdb, h) else Some (mmdb, h));
       Some (0, h) })"

definition test_double_close ::
  "os_answers \<Rightarrow> stack_content \<Rightarrow> bytes \<Rightarrow> MMDB_s \<Rightarrow> resources \<Rightarrow> (bool list \<times> resources) option" where
  "test_double_close os stacks db_file db0 h = do {
     (status, (mmdb, h)) \<leftarrow> MMDB_open os stacks db_file MMDB_MODE_MMAP (db0, h);
     if status \<noteq> MMDB_SUCCESS then Some ([False], h)
     else do {
       (mmdb, h) \<leftarrow> MMDB_close (mmdb, h);
       let results = [True, file_content mmdb = None, data_section mmdb = None, metadata_section mmdb = None,
         languages_count (db_metadata mmdb) = 0, description_count (db_metadata mmdb) = 0,
         file_size mmdb = 0, data_section_size mmdb = 0, metadata_section_size mmdb = 0];
       (mmdb, h) \<leftarrow> MMDB_close (mmdb, h);
       Some (results @ [True], h) } }"

text \<open>
  \<open>open_ok\<close>: the handle is a block of the heap. When the file has been opened and is empty, which
  cannot happen, the handle would be freed without closing it.
\<close>

definition open_ok ::
  "bool \<Rightarrow> os_answers \<Rightarrow> stack_content \<Rightarrow> bytes \<Rightarrow> u32 \<Rightarrow> resources \<Rightarrow>
     (unit + (addr \<times> MMDB_s) option \<times> bool list \<times> resources) option" where
  "open_ok access_ok os stacks db_file mode h =
    (if \<not> access_ok then Some (Inl ())
     else case c_malloc h of
       (None, h) \<Rightarrow> Some (Inl ())
     | (Some a, h) \<Rightarrow> do {
         (status, (mmdb, h)) \<leftarrow> MMDB_open os stacks db_file mode (zero_mmdb [], h);
         if status \<noteq> MMDB_SUCCESS then do {
           h \<leftarrow> c_free a h;
           Some (Inr (None, [False], h)) }
         else if \<not> file_size mmdb > 0 then do {
           h \<leftarrow> c_free a h;
           Some (Inr (None, [True, False], h)) }
         else Some (Inr (Some (a, mmdb), [True, True], h)) })"

text \<open>What both tests do: open, check, close, free the handle.\<close>

definition with_open ::
  "(unit + (addr \<times> MMDB_s) option \<times> bool list \<times> resources) option \<Rightarrow> (MMDB_s \<Rightarrow> bool list option) \<Rightarrow>
     (unit + bool list \<times> resources) option" where
  "with_open opening check = do {
     r \<leftarrow> opening;
     case r of
       Inl _ \<Rightarrow> Some (Inl ())
     | Inr (None, results, h) \<Rightarrow> Some (Inr (results, h))
     | Inr (Some (a, mmdb), results, h) \<Rightarrow> do {
         checks \<leftarrow> check mmdb;
         (mmdb, h) \<leftarrow> MMDB_close (mmdb, h);
         h \<leftarrow> c_free a h;
         Some (Inr (results @ checks, h)) } }"

definition check_invalid_family :: "nat \<Rightarrow> MMDB_s \<Rightarrow> bool list option" where
  "check_invalid_family family mmdb = do {
     (mmdb_error, result) \<leftarrow> MMDB_lookup_sockaddr mmdb (Sockaddr_other family);
     Some [\<not> found_entry result, netmask result = 0, mmdb_error = MMDB_INVALID_NETWORK_ADDRESS_ERROR] }"

definition test_invalid_sockaddr_family ::
  "bool \<Rightarrow> os_answers \<Rightarrow> stack_content \<Rightarrow> bytes \<Rightarrow> nat \<Rightarrow> resources \<Rightarrow> (unit + bool list \<times> resources) option" where
  "test_invalid_sockaddr_family access_ok os stacks filename family h =
     with_open (open_ok access_ok os stacks filename MMDB_MODE_MMAP h) (check_invalid_family family)"

definition check_gai_failure :: "(bytes \<Rightarrow> int \<times> sockaddr option) \<Rightarrow> MMDB_s \<Rightarrow> bool list option" where
  "check_gai_failure getaddrinfo mmdb = do {
     (gai_error, mmdb_error, result) \<leftarrow> MMDB_lookup_string getaddrinfo mmdb [46, 46];
     Some [gai_error \<noteq> 0, mmdb_error = MMDB_SUCCESS] }"

definition test_mmdb_error_set_on_gai_failure ::
  "(bytes \<Rightarrow> int \<times> sockaddr option) \<Rightarrow> bool \<Rightarrow> os_answers \<Rightarrow> stack_content \<Rightarrow> bytes \<Rightarrow> resources \<Rightarrow>
     (unit + bool list \<times> resources) option" where
  "test_mmdb_error_set_on_gai_failure getaddrinfo access_ok os stacks filename h =
     with_open (open_ok access_ok os stacks filename MMDB_MODE_MMAP h) (check_gai_failure getaddrinfo)"

definition test_trailing_metadata_marker ::
  "os_answers \<Rightarrow> stack_content \<Rightarrow> bytes \<Rightarrow> MMDB_s \<Rightarrow> resources \<Rightarrow> (bool list \<times> resources) option" where
  "test_trailing_metadata_marker os stacks db_file db0 h = do {
     (status, (mmdb, h)) \<leftarrow> MMDB_open os stacks db_file MMDB_MODE_MMAP (db0, h);
     (mmdb, h) \<leftarrow> (if status = MMDB_SUCCESS then MMDB_close (mmdb, h) else Some (mmdb, h));
     Some ([status = MMDB_INVALID_METADATA_ERROR], h) }"

section \<open>The handle after closing\<close>

definition section_fields :: "MMDB_s \<Rightarrow> ptr option \<times> int \<times> ptr option \<times> u32 \<times> ptr option \<times> u32" where
  "section_fields db = (file_content db, file_size db, data_section db, data_section_size db,
     metadata_section db, metadata_section_size db)"

lemma free_language_fields: "free_language i s = Some s' \<Longrightarrow> section_fields (fst s') = section_fields (fst s)"
  by (auto simp: free_language_def bind_eq_Some_conv set_language_name_success section_fields_def
      split: prod.splits option.splits if_splits)

lemma free_description_fields: "free_description i s = Some s' \<Longrightarrow>
    section_fields (fst s') = section_fields (fst s) \<and>
    languages_count (db_metadata (fst s')) = languages_count (db_metadata (fst s))"
  by (auto simp: free_description_def bind_eq_Some_conv set_description_success section_fields_def
      split: prod.splits option.splits if_splits)

lemma section_fields_metadata [simp]: "section_fields (db\<lparr>db_metadata := m\<rparr>) = section_fields db"
  by (simp add: section_fields_def)

lemma free_languages_fields:
  assumes "free_languages_metadata s = Some s'"
  shows "section_fields (fst s') = section_fields (fst s)"
    and "languages_names (db_metadata (fst s)) \<noteq> None \<or> languages_count (db_metadata (fst s)) = 0 \<Longrightarrow>
      languages_count (db_metadata (fst s')) = 0"
proof -
  have loop: "section_fields (fst s') = section_fields (fst s)" if "for_each xs free_language s = Some s'" for xs s s'
    using free_language_fields that by (rule for_each_keeps [where q = "\<lambda>s. section_fields (fst s)"])
  show "section_fields (fst s') = section_fields (fst s)"
    using assms by (auto simp: free_languages_metadata_def bind_eq_Some_conv split: if_splits dest: loop)
  show "languages_count (db_metadata (fst s')) = 0"
    if "languages_names (db_metadata (fst s)) \<noteq> None \<or> languages_count (db_metadata (fst s)) = 0"
    using assms that by (auto simp: free_languages_metadata_def bind_eq_Some_conv split: if_splits)
qed

lemma free_descriptions_fields:
  assumes "free_descriptions_metadata s = Some s'"
  shows "section_fields (fst s') = section_fields (fst s)"
    and "languages_count (db_metadata (fst s')) = languages_count (db_metadata (fst s))"
proof -
  let ?q = "\<lambda>s. (section_fields (fst s), languages_count (db_metadata (fst s)))"
  have loop: "?q s' = ?q s" if "for_each xs free_description s = Some s'" for xs s s'
    by (rule for_each_keeps [where q = ?q, OF _ that]) (simp add: free_description_fields)
  have "?q s' = ?q s"
    using assms by (auto simp: free_descriptions_metadata_def bind_eq_Some_conv split: if_splits dest: loop)
  then show "section_fields (fst s') = section_fields (fst s)"
    and "languages_count (db_metadata (fst s')) = languages_count (db_metadata (fst s))" by simp_all
qed

lemma free_mmdb_struct_fields:
  assumes "free_mmdb_struct (db, h) = Some (db', h')" and "file_content db \<noteq> None"
    and "languages_names (db_metadata db) \<noteq> None \<or> languages_count (db_metadata db) = 0"
  shows "section_fields db' = (None, 0, None, 0, None, 0)" and "languages_count (db_metadata db') = 0"
proof -
  let ?db = "db\<lparr>db_filename := None, file_content := None, file_size := 0, data_section := None,
    data_section_size := 0, metadata_section := None, metadata_section_size := 0,
    db_metadata := (db_metadata db)\<lparr>database_type := None\<rparr>\<rparr>"
  obtain h3 s where langs: "free_languages_metadata (?db, h3) = Some s" and descs: "free_descriptions_metadata s = Some (db', h')"
    using assms(1,2) by (auto simp: free_mmdb_struct_def Let_def bind_eq_Some_conv)
  note l = free_languages_fields [OF langs] and d = free_descriptions_fields [OF descs]
  show "section_fields db' = (None, 0, None, 0, None, 0)" using l(1) d(1) by (simp add: section_fields_def)
  show "languages_count (db_metadata db') = 0" using l(2) d(2) assms(3) by simp
qed

lemma set_sections_file_size: "set_sections db = Some (MMDB_SUCCESS, db') \<Longrightarrow> 0 < file_size db'"
  by (auto simp: set_sections_def Let_def split: if_splits)

lemma set_ipv4_start_file_size: "set_ipv4_start db = Some (st, db') \<Longrightarrow> file_size db' = file_size db"
  by (auto simp: set_ipv4_start_def find_ipv4_start_node_def Let_def chk_with_def
      split: if_splits option.splits prod.splits)

lemma MMDB_open_file_size:
  assumes "MMDB_open os stacks filename flags s0 = Some (MMDB_SUCCESS, (db, h))"
  shows "0 < file_size db"
proof -
  obtain db0 h0 where s0: "s0 = (db0, h0)" by (cases s0)
  obtain db1 h1 where dup: "mmdb_strdup filename h0 = (db1, h1)" by fastforce
  obtain s3 db4 where "set_sections (fst s3) = Some (MMDB_SUCCESS, db4)" "set_ipv4_start db4 = Some (MMDB_SUCCESS, db)"
    using assms s0 dup
    by (auto simp: MMDB_open_def Let_def chk_with_success bind_eq_Some_conv split: if_splits prod.splits)
  then show ?thesis using set_sections_file_size set_ipv4_start_file_size by metis
qed

section \<open>The programs run safely, and the tests pass\<close>

text \<open>An open that succeeds, as the programs use it.\<close>

lemma open_cases:
  assumes "os_ok os" and "metadata_at_end os"
  obtains (fails) st db h' where "MMDB_open os stacks filename flags (db0, h) = Some (st, (db, h'))"
      and "st \<noteq> MMDB_SUCCESS" and "released h st h'"
  | (opens) db h' where "MMDB_open os stacks filename flags (db0, h) = Some (MMDB_SUCCESS, (db, h'))"
      and "opened db" and "handle (live h) h {#} db h'" and "printable (db_metadata db)" and "0 < file_size db"
proof -
  obtain st db h' where run: "MMDB_open os stacks filename flags (db0, h) = Some (st, (db, h'))"
    and post: "if st = MMDB_SUCCESS then opened db \<and> handle (live h) h {#} db h' else handle_closed db \<and> released h st h'"
    using MMDB_open_wp [OF assms, of stacks filename flags db0 h] by (auto simp: wp_iff_ex)
  show ?thesis
  proof (cases "st = MMDB_SUCCESS")
    case True
    then show ?thesis using opens run post MMDB_open_printable MMDB_open_file_size by simp
  qed (use fails run post in simp)
qed

definition restored :: "resources \<Rightarrow> resources \<Rightarrow> bool" where
  "restored h h' \<longleftrightarrow> live h' = live h \<and> same_files h h'"

lemma restored_released: "restored h h' \<Longrightarrow> released h st h'"
  by (simp add: restored_def released_def same_files_def)

text \<open>The first close gives everything back and clears the handle, the second one does nothing.\<close>

lemma close_opened:
  assumes "opened db" and "handle (live h) h {#} db h'" and "printable (db_metadata db)"
  obtains db' h'' where "MMDB_close (db, h') = Some (db', h'')" and "restored h h''"
    and "MMDB_close (db', h'') = Some (db', h'')" and "handle_closed db'"
    and "section_fields db' = (None, 0, None, 0, None, 0)" and "languages_count (db_metadata db') = 0"
proof -
  have content: "file_content db \<noteq> None" using assms(1) by (simp add: opened_def sections_ok_def)
  have langs: "languages_names (db_metadata db) \<noteq> None \<or> languages_count (db_metadata db) = 0"
    using assms(3) unfolding printable_def printable_languages_def by (metis gr0I option.distinct(1))
  have "freeable (live h) {#} db h'" using assms(2) by (simp add: handle_def)
  from free_mmdb_struct_owns [OF this] obtain db' h'' where close: "free_mmdb_struct (db, h') = Some (db', h'')"
    and "handle_closed db'" and "owns h'' (live h) {#}" "open_fds h'' = open_fds h'" "mappings h'' = mappings h' - 1"
    using content by auto
  moreover from this have "restored h h''" using assms(2) content by (simp add: restored_def same_files_def handle_def owns_def)
  ultimately show ?thesis
    using that free_mmdb_struct_fields [OF close content langs] free_mmdb_struct_closed by (simp add: MMDB_close_def)
qed

lemma fuzz_input_safe:
  assumes "os_ok (os_for data)" and "metadata_at_end (os_for data)"
  shows "\<exists>h' st. LLVMFuzzerTestOneInput fopen_ok os_for stacks filename db0 data h = Some (0, h') \<and> released h st h'"
using assms
proof (cases rule: open_cases [where stacks = stacks and filename = filename and flags = MMDB_MODE_MMAP and ?db0.0 = db0 and h = h])
  case (fails st db h')
  moreover have "released h st h" if "st \<noteq> MMDB_SUCCESS" for st by (simp add: released_def)
  ultimately show ?thesis by (auto simp: LLVMFuzzerTestOneInput_def)
next
  case (opens db h')
  obtain db' h'' where "MMDB_close (db, h') = Some (db', h'')" "restored h h''"
    by (rule close_opened [OF opens(2-4)])
  moreover have "released h MMDB_SUCCESS h" by (simp add: released_def)
  ultimately show ?thesis using opens restored_released by (auto simp: LLVMFuzzerTestOneInput_def)
qed

lemma double_close_passes:
  assumes "os_ok os" and "metadata_at_end os"
  shows "\<exists>results h' st. test_double_close os stacks db_file db0 h = Some (results, h') \<and> released h st h' \<and>
    (results = [False] \<or> results = replicate 10 True \<and> restored h h')"
using assms
proof (cases rule: open_cases [where stacks = stacks and filename = db_file and flags = MMDB_MODE_MMAP and ?db0.0 = db0 and h = h])
  case (fails st db h')
  then show ?thesis by (auto simp: test_double_close_def)
next
  case (opens db h')
  obtain db' h'' where close: "MMDB_close (db, h') = Some (db', h'')" "MMDB_close (db', h'') = Some (db', h'')"
    and h'': "restored h h''" and fields: "handle_closed db'" "section_fields db' = (None, 0, None, 0, None, 0)"
      "languages_count (db_metadata db') = 0"
    by (rule close_opened [OF opens(2-4)])
  then have "test_double_close os stacks db_file db0 h = Some (replicate 10 True, h'')"
    using opens(1) by (simp add: test_double_close_def section_fields_def handle_closed_def numeral_eq_Suc)
  then show ?thesis using h'' restored_released by blast
qed

text \<open>A check that passes on every opened database makes the whole test pass.\<close>

lemma with_open_passes:
  assumes os: "os_ok os" "metadata_at_end os"
    and check: "\<And>db. opened db \<Longrightarrow> \<exists>checks. check db = Some checks \<and> list_all id checks"
  shows "\<exists>r. with_open (open_ok access_ok os stacks filename MMDB_MODE_MMAP h) check = Some r \<and>
    (case r of
       Inl _ \<Rightarrow> \<not> access_ok \<or> \<not> alloc_ok h (next_addr h)
     | Inr (results, h') \<Rightarrow> (results = [False] \<or> list_all id results \<and> restored h h') \<and> (\<exists>st. released h st h'))"
proof (cases "access_ok \<and> alloc_ok h (next_addr h)")
  case False
  then show ?thesis by (auto simp: with_open_def open_ok_def c_malloc_def Let_def)
next
  case True
  define a where "a = next_addr h"
  define h1 where "h1 = h\<lparr>next_addr := next_addr h + 1, live := add_mset a (live h)\<rparr>"
  have alloc: "access_ok" "c_malloc h = (Some a, h1)" using True by (simp_all add: c_malloc_def Let_def a_def h1_def)
  from os show ?thesis
  proof (cases rule: open_cases [where stacks = stacks and filename = filename and flags = MMDB_MODE_MMAP
      and ?db0.0 = "zero_mmdb []" and h = h1])
    case (fails st db h')
    obtain leak where leak: "live h' = add_mset a (live h) + leak"
      using fails(3) by (auto simp: released_def h1_def)
    then obtain h'' where "c_free a h' = Some h''" "released h st h''"
      using fails(3) by (auto simp: c_free_def released_def h1_def)
    then show ?thesis using fails alloc by (auto simp: with_open_def open_ok_def)
  next
    case (opens db h')
    obtain db' h'' where close: "MMDB_close (db, h') = Some (db', h'')" and h'': "restored h1 h''"
      by (rule close_opened [OF opens(2-4)])
    then obtain h3 where "c_free a h'' = Some h3" "restored h h3"
      by (auto simp: c_free_def restored_def h1_def same_files_def)
    moreover obtain checks where "check db = Some checks" "list_all id checks" using check [OF opens(2)] by blast
    ultimately show ?thesis
      using opens close alloc restored_released by (auto simp: with_open_def open_ok_def)
  qed
qed

lemma invalid_family_checked:
  assumes "opened db" and "family \<noteq> AF_INET" "family \<noteq> AF_INET6"
  shows "\<exists>checks. check_invalid_family family db = Some checks \<and> list_all id checks"
proof -
  have "wf_search db" using opened_wf [OF assms(1)] by simp
  from lookup_sockaddr_wp [OF this, of "Sockaddr_other family"] assms(2,3)
  show ?thesis by (auto simp: wp_iff_ex check_invalid_family_def family_status_def no_result_def)
qed

lemma gai_failure_checked:
  assumes "fst (getaddrinfo [46, 46]) \<noteq> 0"
  shows "\<exists>checks. check_gai_failure getaddrinfo db = Some checks \<and> list_all id checks"
proof -
  obtain g ai where "getaddrinfo [46, 46] = (g, ai)" "g \<noteq> 0" using assms by (cases "getaddrinfo [46, 46]") auto
  then show ?thesis using lookup_string_gai_error [of getaddrinfo "[46, 46]"] by (simp add: check_gai_failure_def)
qed

section \<open>A file that ends with the marker\<close>

text \<open>No proper suffix of the marker is a prefix of it, so two occurrences do not overlap.\<close>

lemma marker_no_overlap: "0 < k \<Longrightarrow> k < 14 \<Longrightarrow> METADATA_MARKER ! k \<noteq> METADATA_MARKER ! 0"
proof -
  have "\<forall>k \<in> set [1..<14]. METADATA_MARKER ! k \<noteq> METADATA_MARKER ! 0" by code_simp
  then show "0 < k \<Longrightarrow> k < 14 \<Longrightarrow> METADATA_MARKER ! k \<noteq> METADATA_MARKER ! 0" by simp
qed

lemma length_marker: "length METADATA_MARKER = 14"
  by (simp add: METADATA_MARKER_def ascii_def)

lemma find_metadata_trailing:
  "find_metadata (pre @ METADATA_MARKER) 0 (int (length (pre @ METADATA_MARKER))) = Some None"
proof -
  let ?m = "pre @ METADATA_MARKER"
  obtain r where find: "find_metadata ?m 0 (int (length ?m)) = Some r"
    and r: "\<And>p sz. r = Some (p, sz) \<Longrightarrow> 14 \<le> p \<and> p + unat sz = length ?m \<and> 0 < unat sz \<and>
      bytes_at ?m (p - 14) METADATA_MARKER \<and> (\<forall>q. p \<le> q \<and> q + 14 \<le> length ?m \<longrightarrow> \<not> bytes_at ?m q METADATA_MARKER)"
    using find_metadata_spec [of 0 "int (length ?m)" ?m] by (auto simp del: length_append of_nat_add)
  have last: "bytes_at ?m (length pre) METADATA_MARKER" by (simp add: bytes_at_def)
  have False if "r = Some (p, sz)" for p sz
  proof -
    note p = r [OF that]
    let ?k = "length pre - (p - 14)"
    have "p - 14 < length pre" using p length_marker by auto
    moreover have "\<not> p \<le> length pre" using p last length_marker by auto
    ultimately have k: "0 < ?k" "?k < 14" by linarith+
    have "rd ?m (p - 14 + ?k) = Some (METADATA_MARKER ! ?k)" using bytes_at_rd [of ?m "p - 14" METADATA_MARKER ?k] p k length_marker by simp
    moreover have "rd ?m (length pre + 0) = Some (METADATA_MARKER ! 0)" using bytes_at_rd [OF last, of 0] length_marker by simp
    ultimately show False using k marker_no_overlap [OF k] by simp
  qed
  then show ?thesis using find by (cases r) auto
qed

lemma trailing_marker_rejected:
  assumes os: "os_open os db_file \<ge> 0" "os_fstat os = 0" "st_size os = int (length (pre @ METADATA_MARKER))"
      "os_mmap os = Inr (pre @ METADATA_MARKER)"
    and size: "length (pre @ METADATA_MARKER) \<le> nat SSIZE_MAX" and mem: "alloc_ok h (next_addr h)"
  shows "\<exists>h'. test_trailing_metadata_marker os stacks db_file db0 h = Some ([True], h') \<and> restored h h'"
proof -
  have ok: "os_ok os" using os by (simp add: os_ok_def)
  have readable: "metadata_at_end os"
    using find_metadata_trailing [of pre] by (simp add: metadata_at_end_def metadata_readable_def os)
  define a where "a = next_addr h"
  have dup: "mmdb_strdup db_file h = (Some (a, db_file), h\<lparr>next_addr := next_addr h + 1, live := add_mset a (live h)\<rparr>)"
    using mem by (simp add: mmdb_strdup_def c_malloc_def Let_def a_def)
  have "MMDB_open os stacks db_file MMDB_MODE_MMAP (db0, h) = Some (MMDB_INVALID_METADATA_ERROR, s)"
    if "MMDB_open os stacks db_file MMDB_MODE_MMAP (db0, h) = Some (st, s)" for st s
    using that os size find_metadata_trailing [of pre]
    by (auto simp: MMDB_open_def dup map_file_def open_metadata_def set_flags_def Let_def bind_eq_Some_conv split: if_splits)
  moreover obtain st db h' where "MMDB_open os stacks db_file MMDB_MODE_MMAP (db0, h) = Some (st, (db, h'))"
    and "if st = MMDB_SUCCESS then opened db \<and> handle (live h) h {#} db h' else handle_closed db \<and> released h st h'"
    using MMDB_open_wp [OF ok readable, of stacks db_file MMDB_MODE_MMAP db0 h] by (auto simp: wp_iff_ex)
  ultimately show ?thesis
    by (auto simp: test_trailing_metadata_marker_def released_def restored_def same_files_def)
qed

end
