(* ===== verification/Example.thy ===== *)
theory Example
  imports Threads Debug Open_Correct Encoding Pool_Test Test_Programs
begin

text \<open>
  A small database file, on which the theorems are tried. Its search tree has one node, whose
  left record leads to the data at offset 0: a map of two members, of which the second one is
  a pointer to a string inside the first. The metadata names one language and one description.
\<close>

section \<open>The file\<close>

definition example_tree :: bytes where
  "example_tree = [0, 0, 17, 0, 0, 1]"

definition example_data :: bytes where
  "example_data = [0xE2, 0x41, 0x61, 0x02, 0x04, 0xA1, 0x05, 0x42, 0x78, 0x79, 0x41, 0x62, 0x20, 0x07]"

definition metadata_entry :: "string \<Rightarrow> bytes \<Rightarrow> bytes" where
  "metadata_entry key v = header_bytes 2 (length key) @ ascii key @ v"

definition example_metadata :: bytes where
  "example_metadata = 0xE9 #
     metadata_entry ''node_count'' [0xC1, 1] @ metadata_entry ''record_size'' [0xA1, 24] @
     metadata_entry ''ip_version'' [0xA1, 6] @ metadata_entry ''database_type'' [0x41, 0x74] @
     metadata_entry ''languages'' [0x01, 0x04, 0x42, 0x65, 0x6E] @
     metadata_entry ''binary_format_major_version'' [0xA1, 2] @
     metadata_entry ''binary_format_minor_version'' [0xA0] @
     metadata_entry ''build_epoch'' [0x01, 0x02, 7] @
     metadata_entry ''description'' [0xE1, 0x42, 0x65, 0x6E, 0x41, 0x64]"

definition example_file :: bytes where
  "example_file = example_tree @ replicate 16 0 @ example_data @ METADATA_MARKER @ example_metadata"

definition example_os :: os_answers where
  "example_os = \<lparr>os_open = \<lambda>_. 3, os_fstat = 0, st_size = 214, os_mmap = Inr example_file\<rparr>"

definition example_resources :: resources where
  "example_resources = \<lparr>next_addr = 0, live = {#}, alloc_ok = \<lambda>_. True, pool_ok = \<lambda>_ _. True,
     open_fds = 0, mappings = 0\<rparr>"

lemma example_live: "live example_resources = {#}"
  by (simp add: example_resources_def)

lemma length_example_file: "length example_file = 214"
  by code_simp

lemma example_marker: "find_metadata example_file 0 214 = Some (Some (50, 164))"
  by code_simp

lemma example_os_ok: "os_ok example_os" and example_readable: "metadata_at_end example_os"
  using example_marker
  by (simp_all add: os_ok_def metadata_at_end_def metadata_readable_def example_os_def length_example_file)

section \<open>The handle\<close>

text \<open>What \<open>MMDB_open\<close> makes of the file.\<close>

definition example_md :: MMDB_metadata_s where
  "example_md = \<lparr>node_count = 1, record_size = 24, ip_version = 6,
     database_type = Some (1, ascii ''t''), languages_count = 1,
     languages_names = Some (2, [Some (3, ascii ''en'')]),
     binary_format_major_version = 2, binary_format_minor_version = 0, build_epoch = 7,
     description_count = 1,
     descriptions = Some (4, [Some (5, \<lparr>language = Some (6, ascii ''en''), description = Some (7, ascii ''d'')\<rparr>)])\<rparr>"

definition example_db :: MMDB_s where
  "example_db = \<lparr>mapping = example_file, db_flags = 1, db_filename = Some (0, ascii ''x.mmdb''),
     file_size = 214, file_content = Some 0, data_section = Some 22, data_section_size = 192,
     metadata_section = Some 50, metadata_section_size = 164, full_record_byte_size = 6, db_depth = 128,
     ipv4_start_node = \<lparr>start_netmask = 1, node_value = 17\<rparr>, db_metadata = example_md\<rparr>"

lemmas example_db_simps = example_db_def example_md_def

lemma example_opened: "opened example_db"
  by (simp add: example_db_simps opened_def sections_ok_def search_tree_size_def length_example_file start_ok_def
      layout_ok_def metadata_ok_def)

lemma example_section: "wf_section example_db" and example_search: "wf_search example_db"
  and example_wf_tree: "wf_tree example_db"
  using opened_wf [OF example_opened] by (simp_all add: wf_search_def)

section \<open>Its tree and its data\<close>

lemma example_stored_tree: "stored_tree example_db [(17, 1)]"
proof -
  have "bytes_at example_file 0 (encode_node 6 (17, 1))" by code_simp
  then show ?thesis by (simp add: example_db_simps stored_tree_def records_below_def Let_def)
qed

definition example_value :: mmdb_value where
  "example_value =
     V_map [(ascii ''a'', V_array [V_uint16 5, V_string (ascii ''xy'')]), (ascii ''b'', V_string (ascii ''xy''))]"

lemma example_bytes:
  "section_bytes example_db a bs \<longleftrightarrow> a + length bs \<le> 192 \<and> bytes_at example_file (22 + a) bs"
  by (simp add: example_db_simps section_bytes_def)

lemma example_at: "bytes_at example_file 22 example_data"
  by code_simp

lemma example_data_bytes:
  assumes "take (length bs) (drop a example_data) = bs" and "a + length bs \<le> 14"
  shows "section_bytes example_db a bs"
proof -
  have "example_data = take a example_data @ bs @ drop (a + length bs) example_data"
    using assms(1) by (metis append_take_drop_id drop_drop add.commute)
  moreover have "length (take a example_data) = a" using assms(2) by (simp add: example_data_def)
  ultimately have "bytes_at example_file (22 + a) bs"
    using example_at by (metis bytes_at_append)
  then show ?thesis using assms(2) by (simp add: example_bytes)
qed

lemma example_header:
  assumes "take (length (header_bytes ty n)) (drop a example_data) = header_bytes ty n"
    and "a + length (header_bytes ty n) \<le> 14" and "n < 29" and "b = a + length (header_bytes ty n)"
  shows "entry_header example_db a ty n b"
  using assms example_data_bytes by (simp add: entry_header_def size_limit_def)

lemma example_scalar:
  assumes "take (length (header_bytes ty (length bs) @ bs)) (drop a example_data) = header_bytes ty (length bs) @ bs"
    and "a + length (header_bytes ty (length bs) @ bs) \<le> 14" and "scalar_of ty bs = Some v"
    and "n = a + length (header_bytes ty (length bs) @ bs)" and "length bs < 29" and "c + length bs = n"
  shows "stored example_db a v c n (Suc h)"
proof -
  have "section_bytes example_db a (header_bytes ty (length bs) @ bs)"
    using assms(1,2) by (rule example_data_bytes)
  then have "section_bytes example_db a (header_bytes ty (length bs))" and "section_bytes example_db c bs"
    using assms(4,6) by (auto simp: section_bytes_append)
  then have "entry_header example_db a ty (length bs) c"
    using assms(4-6) by (simp add: entry_header_def size_limit_def)
  from stored_represents_represents_seq_represents_pairs.scalar [OF this \<open>section_bytes example_db c bs\<close> assms(3)]
  show ?thesis using assms(6) by simp
qed

lemma example_string: "stored example_db 7 (V_string (ascii ''xy'')) 8 10 (Suc h)"
  by (rule example_scalar [of 2 "ascii ''xy''"])
    (simp_all add: header_bytes_def size_code_def example_data_def ascii_def)

lemma example_number: "stored example_db 5 (V_uint16 5) 6 7 (Suc h)"
  by (rule example_scalar [of 5 "[5]"])
    (simp_all add: header_bytes_def size_code_def example_data_def be_def)

lemma example_key_a: "stored example_db 1 (V_string (ascii ''a'')) 2 3 (Suc h)"
  by (rule example_scalar [of 2 "ascii ''a''"])
    (simp_all add: header_bytes_def size_code_def example_data_def ascii_def)

lemma example_key_b: "stored example_db 10 (V_string (ascii ''b'')) 11 12 (Suc h)"
  by (rule example_scalar [of 2 "ascii ''b''"])
    (simp_all add: header_bytes_def size_code_def example_data_def ascii_def)

lemma example_array: "stored example_db 3 (V_array [V_uint16 5, V_string (ascii ''xy'')]) 5 10 (Suc (Suc 0))"
proof (rule stored_represents_represents_seq_represents_pairs.array)
  show "entry_header example_db 3 11 (length [V_uint16 5, V_string (ascii ''xy'')]) 5"
    by (rule example_header) (simp_all add: header_bytes_def size_code_def example_data_def)
  show "represents_seq example_db 5 [V_uint16 5, V_string (ascii ''xy'')] 10 (Suc 0)"
    by (rule stored_represents_represents_seq_represents_pairs.seq_Cons,
        rule stored_represents_represents_seq_represents_pairs.direct, rule example_number,
        rule stored_represents_represents_seq_represents_pairs.seq_Cons,
        rule stored_represents_represents_seq_represents_pairs.direct, rule example_string,
        rule stored_represents_represents_seq_represents_pairs.seq_Nil)
qed

lemma example_pointer: "represents example_db 12 (V_string (ascii ''xy'')) 14 (Suc (Suc 0))"
proof -
  have "section_bytes example_db 12 [0x20, 7]" by (rule example_data_bytes) (simp_all add: example_data_def)
  moreover have "pointer_code 7 [0x20, 7]" by (simp add: pointer_code_def)
  ultimately show ?thesis
    using stored_represents_represents_seq_represents_pairs.pointer [OF _ _ example_string] by fastforce
qed

lemma example_map: "stored example_db 0 example_value 1 14 3"
proof -
  have "represents_pairs example_db 1 [(ascii ''a'', V_array [V_uint16 5, V_string (ascii ''xy'')]),
      (ascii ''b'', V_string (ascii ''xy''))] 14 (Suc (Suc 0))"
    by (rule stored_represents_represents_seq_represents_pairs.pairs_Cons,
        rule stored_represents_represents_seq_represents_pairs.direct, rule example_key_a,
        rule stored_represents_represents_seq_represents_pairs.direct, rule example_array,
        rule stored_represents_represents_seq_represents_pairs.pairs_Cons,
        rule stored_represents_represents_seq_represents_pairs.direct, rule example_key_b,
        rule example_pointer, rule stored_represents_represents_seq_represents_pairs.pairs_Nil)
  moreover have "entry_header example_db 0 7 2 1"
    by (rule example_header) (simp_all add: header_bytes_def size_code_def example_data_def)
  ultimately show ?thesis
    using stored_represents_represents_seq_represents_pairs.map
    by (simp add: example_value_def numeral_3_eq_3 numeral_2_eq_2)
qed

lemma example_represents: "represents example_db 0 example_value 14 3"
  by (rule stored_represents_represents_seq_represents_pairs.direct [OF example_map])

definition example_start :: MMDB_entry_s where
  "example_start = \<lparr>entry_mmdb = example_db, entry_offset = 0\<rparr>"

text \<open>A file of 15 bytes, the last of which announces a map with an extended size.\<close>

definition short_os :: os_answers where
  "short_os = \<lparr>os_open = \<lambda>_. 3, os_fstat = 0, st_size = 15, os_mmap = Inr (METADATA_MARKER @ [0xFE])\<rparr>"

section \<open>Opening the file\<close>

definition example_metadata_value :: mmdb_value where
  "example_metadata_value = V_map
     [(ascii ''node_count'', V_uint32 1), (ascii ''record_size'', V_uint16 24), (ascii ''ip_version'', V_uint16 6),
      (ascii ''database_type'', V_string (ascii ''t'')), (ascii ''languages'', V_array [V_string (ascii ''en'')]),
      (ascii ''binary_format_major_version'', V_uint16 2), (ascii ''binary_format_minor_version'', V_uint16 0),
      (ascii ''build_epoch'', V_uint64 7),
      (ascii ''description'', V_map [(ascii ''en'', V_string (ascii ''d''))])]"

lemma example_metadata_encoding: "encode_value example_metadata_value = example_metadata"
  by code_simp

lemma length_example_metadata: "length example_metadata = 164"
  by code_simp

lemma example_metadata_section: "section_bytes (metadata_db example_file 50 164) 0 (encode_value example_metadata_value)"
proof -
  have "bytes_at example_file 50 example_metadata" by code_simp
  then show ?thesis
    by (simp add: section_bytes_def metadata_db_def zero_mmdb_def example_metadata_encoding length_example_metadata)
qed

lemma example_metadata_represents: "represents (metadata_db example_file 50 164) 0 example_metadata_value 164 3"
proof -
  have "encodable example_metadata_value" "nesting example_metadata_value \<le> 3"
    by (simp_all add: example_metadata_value_def size_limit_def ascii_def)
  from represents_encoding [OF example_metadata_section this] show ?thesis
    by (simp add: example_metadata_encoding length_example_metadata)
qed

definition example_view :: file_metadata where
  "example_view = \<lparr>fm_node_count = 1, fm_record_size = 24, fm_ip_version = 6, fm_database_type = ascii ''t'',
     fm_languages = [ascii ''en''], fm_major_version = 2, fm_minor_version = 0, fm_build_epoch = 7,
     fm_description = [(ascii ''en'', ascii ''d'')]\<rparr>"

lemma example_metadata_means: "metadata_of_value example_metadata_value = Some example_view"
  by code_simp

lemma example_fits: "fm_major_version example_view = 2 \<and> sections_fit 214 example_view"
  by (simp add: example_view_def sections_fit_def)

lemma example_opens:
  "\<exists>db h. MMDB_open example_os (\<lambda>_ _. zero_entry) (ascii ''x.mmdb'') 0 (zero_mmdb [], example_resources) =
      Some (MMDB_SUCCESS, (db, h)) \<and> describes example_view example_file db"
proof -
  have "length (flatten example_metadata_value) \<le> pool_capacity" "plenty example_resources"
    by (simp_all add: example_metadata_value_def pool_capacity_def plenty_def example_resources_def)
  then have "implements True (\<lambda>(db, h) M. describes M example_file db)
      (MMDB_open example_os (\<lambda>_ _. zero_entry) (ascii ''x.mmdb'') 0 (zero_mmdb [], example_resources))
      (Some example_view)"
    using MMDB_open_value [of example_os "ascii ''x.mmdb''" example_file 50 164 example_metadata_value 164 3
        example_resources "\<lambda>_ _. zero_entry" 0 "zero_mmdb []"]
      example_marker example_metadata_represents example_metadata_means example_fits
    by (simp add: example_os_def length_example_file checked_def)
  then show ?thesis by (auto simp: implements_def wp_iff_ex split: if_splits)
qed

section \<open>The command line tool on the example\<close>

text \<open>\<open>mmdblookup --file x.mmdb --ip ::\<close>\<close>

definition example_env :: environment where
  "example_env = \<lparr>env_program = ascii ''mmdblookup'', env_version = ascii ''1.0'',
     env_options = [(102, ascii ''x.mmdb''), (105, ascii ''::'')], env_operands = [], env_os = example_os,
     env_stacks = \<lambda>_ _. zero_entry, env_mmdb = zero_mmdb [],
     env_getaddrinfo = \<lambda>_. (0, Some (Sockaddr_in6 (replicate 16 0))), env_gai_strerror = \<lambda>_. [],
     env_strerror = \<lambda>_. [], env_date = \<lambda>_. None, env_fopen = \<lambda>_. None, env_rand = \<lambda>_. 0,
     env_times = \<lambda>_. ([], [])\<rparr>"

definition example_process :: process where
  "example_process = \<lparr>out_text = [], err_text = [], heap = example_resources, rand_calls = 0\<rparr>"

lemma example_env_ok:
  "os_ok (env_os example_env)" "metadata_at_end (env_os example_env)" "getaddrinfo_ok example_env"
  using example_os_ok example_readable by (simp_all add: example_env_def getaddrinfo_ok_def)

text \<open>A platform on which the second thread cannot be created.\<close>

definition example_pthreads :: pthreads where
  "example_pthreads = \<lparr>create_fails = \<lambda>i. i = 1, join_fails = \<lambda>_. False, start_time_ok = True, end_time_ok = True\<rparr>"

text \<open>The heap when the example is open, without and with the lookup path of the tool.\<close>

definition example_heap :: resources where
  "example_heap = example_resources\<lparr>next_addr := 9, live := {#0, 1, 2, 3, 4, 5, 6, 7#}, mappings := 1\<rparr>"

lemma example_handle: "handle {#} example_resources {#} example_db example_heap"
  by (simp add: handle_def freeable_def owns_def example_heap_def example_db_simps example_resources_def
      metadata_blocks_def language_blocks_def description_blocks_def description_block_def languages_inv_def
      descriptions_inv_def unset_from_def)

lemma example_handle_path: "handle {#} example_resources {#8#} example_db (example_heap\<lparr>live := add_mset 8 (live example_heap)\<rparr>)"
  using example_handle by (simp add: handle_def freeable_def owns_def)

lemma example_bits: "address_bits (replicate 16 0) = replicate 128 False"
  by (simp add: address_bits_zero)

lemma example_walk: "walk (node_step [(17, 1)]) 0 (False # bs) = (17, 1)"
  by (cases bs) (simp_all add: node_step_def)

lemma example_lookup:
  "MMDB_lookup_sockaddr example_db (Sockaddr_in6 (replicate 16 0)) =
    Some (MMDB_SUCCESS, \<lparr>found_entry = True, result_entry = example_start, netmask = 1\<rparr>)"
proof -
  have "address_bits (replicate 16 0) = False # replicate 127 False"
    unfolding example_bits by (simp add: numeral_eq_Suc)
  then show ?thesis
    using lookup_in6 [OF example_stored_tree, of "replicate 16 0"] example_walk [of "replicate 127 False"]
    by (simp add: example_db_simps outcome_of_def no_result_def example_start_def)
qed

section \<open>A section that is nested too deeply\<close>

text \<open>Arrays of one element around a boolean, as in the database of the test for the nesting limit.\<close>

primrec nested_arrays :: "nat \<Rightarrow> mmdb_value" where
  "nested_arrays 0 = V_bool True"
| "nested_arrays (Suc k) = V_array [nested_arrays k]"

lemma nested_arrays_simps [simp]:
  "nesting (nested_arrays k) = Suc k" "length (flatten (nested_arrays k)) = Suc k"
  "length (encode_value (nested_arrays k)) = 2 * Suc k" "encodable (nested_arrays k)"
  by (induction k) (simp_all add: header_bytes_def size_code_def size_limit_def)

definition nested_db :: "nat \<Rightarrow> MMDB_s" where
  "nested_db k = example_db\<lparr>mapping := encode_value (nested_arrays k), data_section := Some 0,
     data_section_size := word_of_nat (length (encode_value (nested_arrays k)))\<rparr>"

lemma nested_db_represents:
  assumes "k < 2 ^ 30"
  shows "represents (nested_db k) 0 (nested_arrays k) (2 * Suc k) (Suc k)"
proof -
  have "unat (word_of_nat (2 * Suc k) :: u32) = 2 * Suc k"
    using assms by (intro unat_of_nat_u32) simp
  then have "section_bytes (nested_db k) 0 (encode_value (nested_arrays k))"
    by (simp add: nested_db_def section_bytes_def bytes_at_def del: of_nat_mult of_nat_Suc)
  from represents_encoding [OF this, of "Suc k"] show ?thesis by simp
qed

end
