(* ===== verification/Spec2Isabelle.thy ===== *)
theory Spec2Isabelle
  imports Example
begin

text \<open>
  libmaxminddb: the library that reads MaxMind DB files and the command line tool \<open>mmdblookup\<close>.

  A MaxMind DB file is a binary search tree over the bits of IP addresses, whose records lead to
  values in a data section, followed by a marker and a map with the metadata. The library maps the
  file into memory and works on its bytes; nothing in the file can be trusted.

  \<^bold>\<open>How the code is modelled.\<close> A function of the source becomes a function of the same name. The file
  is a list of bytes, a pointer into it a number; a read outside it makes the result \<open>None\<close>, so that
  \<open>None\<close> stands for undefined behaviour and each safety theorem says that it does not occur. A function
  that returns a status and fills in an out parameter gives \<open>Some (status, value)\<close>, on its error paths
  as well (type \<open>'a run\<close>; \<open>chk\<close> is the early return of the code's checking macros). Integers are words of the
  width that the code gives them, and wrap around; \<open>size_t\<close> and \<open>ssize_t\<close> values are numbers whose overflow checks are
  written out. Heap blocks are counted in a multiset of live addresses; \<open>malloc\<close>, \<open>calloc\<close>, \<open>open\<close>,
  \<open>fstat\<close>, \<open>mmap\<close>, \<open>getaddrinfo\<close>, \<open>pthread_create\<close> and the like are answered by parameters, in every
  way that their documentation admits. Loops that the type of their counter bounds are recursions
  on it; recursive functions carry the depth that the code counts.

  \<^bold>\<open>The theories and the code.\<close>
  \<^item> \<open>Prelude\<close>: reads of single bytes and of blocks, \<open>bytes_at\<close>, the weakest precondition \<open>wp\<close> of a call.
  \<^item> \<open>Status\<close> and \<open>Database\<close>: \<open>include/maxminddb.h\<close>, that is the status codes, \<open>MMDB_strerror\<close>, and the
    structures \<open>MMDB_s\<close>, \<open>MMDB_entry_data_s\<close> (the union is the datatype \<open>entry_value\<close>) and the others as records.
  \<^item> \<open>Byte_Readers\<close>: \<open>get_uintX\<close>, \<open>get_ptr_from\<close>, the 28-bit records, the IEEE 754 loads.
  \<^item> \<open>Decoder\<close>: \<open>decode_one\<close> and \<open>decode_one_follow\<close>, the control byte, sizes, pointers and payloads.
  \<^item> \<open>Data_Format\<close>: the specification the decoder is measured against. \<open>represents db a v n h\<close>
    says that the value \<open>v\<close> lies at offset \<open>a\<close> and ends at \<open>n\<close>, with at most \<open>h\<close> levels of nesting.
  \<^item> \<open>Unique_Values\<close>: at an offset at most one value is stored, and the levels it needs are those of its parts.
  \<^item> \<open>Lookup_Path\<close>: \<open>MMDB_get_value\<close>, \<open>MMDB_vget_value\<close>, \<open>MMDB_aget_value\<close>, \<open>skip_map_or_array\<close>.
  \<^item> \<open>Data_Pool\<close>: \<open>src/data-pool.c\<close>; the locale \<open>entry_pool\<close> is what the list builder relies on.
  \<^item> \<open>Entry_List\<close>: \<open>MMDB_get_entry_data_list\<close> and \<open>MMDB_get_metadata_as_entry_data_list\<close>.
  \<^item> \<open>Dump\<close>: \<open>MMDB_dump_entry_data_list\<close> with the text that \<open>fprintf\<close> writes.
  \<^item> \<open>Search_Tree\<close>: \<open>find_address_in_search_tree\<close>, \<open>find_ipv4_start_node\<close>, \<open>MMDB_read_node\<close>,
    \<open>MMDB_lookup_sockaddr\<close>, \<open>MMDB_lookup_string\<close>; \<open>walk\<close> is the specification.
  \<^item> \<open>Compat\<close>: \<open>mmdb_memmem\<close>, \<open>mmdb_strndup\<close> and the rest of \<open>src/maxminddb-compat-util.h\<close>, and the heap.
  \<^item> \<open>Metadata\<close> and \<open>Open_Close\<close>: \<open>find_metadata\<close>, \<open>read_metadata\<close>, \<open>MMDB_open\<close>, \<open>MMDB_close\<close>.
  \<^item> \<open>Metadata_Values\<close>, \<open>File_Tree\<close> and \<open>Open_Correct\<close>: what \<open>MMDB_open\<close> makes of a file. \<open>metadata_of_value\<close> is
    the metadata that a stored value means, \<open>file_tree\<close> the tree that the bytes contain, \<open>tree_lookup\<close> the
    lookup in it; \<open>implements\<close> relates a call to such a specification.
  \<^item> \<open>Encoding\<close>: a writer for the format, which shows that every value can be stored.
  \<^item> \<open>Debug\<close>: \<open>byte_to_binary\<close> and \<open>type_num_to_name\<close>.
  \<^item> \<open>Mmdblookup\<close>, \<open>Mmdblookup_Safety\<close>, \<open>Threads\<close>: \<open>bin/mmdblookup.c\<close>. Its output streams are lists of bytes
    in the state, \<open>exit\<close> is \<open>Inl\<close>. The threads of the benchmark are a step relation; one round of one
    thread, a lookup and its list, is one step.
  \<^item> \<open>Pool_Test\<close> and \<open>Test_Programs\<close>: programs of \<open>src/t\<close>. \<open>data-pool-t.c\<close> with its list check, which is shown to pass
    for all sizes; \<open>fuzz_mmdb.c\<close>, \<open>double_close_t.c\<close>, \<open>invalid_sockaddr_t.c\<close>, \<open>gai_error_t.c\<close> and
    \<open>metadata_marker_t.c\<close>, over an arbitrary file instead of their fixture.
  \<^item> \<open>Example\<close>: a small database, on which the theorems are tried.

  \<^bold>\<open>What the lemmas show.\<close> Three groups run through the theories. Safety: \<open>wp\<close> lemmas
  for arbitrary bytes, where \<open>wf_section\<close> and \<open>wf_search\<close> say that sections lie inside the mapping,
  \<open>opened\<close> that \<open>MMDB_open\<close> has returned the handle, and \<open>handle base h0 more db h\<close> which blocks, files and
  mappings belong to it. Correctness: for a stored value the decoder, the path lookup, the list and the
  dump compute \<open>head_of\<close>, \<open>lookup_value\<close>, \<open>flatten\<close> and \<open>value_text\<close>; for a stored tree the lookups
  compute \<open>walk\<close>. Resources: every block is freed once, also on the error paths.

  \<^bold>\<open>Bounds.\<close> \<open>skip_map_or_array\<close> and \<open>get_entry_data_list\<close> stop at the depth 512 of the code, which is
  why the correctness theorems assume \<open>h \<le> MAXIMUM_DATA_STRUCTURE_DEPTH\<close>;
  \<open>entry_data_list_nesting_limit\<close> shows that the limit is exact for the list. The pool holds up to
  \<open>64 * (2 ^ 32 - 1)\<close> entries (\<open>pool_capacity\<close>). \<open>dump_entry_data_list\<close> has no bound in the code and takes
  its depth as fuel here; the length of the list is enough, as \<open>dump_terminates\<close> shows.

  \<^bold>\<open>Not modelled.\<close> The Windows variants (\<open>map_file\<close> with its UTF-16 names, \<open>wmain\<close>, the stub of the threaded
  benchmark), which are calls of the Windows API; \<open>MMDB_lib_version\<close>, a constant of the build; debug
  output; the test programs that compare the contents of their fixtures, which are a git submodule. The
  parsing of \<open>getopt_long\<close>, the calendar of \<open>gmtime\<close> and \<open>strftime\<close>, the clock, \<open>rand\<close> and the texts of \<open>strerror\<close>
  are parameters of the tool. The indentation of the dump is an unbounded integer, where the code's
  \<open>int\<close> overflows near \<open>INT_MAX\<close>. The local variables that the code leaves uninitialised are the argument \<open>stacks\<close>.
\<close>

section \<open>From the file to the answer\<close>



text \<open>C2: \<open>MMDB_aget_value\<close> implements the lookup of a path in the stored value: an entry of the
  value at the path, or the status that tells why there is none; the result is cleared then.\<close>

theorem MMDB_aget_value_correct:
  assumes "represents (entry_mmdb start) a v n h" and "entry_offset start = word_of_nat a"
    and "h \<le> MAXIMUM_DATA_STRUCTURE_DEPTH"
  shows "\<exists>st e. MMDB_aget_value stacks start path = Some (st, e) \<and>
    (case lookup_value v path of
       Inl st' \<Rightarrow> st = st' \<and> st' \<noteq> MMDB_SUCCESS \<and> e = zero_entry
     | Inr v' \<Rightarrow> st = MMDB_SUCCESS \<and> found_value (entry_mmdb start) h v' e)"
  using MMDB_aget_value_lookup [OF assms, of stacks path] by (simp only: wp_iff_ex)

theorem MMDB_aget_value_correct_witness:
  "\<exists>st e. MMDB_aget_value (\<lambda>_ _. zero_entry) example_start [ascii ''a'', ascii ''-1''] = Some (st, e) \<and>
     st = MMDB_SUCCESS \<and> found_value example_db 3 (V_string (ascii ''xy'')) e"
proof -
  have "lookup_value example_value [ascii ''a'', ascii ''-1''] = Inr (V_string (ascii ''xy''))"
    by code_simp
  then show ?thesis
    using MMDB_aget_value_correct [of example_start 0 example_value 14 3 "\<lambda>_ _. zero_entry"
        "[ascii ''a'', ascii ''-1'']"] example_represents
    by (simp add: example_start_def)
qed

text \<open>C3: the entry data list of a stored value is the list of its labels in preorder. The only
  other outcome is a failed allocation, which cannot happen while \<open>calloc\<close> succeeds and the value
  has no more labels than the pool has room for.\<close>

theorem entry_data_list_correct:
  assumes "represents (entry_mmdb start) a v n h" and "entry_offset start = word_of_nat a"
    and "h \<le> MAXIMUM_DATA_STRUCTURE_DEPTH"
  shows "\<exists>st r. MMDB_get_entry_data_list calloc_ok start = Some (st, r) \<and>
    (if st = MMDB_SUCCESS
     then \<exists>pool es. r = Some ((0, 0), pool) \<and>
       list_entries pool (length (flatten v)) (Some (0, 0)) = Some es \<and>
       map (entry_head (entry_mmdb start)) es = map Some (flatten v)
     else st = MMDB_OUT_OF_MEMORY_ERROR \<and> r = None \<and>
       ((\<forall>k. calloc_ok k) \<longrightarrow> pool_capacity < length (flatten v)))"
  using MMDB_get_entry_data_list_flatten [OF assms, of calloc_ok] by (simp only: wp_iff_ex)

theorem entry_data_list_correct_witness:
  "\<exists>r. MMDB_get_entry_data_list (\<lambda>_. True) example_start = Some (MMDB_SUCCESS, r) \<and>
    (\<exists>pool es. r = Some ((0, 0), pool) \<and> list_entries pool 7 (Some (0, 0)) = Some es \<and>
       map (entry_head example_db) es = map Some (flatten example_value))"
proof -
  have len: "length (flatten example_value) = 7" by (simp add: example_value_def)
  show ?thesis
    using entry_data_list_correct [of example_start 0 example_value 14 3 "\<lambda>_. True"] example_represents
    by (auto simp: example_start_def len pool_capacity_def split: if_splits)
qed





text \<open>C6: on a handle that \<open>MMDB_open\<close> has returned, a lookup of any socket address followed by a
  lookup of any path, and by building the entry data list, performs no invalid access; the value
  that is found was decoded inside the data section.\<close>

theorem lookup_then_get_safe:
  assumes "opened db" and "sockaddr_ok sa"
  shows "\<exists>st r. MMDB_lookup_sockaddr db sa = Some (st, r) \<and> entry_mmdb (result_entry r) = db \<and>
    netmask r \<le> db_depth db \<and>
    (\<exists>st' e. MMDB_aget_value stacks (result_entry r) path = Some (st', e) \<and>
       (st' = MMDB_SUCCESS \<longrightarrow> followed db e)) \<and>
    (\<exists>st' l. MMDB_get_entry_data_list calloc_ok (result_entry r) = Some (st', l) \<and>
       st' \<in> {MMDB_SUCCESS, MMDB_INVALID_DATA_ERROR, MMDB_OUT_OF_MEMORY_ERROR})"
proof -
  have wf: "wf_section db" "wf_search db" using opened_wf [OF assms(1)] by simp_all
  obtain st r where look: "MMDB_lookup_sockaddr db sa = Some (st, r)" "entry_mmdb (result_entry r) = db"
    "netmask r \<le> db_depth db"
    using lookup_sockaddr_wp [OF wf(2) assms(2)] by (auto simp: wp_iff_ex)
  have sec: "wf_section (entry_mmdb (result_entry r))" using wf look by simp
  obtain st1 e where "MMDB_aget_value stacks (result_entry r) path = Some (st1, e)"
    "st1 = MMDB_SUCCESS \<longrightarrow> followed db e"
    using MMDB_aget_value_wp [OF sec, of stacks path] look(2) by (auto simp: wp_iff_ex lookup_post_def)
  moreover obtain st2 l where "MMDB_get_entry_data_list calloc_ok (result_entry r) = Some (st2, l)"
    "st2 \<in> {MMDB_SUCCESS, MMDB_INVALID_DATA_ERROR, MMDB_OUT_OF_MEMORY_ERROR}"
    using MMDB_get_entry_data_list_any [OF sec, of calloc_ok] by (fastforce simp only: wp_iff_ex split: if_splits)
  ultimately show ?thesis using look by blast
qed

theorem lookup_then_get_safe_witness:
  "\<exists>st r. MMDB_lookup_sockaddr example_db (Sockaddr_in [1, 2, 3, 4]) = Some (st, r) \<and>
    entry_mmdb (result_entry r) = example_db \<and> netmask r \<le> db_depth example_db \<and>
    (\<exists>st' e. MMDB_aget_value (\<lambda>_ _. zero_entry) (result_entry r) [ascii ''a''] = Some (st', e) \<and>
       (st' = MMDB_SUCCESS \<longrightarrow> followed example_db e)) \<and>
    (\<exists>st' l. MMDB_get_entry_data_list (\<lambda>_. True) (result_entry r) = Some (st', l) \<and>
       st' \<in> {MMDB_SUCCESS, MMDB_INVALID_DATA_ERROR, MMDB_OUT_OF_MEMORY_ERROR})"
  by (rule lookup_then_get_safe [OF example_opened]) simp

text \<open>C7: what is written is read back. If the section holds the encoding of any value whose sizes fit the
  format and whose nesting stays within the limit, the entry data list has the labels of that value,
  and of no other, and a lookup finds what the value has at the path.\<close>

theorem encode_decode_roundtrip:
  assumes "section_bytes (entry_mmdb start) a (encode_value v)" and "entry_offset start = word_of_nat a"
    and "encodable v" and "nesting v \<le> MAXIMUM_DATA_STRUCTURE_DEPTH"
  shows "\<exists>st r. MMDB_get_entry_data_list (\<lambda>_. True) start = Some (st, r) \<and>
    (if st = MMDB_SUCCESS
     then \<exists>pool es. r = Some ((0, 0), pool) \<and> list_entries pool (length (flatten v)) (Some (0, 0)) = Some es \<and>
       (\<forall>w. map (entry_head (entry_mmdb start)) es = map Some (flatten w) \<longleftrightarrow> w = v)
     else st = MMDB_OUT_OF_MEMORY_ERROR \<and> pool_capacity < length (flatten v)) \<and>
    (\<exists>st' e. MMDB_aget_value stacks start path = Some (st', e) \<and>
      (case lookup_value v path of
         Inl st'' \<Rightarrow> st' = st''
       | Inr w \<Rightarrow> st' = MMDB_SUCCESS \<and> entry_head (entry_mmdb start) e = Some (head_of w)))"
proof -
  note v = represents_encoding [OF assms(1,3) order_refl]
  obtain st r where list: "MMDB_get_entry_data_list (\<lambda>_. True) start = Some (st, r)"
    "if st = MMDB_SUCCESS
     then \<exists>pool es. r = Some ((0, 0), pool) \<and> list_entries pool (length (flatten v)) (Some (0, 0)) = Some es \<and>
       map (entry_head (entry_mmdb start)) es = map Some (flatten v)
     else st = MMDB_OUT_OF_MEMORY_ERROR \<and> r = None \<and> ((\<forall>k :: nat. True) \<longrightarrow> pool_capacity < length (flatten v))"
    using MMDB_get_entry_data_list_flatten [OF v assms(2,4), of "\<lambda>_. True"] by (auto simp only: wp_iff_ex)
  obtain st' e where "MMDB_aget_value stacks start path = Some (st', e)"
    "case lookup_value v path of
       Inl st'' \<Rightarrow> st' = st'' \<and> st'' \<noteq> MMDB_SUCCESS \<and> e = zero_entry
     | Inr w \<Rightarrow> st' = MMDB_SUCCESS \<and> found_value (entry_mmdb start) (nesting v) w e"
    using MMDB_aget_value_lookup [OF v assms(2,4), of stacks path] by (auto simp only: wp_iff_ex)
  then have get: "\<exists>st' e. MMDB_aget_value stacks start path = Some (st', e) \<and>
      (case lookup_value v path of
         Inl st'' \<Rightarrow> st' = st''
       | Inr w \<Rightarrow> st' = MMDB_SUCCESS \<and> entry_head (entry_mmdb start) e = Some (head_of w))"
    using found_head(1) by (auto split: sum.splits)
  have only: "map Some (flatten v) = map Some (flatten w) \<longleftrightarrow> w = v" for w
    using flatten_inj [of v w] by (auto simp: inj_map_eq_map)
  show ?thesis using list get by (auto simp: only split: if_splits)
qed

theorem encode_decode_roundtrip_witness:
  "\<exists>r. MMDB_get_entry_data_list (\<lambda>_. True) \<lparr>entry_mmdb = metadata_db example_file 50 164, entry_offset = 0\<rparr> =
      Some (MMDB_SUCCESS, r) \<and>
    (\<exists>e. MMDB_aget_value (\<lambda>_ _. zero_entry) \<lparr>entry_mmdb = metadata_db example_file 50 164, entry_offset = 0\<rparr>
        [ascii ''languages'', ascii ''0''] = Some (MMDB_SUCCESS, e) \<and>
      entry_head (metadata_db example_file 50 164) e = Some (H_scalar (V_string (ascii ''en''))))"
proof -
  let ?start = "\<lparr>entry_mmdb = metadata_db example_file 50 164, entry_offset = 0\<rparr>"
  have "length (flatten example_metadata_value) \<le> pool_capacity"
    "encodable example_metadata_value" "nesting example_metadata_value \<le> MAXIMUM_DATA_STRUCTURE_DEPTH"
    by (simp_all add: example_metadata_value_def pool_capacity_def size_limit_def ascii_def)
  moreover have "lookup_value example_metadata_value [ascii ''languages'', ascii ''0''] = Inr (V_string (ascii ''en''))"
    by code_simp
  ultimately show ?thesis
    using encode_decode_roundtrip [of ?start 0 example_metadata_value "\<lambda>_ _. zero_entry" "[ascii ''languages'', ascii ''0'']"]
      example_metadata_section
    by (auto split: if_splits)
qed

section \<open>The command line tool\<close>





section \<open>Lists of entries\<close>

text \<open>C10: dumping the entry data list of a stored value prints the text of the value, which depends on
  the value only. The recursion goes no deeper than the value is nested, every copy is freed again,
  and the only error is a failed allocation.\<close>

theorem dump_prints_value:
  assumes "represents db a v n h" and "nesting v \<le> depth" and "map (entry_head db) es = map Some (flatten v)"
  shows "\<exists>st out' r'. MMDB_dump_entry_data_list depth (mapping db) i es (out, r) = Some (st, (out', r')) \<and>
    live r' = live r \<and> same_files r r' \<and>
    (if st = MMDB_SUCCESS then out' = out @ value_text i v
     else st = MMDB_OUT_OF_MEMORY_ERROR \<and> (\<exists>k. \<not> alloc_ok r k))"
  by (rule dump_of_value [OF assms])

theorem dump_prints_value_witness:
  "\<exists>es st out' r'. map (entry_head example_db) es = map Some (flatten example_value) \<and>
    MMDB_dump_entry_data_list 3 (mapping example_db) 0 es ([], example_resources) = Some (st, (out', r')) \<and>
    live r' = {#} \<and> same_files example_resources r' \<and>
    (if st = MMDB_SUCCESS then out' = value_text 0 example_value
     else st = MMDB_OUT_OF_MEMORY_ERROR \<and> (\<exists>k. \<not> alloc_ok example_resources k))"
proof -
  have "length (flatten example_value) \<le> pool_capacity" by (simp add: example_value_def pool_capacity_def)
  then obtain es where es: "map (entry_head example_db) es = map Some (flatten example_value)"
    using get_list_value [OF example_represents _ _ _ _ , of example_start example_process]
    by (auto simp: example_start_def example_process_def example_resources_def)
  have "nesting example_value \<le> 3" by (simp add: example_value_def)
  from dump_prints_value [OF example_represents this es, of 0 "[]" example_resources] es
  show ?thesis by (simp only: example_live append_Nil) blast
qed



text \<open>C12: on arbitrary bytes, \<open>MMDB_get_entry_data_list\<close> returns after finitely many steps without an
  invalid access, either with an error or with a list that is one tree in preorder, every map and
  every array followed by exactly the members it announces, and whose entries point into the
  mapping.\<close>

theorem entry_data_list_safe:
  assumes "wf_section (entry_mmdb start)"
  shows "\<exists>st r. MMDB_get_entry_data_list calloc_ok start = Some (st, r) \<and>
    (if st = MMDB_SUCCESS
     then \<exists>pool e es. r = Some ((0, 0), pool) \<and>
       list_entries pool (Suc (length es)) (Some (0, 0)) = Some (e # es) \<and>
       pending (children e) es = Some 0 \<and> list_all (entry_ok (entry_mmdb start)) (e # es)
     else r = None \<and> st \<in> {MMDB_INVALID_DATA_ERROR, MMDB_OUT_OF_MEMORY_ERROR})"
  using MMDB_get_entry_data_list_any [OF assms, of calloc_ok] by (simp only: wp_iff_ex)

theorem entry_data_list_safe_witness:
  "\<exists>st r. MMDB_get_entry_data_list (\<lambda>_. False) example_start = Some (st, r) \<and>
    (if st = MMDB_SUCCESS
     then \<exists>pool e es. r = Some ((0, 0), pool) \<and>
       list_entries pool (Suc (length es)) (Some (0, 0)) = Some (e # es) \<and>
       pending (children e) es = Some 0 \<and> list_all (entry_ok (entry_mmdb example_start)) (e # es)
     else r = None \<and> st \<in> {MMDB_INVALID_DATA_ERROR, MMDB_OUT_OF_MEMORY_ERROR})"
  by (rule entry_data_list_safe) (simp add: example_start_def example_section)



section \<open>Decoding\<close>

text \<open>C14: \<open>decode_one\<close> decodes what the format stores: its entry has the label of the value, its
  offset, and the offset of what follows it (of the first member, for a map or an array).\<close>

theorem decode_one_correct:
  assumes "stored db a v c n h"
  shows "\<exists>e'. decode_one db (word_of_nat a) e = Some (MMDB_SUCCESS, e') \<and>
    has_data e' \<and> ed_offset e' = word_of_nat a \<and>
    offset_to_next e' = word_of_nat (if is_container v then c else n) \<and>
    entry_head db e' = Some (head_of v)"
  using decode_stored [OF assms, of e] by (auto simp: entry_for_def)

theorem decode_one_correct_witness:
  "\<exists>e'. decode_one example_db 7 zero_entry = Some (MMDB_SUCCESS, e') \<and>
    has_data e' \<and> ed_offset e' = 7 \<and> offset_to_next e' = 10 \<and>
    entry_head example_db e' = Some (H_scalar (V_string (ascii ''xy'')))"
  using decode_one_correct [OF example_string [of 0], of zero_entry] by simp

text \<open>C15: on arbitrary bytes and at any offset, \<open>decode_one\<close> performs no invalid access. It fails with
  \<open>MMDB_INVALID_DATA_ERROR\<close> only; on success the cursor moves forward and stays in the section, and
  strings and byte arrays lie inside the mapping.\<close>

theorem decode_one_safe:
  assumes "wf_section db"
  shows "\<exists>st e'. decode_one db offset e = Some (st, e') \<and>
    (if st = MMDB_SUCCESS
     then has_data e' \<and> ed_offset e' = offset \<and> unat offset < unat (offset_to_next e') \<and>
       unat (offset_to_next e') \<le> unat (data_section_size db) \<and> value_ok db e'
     else st = MMDB_INVALID_DATA_ERROR)"
  using decode_one_wp [OF assms, of offset e] by (simp only: wp_iff_ex decode_post_def decoded_at_def)

theorem decode_one_safe_witness:
  "\<exists>st e'. decode_one example_db 191 zero_entry = Some (st, e') \<and>
    (if st = MMDB_SUCCESS
     then has_data e' \<and> ed_offset e' = 191 \<and> unat (191 :: u32) < unat (offset_to_next e') \<and>
       unat (offset_to_next e') \<le> unat (data_section_size example_db) \<and> value_ok example_db e'
     else st = MMDB_INVALID_DATA_ERROR)"
  by (rule decode_one_safe [OF example_section])



text \<open>C17: each of the four encodings of a pointer decodes to its target.\<close>

theorem decode_pointer_roundtrip:
  assumes "section_bytes db a bs" and "pointer_code t bs"
  shows "\<exists>e'. decode_one db (word_of_nat a) e = Some (MMDB_SUCCESS, e') \<and>
    ed_type e' = MMDB_DATA_TYPE_POINTER \<and> ed_value e' = Pointer_val (word_of_nat t) \<and>
    offset_to_next e' = word_of_nat (a + length bs)"
  using decode_pointer [OF assms, of e] by blast

theorem decode_pointer_roundtrip_witness:
  "\<exists>e'. decode_one example_db 12 zero_entry = Some (MMDB_SUCCESS, e') \<and>
    ed_type e' = MMDB_DATA_TYPE_POINTER \<and> ed_value e' = Pointer_val 7 \<and> offset_to_next e' = 14"
proof -
  have "section_bytes example_db 12 [0x20, 7]" by (rule example_data_bytes) (simp_all add: example_data_def)
  moreover have "pointer_code 7 [0x20, 7]" by (simp add: pointer_code_def)
  ultimately show ?thesis using decode_pointer_roundtrip [of example_db 12 "[0x20, 7]" 7 zero_entry] by simp
qed

section \<open>Handles and metadata\<close>

text \<open>C18: closing a handle that owns its blocks frees every one of them exactly once and unmaps the
  file; blocks of others stay. Closing it again changes nothing.\<close>

theorem MMDB_close_releases:
  assumes "handle base h0 {#} db h"
  shows "\<exists>db' h'. MMDB_close (db, h) = Some (db', h') \<and> handle_closed db' \<and> live h' = base \<and>
    open_fds h' = open_fds h0 \<and> mappings h' = mappings h0 \<and> MMDB_close (db', h') = Some (db', h')"
proof -
  from assms have "freeable base {#} db h" by (simp add: handle_def)
  from free_mmdb_struct_owns [OF this] obtain db' h' where
    free: "free_mmdb_struct (db, h) = Some (db', h')" "handle_closed db'" "owns h' base {#}"
    "open_fds h' = open_fds h" "mappings h' = mappings h - (if file_content db = None then 0 else 1)"
    by blast
  then show ?thesis
    using assms free_mmdb_struct_closed [OF free(2)] by (auto simp: MMDB_close_def handle_def owns_def)
qed

theorem MMDB_close_releases_witness:
  "\<exists>db' h'. MMDB_close (example_db, example_resources\<lparr>live := {#0, 1, 2, 3, 4, 5, 6, 7#}, mappings := 1\<rparr>) =
      Some (db', h') \<and> handle_closed db' \<and> live h' = {#} \<and> open_fds h' = 0 \<and> mappings h' = 0 \<and>
    MMDB_close (db', h') = Some (db', h')"
  using MMDB_close_releases [of "{#}" example_resources example_db
      "example_resources\<lparr>live := {#0, 1, 2, 3, 4, 5, 6, 7#}, mappings := 1\<rparr>"]
  by (simp add: handle_def freeable_def owns_def example_db_simps example_resources_def metadata_blocks_def
      language_blocks_def description_blocks_def description_block_def languages_inv_def descriptions_inv_def
      unset_from_def)



text \<open>C20: the metadata of a database that \<open>MMDB_open\<close> has opened is complete: its database type, every
  counted language and both strings of every counted description are set.\<close>

theorem MMDB_open_printable_metadata:
  assumes "MMDB_open os stacks filename flags s0 = Some (MMDB_SUCCESS, (db, h))"
  shows "printable (db_metadata db)"
  by (rule MMDB_open_printable [OF assms])

theorem MMDB_open_printable_metadata_witness:
  "\<exists>db h. MMDB_open example_os (\<lambda>_ _. zero_entry) (ascii ''x.mmdb'') 0 (zero_mmdb [], example_resources) =
      Some (MMDB_SUCCESS, (db, h)) \<and> printable (db_metadata db)"
proof -
  obtain db h where run: "MMDB_open example_os (\<lambda>_ _. zero_entry) (ascii ''x.mmdb'') 0 (zero_mmdb [], example_resources) =
      Some (MMDB_SUCCESS, (db, h))" using example_opens by blast
  from MMDB_open_printable_metadata [OF this] run show ?thesis by blast
qed




section \<open>Lookups of addresses\<close>



text \<open>C24: with the start node that \<open>find_ipv4_start_node\<close> has found, the lookup of an IPv4 address in an
  IPv6 database gives the same result as the lookup of the address with 96 zero bits in front.\<close>

theorem lookup_ipv4_in_ipv6:
  assumes "stored_tree db ns" and "ip_version (db_metadata db) = 6" and "db_depth db = 128"
    and "length a = 4" and "node_value (ipv4_start_node db) = 0"
    and "find_ipv4_start_node db = Some (MMDB_SUCCESS, db')"
  shows "MMDB_lookup_sockaddr db' (Sockaddr_in a) = MMDB_lookup_sockaddr db' (Sockaddr_in6 (replicate 12 0 @ a))"
  by (rule lookup_in_of6 [OF assms])

theorem lookup_ipv4_in_ipv6_witness:
  "\<exists>db'. find_ipv4_start_node (example_db\<lparr>ipv4_start_node := \<lparr>start_netmask = 0, node_value = 0\<rparr>\<rparr>) =
      Some (MMDB_SUCCESS, db') \<and>
    MMDB_lookup_sockaddr db' (Sockaddr_in [1, 2, 3, 4]) =
      MMDB_lookup_sockaddr db' (Sockaddr_in6 (replicate 12 0 @ [1, 2, 3, 4]))"
proof -
  let ?db = "example_db\<lparr>ipv4_start_node := \<lparr>start_netmask = 0, node_value = 0\<rparr>\<rparr>"
  have tree: "stored_tree ?db [(17, 1)]"
    using example_stored_tree by (simp add: stored_tree_def)
  obtain db' where "find_ipv4_start_node ?db = Some (MMDB_SUCCESS, db')"
    using find_ipv4_start_node_walk [OF tree] by (auto split: prod.splits)
  with lookup_ipv4_in_ipv6 [OF tree _ _ _ _ this, of "[1, 2, 3, 4]"] show ?thesis
    by (auto simp: example_db_simps)
qed



text \<open>C26: \<open>find_ipv4_start_node\<close> caches the node that 96 zero bits lead to, and how many of them were
  consumed on the way.\<close>

theorem ipv4_start_node_correct:
  assumes "stored_tree db ns" and "node_value (ipv4_start_node db) = 0"
  shows "find_ipv4_start_node db =
    (case walk (node_step ns) 0 (replicate 96 False) of
       (w, k) \<Rightarrow> Some (MMDB_SUCCESS, db\<lparr>ipv4_start_node :=
         \<lparr>start_netmask = word_of_nat k, node_value = word_of_nat w\<rparr>\<rparr>))"
  by (rule find_ipv4_start_node_walk [OF assms])

theorem ipv4_start_node_correct_witness:
  "find_ipv4_start_node (example_db\<lparr>ipv4_start_node := \<lparr>start_netmask = 0, node_value = 0\<rparr>\<rparr>) =
    Some (MMDB_SUCCESS, example_db)"
proof -
  have "stored_tree (example_db\<lparr>ipv4_start_node := \<lparr>start_netmask = 0, node_value = 0\<rparr>\<rparr>) [(17, 1)]"
    using example_stored_tree by (simp add: stored_tree_def)
  moreover have "walk (node_step [(17, 1)]) 0 (replicate 96 False) = (17, 1)"
    using example_walk [of "replicate 95 False"] by (simp add: numeral_eq_Suc)
  ultimately show ?thesis
    using ipv4_start_node_correct [of "example_db\<lparr>ipv4_start_node := \<lparr>start_netmask = 0, node_value = 0\<rparr>\<rparr>"]
    by (simp add: example_db_simps)
qed




text \<open>C29: \<open>MMDB_read_node\<close> gives the two records of the node of a stored tree; it fails exactly when one
  of them is invalid.\<close>

theorem read_node_correct:
  assumes "stored_tree db ns" and "n < length ns"
  shows "\<exists>st node'. MMDB_read_node db (word_of_nat n) node = Some (st, node') \<and>
    unat (left_record node') = fst (ns ! n) \<and> unat (right_record node') = snd (ns ! n) \<and>
    (st = MMDB_SUCCESS \<or> st = MMDB_CORRUPT_SEARCH_TREE_ERROR) \<and>
    (st = MMDB_SUCCESS \<longleftrightarrow>
       record_type db (left_record node') \<noteq> MMDB_RECORD_TYPE_INVALID \<and>
       record_type db (right_record node') \<noteq> MMDB_RECORD_TYPE_INVALID)"
  by (rule MMDB_read_node_stored [OF assms])

theorem read_node_correct_witness:
  "\<exists>st node'. MMDB_read_node example_db 0 undefined = Some (st, node') \<and>
    unat (left_record node') = 17 \<and> unat (right_record node') = 1 \<and>
    (st = MMDB_SUCCESS \<or> st = MMDB_CORRUPT_SEARCH_TREE_ERROR) \<and>
    (st = MMDB_SUCCESS \<longleftrightarrow>
       record_type example_db (left_record node') \<noteq> MMDB_RECORD_TYPE_INVALID \<and>
       record_type example_db (right_record node') \<noteq> MMDB_RECORD_TYPE_INVALID)"
  using read_node_correct [OF example_stored_tree, of 0 undefined] by simp

text \<open>C30: the record getters that \<open>record_info_for_database\<close> selects read back both records of a node,
  for 24, 28 and 32 bits.\<close>

theorem record_getters_roundtrip:
  assumes "bytes_at m p (encode_node sz (l, r))" and "sz \<in> {6, 7, 8}" and "unat (full_record_byte_size db) = sz"
    and "l < 2 ^ (4 * sz)" and "r < 2 ^ (4 * sz)"
  shows "left_record_getter (record_info_for_database db) m p = Some (word_of_nat l) \<and>
    right_record_getter (record_info_for_database db) m
      (p + unat (right_record_offset (record_info_for_database db))) = Some (word_of_nat r)"
  using getters_encode_node [OF assms] by simp

theorem record_getters_roundtrip_witness:
  "left_record_getter (record_info_for_database (example_db\<lparr>full_record_byte_size := 7\<rparr>)) [2, 3, 4, 0x15, 6, 7, 8] 0 =
      Some 0x1020304 \<and>
    right_record_getter (record_info_for_database (example_db\<lparr>full_record_byte_size := 7\<rparr>)) [2, 3, 4, 0x15, 6, 7, 8]
      (0 + unat (right_record_offset (record_info_for_database (example_db\<lparr>full_record_byte_size := 7\<rparr>)))) =
      Some 0x5060708"
proof -
  have bytes: "be_bytes 3 n = [word_of_nat (n div 65536), word_of_nat (n div 256 mod 256), word_of_nat (n mod 256)]"
    if "n < 2 ^ 24" for n using that by (simp add: numeral_3_eq_3 div_mult2_eq [symmetric])
  have "encode_node 7 (0x1020304, 0x5060708) = [2, 3, 4, 0x15, 6, 7, 8]"
    unfolding encode_node_def by (simp add: bytes)
  then have "bytes_at [2, 3, 4, 0x15, 6, 7, 8] 0 (encode_node 7 (0x1020304, 0x5060708))"
    by (simp add: bytes_at_def)
  note rt = record_getters_roundtrip [OF this, of "example_db\<lparr>full_record_byte_size := 7\<rparr>"]
  have sz: "7 \<in> {6, 7, 8 :: nat}" "unat (full_record_byte_size (example_db\<lparr>full_record_byte_size := 7\<rparr>)) = 7"
    by simp_all
  have lim: "0x1020304 < (2 :: nat) ^ (4 * 7)" "0x5060708 < (2 :: nat) ^ (4 * 7)" by simp_all
  have n: "word_of_nat 0x1020304 = (0x1020304 :: u32)" "word_of_nat 0x5060708 = (0x5060708 :: u32)" by simp_all
  show ?thesis using rt [OF sz lim] unfolding n .
qed

section \<open>Lookups of paths\<close>

text \<open>C31: on arbitrary bytes and for any path, \<open>MMDB_aget_value\<close> performs no invalid access. A value
  that it finds lies in the section and is no pointer; otherwise the status blames the data or the
  path.\<close>

theorem MMDB_aget_value_safe:
  assumes "wf_section (entry_mmdb start)"
  shows "\<exists>st e. MMDB_aget_value stacks start path = Some (st, e) \<and>
    (if st = MMDB_SUCCESS then followed (entry_mmdb start) e
     else st \<in> {MMDB_INVALID_DATA_ERROR, MMDB_INVALID_LOOKUP_PATH_ERROR,
       MMDB_LOOKUP_PATH_DOES_NOT_MATCH_DATA_ERROR})"
  using MMDB_aget_value_wp [OF assms, of stacks path] by (simp only: wp_iff_ex lookup_post_def)

theorem MMDB_aget_value_safe_witness:
  "\<exists>st e. MMDB_aget_value (\<lambda>_ _. zero_entry) \<lparr>entry_mmdb = example_db, entry_offset = 100\<rparr> [ascii ''12x''] =
      Some (st, e) \<and>
    (if st = MMDB_SUCCESS then followed example_db e
     else st \<in> {MMDB_INVALID_DATA_ERROR, MMDB_INVALID_LOOKUP_PATH_ERROR,
       MMDB_LOOKUP_PATH_DOES_NOT_MATCH_DATA_ERROR})"
  using MMDB_aget_value_safe [of "\<lparr>entry_mmdb = example_db, entry_offset = 100\<rparr>"] example_section
  by (simp only: MMDB_entry_s.simps)

text \<open>C32: the element of an array at position \<open>i\<close> is found under the decimal number \<open>i\<close>, and under the
  number that counts back from the end of the array.\<close>

theorem array_index_roundtrip:
  assumes "represents (entry_mmdb start) a (V_array vs) n h" and "entry_offset start = word_of_nat a"
    and "h \<le> MAXIMUM_DATA_STRUCTURE_DEPTH" and "i < length vs" and "int (length vs) \<le> LONG_MAX"
    and "p = decimal i \<or> p = ascii ''-'' @ decimal (length vs - i)"
  shows "\<exists>e. MMDB_aget_value stacks start [p] = Some (MMDB_SUCCESS, e) \<and> found_value (entry_mmdb start) h (vs ! i) e"
proof -
  have "array_position p (length vs) = Inr i"
    using assms(4-6) by (auto simp: array_position_def strtol10_decimal strtol10_minus_decimal)
  then show ?thesis
    using MMDB_aget_value_lookup [OF assms(1-3), of stacks "[p]"] by (auto simp: wp_iff_ex)
qed

theorem array_index_roundtrip_witness:
  "\<exists>e. MMDB_aget_value (\<lambda>_ _. zero_entry) \<lparr>entry_mmdb = example_db, entry_offset = 3\<rparr> [ascii ''-'' @ decimal 1] =
      Some (MMDB_SUCCESS, e) \<and> found_value example_db 2 (V_string (ascii ''xy'')) e"
  using array_index_roundtrip [of "\<lparr>entry_mmdb = example_db, entry_offset = 3\<rparr>" 3 _ 10 2 1
      "ascii ''-'' @ decimal 1" "\<lambda>_ _. zero_entry"]
    stored_represents_represents_seq_represents_pairs.direct [OF example_array]
  by (fastforce simp: LONG_MAX_def numeral_2_eq_2)

text \<open>C33: \<open>skip_map_or_array\<close>, called for the entry of a stored value, leaves the cursor behind the
  whole value, whatever it contains, as long as the nesting stays within the limit.\<close>

theorem skip_map_or_array_correct:
  assumes "stored db a v c n h" and "depth + h \<le> MAXIMUM_DATA_STRUCTURE_DEPTH"
    and "entry_for db a v (if is_container v then c else n) e"
  shows "\<exists>e'. skip_map_or_array db e depth = Some (MMDB_SUCCESS, e') \<and> offset_to_next e' = word_of_nat n"
  using skip_stored(1) [OF assms(1)] assms(2,3) by auto

theorem skip_map_or_array_correct_witness:
  "\<exists>e e'. decode_one example_db 0 zero_entry = Some (MMDB_SUCCESS, e) \<and>
     skip_map_or_array example_db e 0 = Some (MMDB_SUCCESS, e') \<and> offset_to_next e' = 14"
proof -
  obtain e where e: "decode_one example_db 0 zero_entry = Some (MMDB_SUCCESS, e)"
    "entry_for example_db 0 example_value (if is_container example_value then 1 else 14) e"
    using decode_stored [OF example_map, of zero_entry] by auto
  then show ?thesis
    using skip_map_or_array_correct [OF example_map, of 0 e] by simp
qed

section \<open>Threads\<close>





text \<open>C36: every schedule of the threaded benchmark ends: there is no infinite sequence of steps.\<close>

theorem threaded_benchmark_terminates: "wfP (\<lambda>b' b. bench_step env pt mmdb n iterations tinfo b b')"
  by (rule bench_step_wf)

text \<open>C37: if the second thread cannot be created, the array of thread data is freed while the first
  thread runs, and there is a schedule in which that thread reads it afterwards.\<close>

theorem threaded_benchmark_use_after_free:
  assumes "bench_start env pt s = Some (Some tinfo, b)" and "2 \<le> n"
    and "\<not> create_fails pt 0" and "create_fails pt 1" and "tinfo \<notin># live (heap s)"
  shows "\<exists>b'. bench_run env pt mmdb n iterations tinfo b b' \<and> bench_phase b' = Faulted"
  by (rule bench_use_after_free [OF assms])

theorem threaded_benchmark_use_after_free_witness:
  "\<exists>b b'. bench_start example_env example_pthreads example_process = Some (Some 0, b) \<and>
    bench_run example_env example_pthreads example_db 2 1 0 b b' \<and> bench_phase b' = Faulted"
proof -
  obtain b where b: "bench_start example_env example_pthreads example_process = Some (Some 0, b)"
    by (simp add: bench_start_def c_malloc_def example_pthreads_def example_process_def example_resources_def)
  from threaded_benchmark_use_after_free [OF b, of 2 example_db 1] show ?thesis
    using b by (simp add: example_pthreads_def example_process_def example_resources_def)
qed

section \<open>Helpers\<close>

text \<open>C38: \<open>data_pool_to_list\<close> links the elements of all blocks, in the order in which they were
  allocated; following the links gives back the entries.\<close>

theorem data_pool_list_roundtrip:
  assumes "pool_inv s0 pool" and "pool_items s0 pool \<noteq> []"
  shows "\<exists>pool'. data_pool_to_list pool = Some (Some (0, 0), pool') \<and>
    list_entries pool' (length (pool_items s0 pool)) (Some (0, 0)) = Some (pool_items s0 pool)"
  by (rule data_pool_to_list_items [OF assms])

theorem data_pool_list_roundtrip_witness:
  "\<exists>pool pool1 pool2. data_pool_new (\<lambda>_. True) 1 = Some pool \<and>
    data_pool_alloc (\<lambda>_. True) pool = (Some (0, 0), pool1) \<and>
    data_pool_to_list pool1 = Some (Some (0, 0), pool2) \<and> list_entries pool2 1 (Some (0, 0)) = Some [zero_entry]"
proof -
  obtain pool where new: "data_pool_new (\<lambda>_. True) 1 = Some pool"
    by (simp add: data_pool_new_def can_multiply_iff)
  obtain pool1 where alloc: "data_pool_alloc (\<lambda>_. True) pool = (Some (0, 0), pool1)"
    using new by (auto simp: data_pool_new_def data_pool_alloc_def can_multiply_iff split: if_splits)
  have "pool_items 1 pool1 = [zero_entry]"
    using data_pool_alloc_inv(2) [OF data_pool_new_inv(1) [OF new] alloc] data_pool_new_inv(2) [OF new] by simp
  then show ?thesis
    using data_pool_list_roundtrip [OF data_pool_alloc_inv(1) [OF data_pool_new_inv(1) [OF new] alloc]] new alloc
    by auto
qed



section \<open>Test programs\<close>



end
